(* ===== verification/Pintos_Prelude.thy ===== *)
theory Pintos_Prelude
  imports Main "HOL-Library.Monad_Syntax" "HOL-Library.Word" "HOL-Library.Multiset"
    "HOL-Library.Signed_Division"
begin

section \<open>Shared vocabulary of the development\<close>

text \<open>
  Names, types and facts that every component of the kernel model uses.

  Kernel code that can panic (a failed ASSERT, a PANIC, a null dereference) or loop without end
  is a function into \<open>option\<close>: \<open>None\<close> is "does not return to its caller". A call sequence
  is then the bind of the option monad, and \<open>ASSERT\<close> is the guard below.
\<close>

named_theorems heap_simps \<open>effect of the pointer operations on a well-formed list\<close>
named_theorems inv_intros \<open>operations that keep an invariant\<close>

definition ASSERT :: "bool \<Rightarrow> unit option" where
  "ASSERT b = (if b then Some () else None)"

lemma ASSERT_True [simp]: "ASSERT True = Some ()"
  by (simp add: ASSERT_def)

lemma ASSERT_False [simp]: "ASSERT False = None"
  by (simp add: ASSERT_def)

lemma ASSERT_eq_Some [simp]: "ASSERT b = Some u \<longleftrightarrow> b"
  by (simp add: ASSERT_def)

lemma ASSERT_bind: "b \<Longrightarrow> (ASSERT b \<bind> f) = f ()"
  by (simp add: ASSERT_def)

lemma bind_eq_SomeE [elim!]:
  assumes "m \<bind> f = Some y"
  obtains x where "m = Some x" and "f x = Some y"
  using assms by (cases m) auto

type_synonym u8 = "8 word"
type_synonym u32 = "32 word"
type_synonym u64 = "64 word"

lemma unat_u8: "unat (x :: u8) < 2 ^ 8"
  using unsigned_less[of x, where 'a = nat] by simp

lemma unat_u32: "unat (x :: u32) < 2 ^ 32"
  using unsigned_less[of x, where 'a = nat] by simp

lemma unat_u64: "unat (x :: u64) < 2 ^ 64"
  using unsigned_less[of x, where 'a = nat] by simp

lemma unat_drop_bit: "unat (drop_bit k (w :: 'a :: len word)) = unat w div 2 ^ k"
  by (rule trans[OF unat_drop_bit_eq drop_bit_eq_div])

lemma unat_of_nat_u32: "a < 2 ^ 32 \<Longrightarrow> unat (word_of_nat a :: u32) = a"
  by (simp add: unat_of_nat)

text \<open>Sizes and indices of type \<open>size_t\<close> are natural numbers below \<open>2 ^ 32\<close>; a sum of two of them
  wraps around.\<close>

definition SIZE_MAX :: nat where
  "SIZE_MAX = 2 ^ 32 - 1"

definition size_add :: "nat \<Rightarrow> nat \<Rightarrow> nat" where
  "size_add a b = (a + b) mod 2 ^ 32"

lemma size_add_eq: "a + b \<le> n \<Longrightarrow> n < 2 ^ 32 \<Longrightarrow> size_add a b = a + b"
  by (simp add: size_add_def)

lemma size_add_0 [simp]: "a < 2 ^ 32 \<Longrightarrow> size_add a 0 = a"
  by (simp add: size_add_def)

section \<open>Orders given by a comparison function\<close>

text \<open>
  The kernel's sorting, searching and hashing code takes its order as a function
  \<open>less (a, b)\<close>. What that code relies on is that \<open>less\<close> is a strict weak order: it never
  holds both ways, and "not less" is transitive. Elements with neither \<open>less a b\<close> nor
  \<open>less b a\<close> count as equal, which is what hash.c and list_unique() test.
\<close>

locale strict_weak_order =
  fixes lessf :: "'a \<Rightarrow> 'a \<Rightarrow> bool"
  assumes asym: "lessf x y \<Longrightarrow> \<not> lessf y x"
    and negtrans: "lessf x z \<Longrightarrow> lessf x y \<or> lessf y z"
begin

lemma irrefl: "\<not> lessf x x"
  using asym by blast

lemma trans: "lessf x y \<Longrightarrow> lessf y z \<Longrightarrow> lessf x z"
  using asym negtrans by blast

lemma le_trans: "\<not> lessf y x \<Longrightarrow> \<not> lessf z y \<Longrightarrow> \<not> lessf z x"
  using negtrans by blast

lemma le_total: "\<not> lessf y x \<or> \<not> lessf x y"
  using asym by blast

lemma transp_le: "transp (\<lambda>x y. \<not> lessf y x)"
  using le_trans by (intro transpI) blast

lemma successively_sorted:
  "successively (\<lambda>x y. \<not> lessf y x) xs = sorted_wrt (\<lambda>x y. \<not> lessf y x) xs"
  by (rule successively_iff_sorted_wrt_strong) (use le_trans in blast)

end

text \<open>Comparing a key in a linear order, upwards or downwards, is such an order.\<close>

lemma strict_weak_order_key: "strict_weak_order (\<lambda>a b. f a < (f b :: 'k :: linorder))"
  by unfold_locales (auto simp: not_less)

lemma strict_weak_order_key_rev: "strict_weak_order (\<lambda>a b. f b < (f a :: 'k :: linorder))"
  by unfold_locales (auto simp: not_less)

definition equiv_by :: "('a \<Rightarrow> 'a \<Rightarrow> bool) \<Rightarrow> 'a \<Rightarrow> 'a \<Rightarrow> bool" where
  "equiv_by lessf x y \<longleftrightarrow> \<not> lessf x y \<and> \<not> lessf y x"

text \<open>
  Stable insertion sort: the specification of the kernel's list sort on the sequence of elements.
\<close>

fun insort_by :: "('a \<Rightarrow> 'a \<Rightarrow> bool) \<Rightarrow> 'a \<Rightarrow> 'a list \<Rightarrow> 'a list" where
  "insort_by lessf e [] = [e]"
| "insort_by lessf e (x # xs) = (if lessf x e then x # insort_by lessf e xs else e # x # xs)"

definition sort_by :: "('a \<Rightarrow> 'a \<Rightarrow> bool) \<Rightarrow> 'a list \<Rightarrow> 'a list" where
  "sort_by lessf xs = foldr (insort_by lessf) xs []"

definition stable_wrt :: "('a \<Rightarrow> 'a \<Rightarrow> bool) \<Rightarrow> 'a list \<Rightarrow> 'a list \<Rightarrow> bool" where
  "stable_wrt lessf xs ys \<longleftrightarrow> (\<forall>x. filter (equiv_by lessf x) ys = filter (equiv_by lessf x) xs)"

lemma mset_insort_by [simp]: "mset (insort_by lessf e xs) = add_mset e (mset xs)"
  by (induction xs) auto

lemma set_insort_by [simp]: "set (insort_by lessf e xs) = insert e (set xs)"
  by (induction xs) auto

lemma mset_sort_by [simp]: "mset (sort_by lessf xs) = mset xs"
  by (induction xs) (auto simp: sort_by_def)

lemma set_sort_by [simp]: "set (sort_by lessf xs) = set xs"
  by (rule mset_eq_setD) simp

lemma length_sort_by [simp]: "length (sort_by lessf xs) = length xs"
  by (metis mset_sort_by size_mset)

context strict_weak_order
begin

abbreviation sorted_by :: "'a list \<Rightarrow> bool" where
  "sorted_by xs \<equiv> sorted_wrt (\<lambda>x y. \<not> lessf y x) xs"

lemma sorted_insort_by: "sorted_by xs \<Longrightarrow> sorted_by (insort_by lessf e xs)"
  by (induction xs) (auto dest: asym negtrans)

lemma sorted_sort_by: "sorted_by (sort_by lessf xs)"
  by (induction xs) (auto simp: sort_by_def sorted_insort_by)

lemma equiv_refl: "equiv_by lessf x x"
  by (simp add: equiv_by_def irrefl)

lemma equiv_sym: "equiv_by lessf x y \<Longrightarrow> equiv_by lessf y x"
  by (simp add: equiv_by_def)

lemma equiv_trans: "equiv_by lessf x y \<Longrightarrow> equiv_by lessf y z \<Longrightarrow> equiv_by lessf x z"
  using negtrans by (auto simp: equiv_by_def)

lemma filter_insort_by:
  "filter (equiv_by lessf x) (insort_by lessf e xs) = filter (equiv_by lessf x) (e # xs)"
proof (induction xs)
  case (Cons y ys)
  have "lessf y e \<Longrightarrow> \<not> (equiv_by lessf x y \<and> equiv_by lessf x e)"
    using negtrans by (auto simp: equiv_by_def)
  with Cons show ?case by auto
qed simp

lemma stable_sort_by: "stable_wrt lessf xs (sort_by lessf xs)"
  unfolding stable_wrt_def sort_by_def
  by (induction xs) (auto simp: filter_insort_by)

lemma hd_sort_by:
  assumes "xs \<noteq> []"
  defines "m \<equiv> hd (sort_by lessf xs)"
  shows "m \<in> set xs" and "\<forall>x \<in> set xs. \<not> lessf x m" and "m = hd (filter (equiv_by lessf m) xs)"
proof -
  have ne: "sort_by lessf xs \<noteq> []" using assms(1) length_sort_by[of lessf xs] by force
  then obtain ms where ms: "sort_by lessf xs = m # ms" unfolding m_def by (cases "sort_by lessf xs") auto
  have set: "set xs = set (m # ms)" unfolding ms[symmetric] by simp
  show "m \<in> set xs" unfolding set by simp
  show "\<forall>x \<in> set xs. \<not> lessf x m" unfolding set using sorted_sort_by[of xs, unfolded ms] irrefl by auto
  have "filter (equiv_by lessf m) xs = filter (equiv_by lessf m) (sort_by lessf xs)"
    using stable_sort_by[of xs] unfolding stable_wrt_def by metis
  also have "\<dots> = m # filter (equiv_by lessf m) ms" unfolding ms using equiv_refl by simp
  finally show "m = hd (filter (equiv_by lessf m) xs)" by simp
qed

lemma stable_set:
  assumes "stable_wrt lessf xs ys"
  shows "set ys = set xs"
proof -
  have "x \<in> set ys \<longleftrightarrow> x \<in> set xs" for x
  proof -
    have "x \<in> set zs \<longleftrightarrow> x \<in> set (filter (equiv_by lessf x) zs)" for zs
      by (simp add: equiv_refl)
    with assms show ?thesis unfolding stable_wrt_def by metis
  qed
  then show ?thesis by blast
qed

lemma stable_sorted_unique:
  assumes "sorted_by ys" "sorted_by zs" "stable_wrt lessf ys zs"
  shows "zs = ys"
  using assms
proof (induction ys arbitrary: zs)
  case Nil
  then show ?case using stable_set by fastforce
next
  case (Cons y ys)
  have eq: "set zs = set (y # ys)" using stable_set[OF Cons.prems(3)] .
  then obtain z zs' where zs: "zs = z # zs'" by (cases zs) auto
  have "z \<in> set (y # ys)" "y \<in> set (z # zs')" using eq zs by auto
  then have "\<not> lessf z y" "\<not> lessf y z"
    using Cons.prems(1,2) zs irrefl by auto
  then have yz: "equiv_by lessf y z" by (simp add: equiv_by_def)
  have F: "filter (equiv_by lessf x) (z # zs') = filter (equiv_by lessf x) (y # ys)" for x
    using Cons.prems(3) zs by (simp add: stable_wrt_def)
  have "z = y" using F[of y] yz equiv_refl by simp
  moreover have "stable_wrt lessf ys zs'"
    unfolding stable_wrt_def
  proof
    fix x show "filter (equiv_by lessf x) zs' = filter (equiv_by lessf x) ys"
      using F[of x] \<open>z = y\<close> by (auto split: if_splits)
  qed
  ultimately show ?case using Cons zs by simp
qed

lemma sort_by_unique:
  "sorted_by ys \<Longrightarrow> stable_wrt lessf xs ys \<Longrightarrow> ys = sort_by lessf xs"
  by (rule stable_sorted_unique[OF sorted_sort_by])
    (use stable_sort_by in \<open>auto simp: stable_wrt_def\<close>)

end

subsection \<open>Signed integers\<close>

text \<open>Signed values are integers; these reduce a result to the range of \<open>int64_t\<close> and \<open>int\<close>.\<close>

definition wrap64 :: "int \<Rightarrow> int" where
  "wrap64 x = signed_take_bit 63 x"

definition wrap32 :: "int \<Rightarrow> int" where
  "wrap32 x = signed_take_bit 31 x"

lemma wrap64_id [simp]: "- (2 ^ 63) \<le> x \<Longrightarrow> x < 2 ^ 63 \<Longrightarrow> wrap64 x = x"
  by (simp add: wrap64_def signed_take_bit_int_eq_self)

lemma wrap32_id [simp]: "- (2 ^ 31) \<le> x \<Longrightarrow> x < 2 ^ 31 \<Longrightarrow> wrap32 x = x"
  by (simp add: wrap32_def signed_take_bit_int_eq_self)

lemma sdiv_nonneg: "0 \<le> (x :: int) \<Longrightarrow> 0 < y \<Longrightarrow> x sdiv y = x div y"
  by (auto simp: signed_divide_int_def sgn_if)

lemma sdiv_neg: "(x :: int) < 0 \<Longrightarrow> 0 < y \<Longrightarrow> x sdiv y = - ((- x) div y)"
  by (auto simp: signed_divide_int_def sgn_if)

lemma sint_unat:
  assumes "unat (w :: u32) < 2 ^ 31"
  shows "sint w = int (unat w)"
proof -
  have "int (unat w) < 2 ^ 31" using assms by (simp del: of_nat_unat)
  moreover have "- (2 ^ 31) \<le> uint w" by (rule order_trans[of _ 0]) simp_all
  ultimately have "signed_take_bit 31 (uint w) = uint w"
    by (intro signed_take_bit_int_eq_self) simp_all
  then show ?thesis by (simp add: sint_uint)
qed

end
