(* ===== verification/Pintos_List.thy ===== *)
theory Pintos_List
  imports Pintos_Prelude
begin

section \<open>Doubly linked lists (lib/kernel/list.c)\<close>

text \<open>
  The lists of the kernel are intrusive: a \<open>struct list_elem\<close> sits inside the object it links,
  and a \<open>struct list\<close> is a pair of header elements. The model keeps that representation. A heap
  maps the address of every element to its two links (\<open>None\<close> is the null pointer) and a list is
  the pair of addresses of its headers. Every operation is a sequence of pointer assignments on
  the heap, in the order the code makes them. Pointer arguments that the code asserts to be
  non-null are addresses; a null pointer read from the heap and then dereferenced stops the
  operation, as does a failed assertion.
\<close>

subsection \<open>Data and operations\<close>

record 'a list_elem =
  l_prev :: "'a option"
  l_next :: "'a option"

type_synonym 'a lheap = "'a \<Rightarrow> 'a list_elem"

record 'a clist =
  l_head :: 'a
  l_tail :: 'a

definition set_prev :: "'a lheap \<Rightarrow> 'a \<Rightarrow> 'a option \<Rightarrow> 'a lheap" where
  "set_prev h a p = h(a := (h a)\<lparr>l_prev := p\<rparr>)"

definition set_next :: "'a lheap \<Rightarrow> 'a \<Rightarrow> 'a option \<Rightarrow> 'a lheap" where
  "set_next h a p = h(a := (h a)\<lparr>l_next := p\<rparr>)"

definition is_head :: "'a lheap \<Rightarrow> 'a \<Rightarrow> bool" where
  "is_head h e \<longleftrightarrow> l_prev (h e) = None \<and> l_next (h e) \<noteq> None"

definition is_interior :: "'a lheap \<Rightarrow> 'a \<Rightarrow> bool" where
  "is_interior h e \<longleftrightarrow> l_prev (h e) \<noteq> None \<and> l_next (h e) \<noteq> None"

definition is_tail :: "'a lheap \<Rightarrow> 'a \<Rightarrow> bool" where
  "is_tail h e \<longleftrightarrow> l_prev (h e) \<noteq> None \<and> l_next (h e) = None"

definition list_init :: "'a lheap \<Rightarrow> 'a clist \<Rightarrow> 'a lheap" where
  "list_init h l =
     (let h = set_prev h (l_head l) None;
          h = set_next h (l_head l) (Some (l_tail l));
          h = set_prev h (l_tail l) (Some (l_head l))
      in set_next h (l_tail l) None)"

definition list_begin :: "'a lheap \<Rightarrow> 'a clist \<Rightarrow> 'a option" where
  "list_begin h l = l_next (h (l_head l))"

definition list_next :: "'a lheap \<Rightarrow> 'a \<Rightarrow> 'a option" where
  "list_next h e = do {
     ASSERT (is_head h e \<or> is_interior h e);
     l_next (h e)
   }"

definition list_end :: "'a clist \<Rightarrow> 'a" where
  "list_end l = l_tail l"

definition list_rbegin :: "'a lheap \<Rightarrow> 'a clist \<Rightarrow> 'a option" where
  "list_rbegin h l = l_prev (h (l_tail l))"

definition list_prev :: "'a lheap \<Rightarrow> 'a \<Rightarrow> 'a option" where
  "list_prev h e = do {
     ASSERT (is_interior h e \<or> is_tail h e);
     l_prev (h e)
   }"

definition list_rend :: "'a clist \<Rightarrow> 'a" where
  "list_rend l = l_head l"

definition list_head :: "'a clist \<Rightarrow> 'a" where
  "list_head l = l_head l"

definition list_tail :: "'a clist \<Rightarrow> 'a" where
  "list_tail l = l_tail l"

definition list_insert :: "'a lheap \<Rightarrow> 'a \<Rightarrow> 'a \<Rightarrow> 'a lheap option" where
  "list_insert h before e = do {
     ASSERT (is_interior h before \<or> is_tail h before);
     let h = set_prev h e (l_prev (h before));
     let h = set_next h e (Some before);
     p \<leftarrow> l_prev (h before);
     let h = set_next h p (Some e);
     Some (set_prev h before (Some e))
   }"

definition list_splice :: "'a lheap \<Rightarrow> 'a \<Rightarrow> 'a \<Rightarrow> 'a \<Rightarrow> 'a lheap option" where
  "list_splice h before first_e end_e = do {
     ASSERT (is_interior h before \<or> is_tail h before);
     if first_e = end_e then Some h
     else do {
       end_e \<leftarrow> list_prev h end_e;
       ASSERT (is_interior h first_e);
       ASSERT (is_interior h end_e);
       fp \<leftarrow> l_prev (h first_e);
       let h = set_next h fp (l_next (h end_e));
       ln \<leftarrow> l_next (h end_e);
       let h = set_prev h ln (l_prev (h first_e));
       let h = set_prev h first_e (l_prev (h before));
       let h = set_next h end_e (Some before);
       bp \<leftarrow> l_prev (h before);
       let h = set_next h bp (Some first_e);
       Some (set_prev h before (Some end_e))
     }
   }"

definition list_push_front :: "'a lheap \<Rightarrow> 'a clist \<Rightarrow> 'a \<Rightarrow> 'a lheap option" where
  "list_push_front h l e = do { b \<leftarrow> list_begin h l; list_insert h b e }"

definition list_push_back :: "'a lheap \<Rightarrow> 'a clist \<Rightarrow> 'a \<Rightarrow> 'a lheap option" where
  "list_push_back h l e = list_insert h (list_end l) e"

definition list_remove :: "'a lheap \<Rightarrow> 'a \<Rightarrow> ('a lheap \<times> 'a) option" where
  "list_remove h e = do {
     ASSERT (is_interior h e);
     p \<leftarrow> l_prev (h e);
     let h = set_next h p (l_next (h e));
     n \<leftarrow> l_next (h e);
     let h = set_prev h n (l_prev (h e));
     r \<leftarrow> l_next (h e);
     Some (h, r)
   }"

definition list_empty :: "'a lheap \<Rightarrow> 'a clist \<Rightarrow> bool" where
  "list_empty h l \<longleftrightarrow> list_begin h l = Some (list_end l)"

definition list_front :: "'a lheap \<Rightarrow> 'a clist \<Rightarrow> 'a option" where
  "list_front h l = do {
     ASSERT (\<not> list_empty h l);
     l_next (h (l_head l))
   }"

definition list_back :: "'a lheap \<Rightarrow> 'a clist \<Rightarrow> 'a option" where
  "list_back h l = do {
     ASSERT (\<not> list_empty h l);
     l_prev (h (l_tail l))
   }"

definition list_pop_front :: "'a lheap \<Rightarrow> 'a clist \<Rightarrow> ('a lheap \<times> 'a) option" where
  "list_pop_front h l = do {
     front \<leftarrow> list_front h l;
     (h, _) \<leftarrow> list_remove h front;
     Some (h, front)
   }"

definition list_pop_back :: "'a lheap \<Rightarrow> 'a clist \<Rightarrow> ('a lheap \<times> 'a) option" where
  "list_pop_back h l = do {
     back \<leftarrow> list_back h l;
     (h, _) \<leftarrow> list_remove h back;
     Some (h, back)
   }"

text \<open>
  The loops follow \<open>next\<close> links. On a heap whose links form a cycle they would not end, so they
  are partial functions: \<open>None\<close> covers that case and a failed assertion.
\<close>

partial_function (option) list_size_loop :: "'a lheap \<Rightarrow> 'a clist \<Rightarrow> 'a \<Rightarrow> nat \<Rightarrow> nat option" where
  "list_size_loop h l e cnt =
     (if e = list_end l then Some cnt
      else do { e \<leftarrow> list_next h e; list_size_loop h l e (cnt + 1) })"

definition list_size :: "'a lheap \<Rightarrow> 'a clist \<Rightarrow> nat option" where
  "list_size h l = do { e \<leftarrow> list_begin h l; list_size_loop h l e 0 }"

definition swap_links :: "'a lheap \<Rightarrow> 'a \<Rightarrow> 'a lheap" where
  "swap_links h e = h(e := \<lparr>l_prev = l_next (h e), l_next = l_prev (h e)\<rparr>)"

partial_function (option) list_reverse_loop :: "'a lheap \<Rightarrow> 'a clist \<Rightarrow> 'a \<Rightarrow> 'a lheap option" where
  "list_reverse_loop h l e =
     (if e = list_end l then Some h
      else (let h = swap_links h e in
            do { e \<leftarrow> l_prev (h e); list_reverse_loop h l e }))"

definition list_reverse :: "'a lheap \<Rightarrow> 'a clist \<Rightarrow> 'a lheap option" where
  "list_reverse h l =
     (if list_empty h l then Some h
      else do {
        e \<leftarrow> list_begin h l;
        h \<leftarrow> list_reverse_loop h l e;
        let hn = l_next (h (l_head l));
        let h = set_next h (l_head l) (l_prev (h (l_tail l)));
        let h = set_prev h (l_tail l) hn;
        f \<leftarrow> l_next (h (l_head l));
        b \<leftarrow> l_prev (h (l_tail l));
        let fp = l_prev (h f);
        let h = set_prev h f (l_next (h b));
        Some (set_next h b fp)
      })"

partial_function (option) is_sorted_loop ::
  "('a \<Rightarrow> 'a \<Rightarrow> bool) \<Rightarrow> 'a lheap \<Rightarrow> 'a \<Rightarrow> 'a \<Rightarrow> bool option" where
  "is_sorted_loop lessf h a b = do {
     a \<leftarrow> list_next h a;
     if a \<noteq> b then do {
       p \<leftarrow> list_prev h a;
       if lessf a p then Some False else is_sorted_loop lessf h a b
     } else Some True
   }"

definition is_sorted :: "('a \<Rightarrow> 'a \<Rightarrow> bool) \<Rightarrow> 'a lheap \<Rightarrow> 'a \<Rightarrow> 'a \<Rightarrow> bool option" where
  "is_sorted lessf h a b = (if a \<noteq> b then is_sorted_loop lessf h a b else Some True)"

partial_function (option) find_end_of_run_loop ::
  "('a \<Rightarrow> 'a \<Rightarrow> bool) \<Rightarrow> 'a lheap \<Rightarrow> 'a \<Rightarrow> 'a \<Rightarrow> 'a option" where
  "find_end_of_run_loop lessf h a b = do {
     a \<leftarrow> list_next h a;
     if a \<noteq> b then do {
       p \<leftarrow> list_prev h a;
       if \<not> lessf a p then find_end_of_run_loop lessf h a b else Some a
     } else Some a
   }"

definition find_end_of_run ::
  "('a \<Rightarrow> 'a \<Rightarrow> bool) \<Rightarrow> 'a lheap \<Rightarrow> 'a \<Rightarrow> 'a \<Rightarrow> 'a option" where
  "find_end_of_run lessf h a b = do { ASSERT (a \<noteq> b); find_end_of_run_loop lessf h a b }"

partial_function (option) inplace_merge_loop ::
  "('a \<Rightarrow> 'a \<Rightarrow> bool) \<Rightarrow> 'a lheap \<Rightarrow> 'a \<Rightarrow> 'a \<Rightarrow> 'a \<Rightarrow> 'a lheap option" where
  "inplace_merge_loop lessf h a0 a1b0 b1 =
     (if a0 \<noteq> a1b0 \<and> a1b0 \<noteq> b1 then
        if \<not> lessf a1b0 a0 then do {
          a0 \<leftarrow> list_next h a0;
          inplace_merge_loop lessf h a0 a1b0 b1
        } else do {
          a1b0 \<leftarrow> list_next h a1b0;
          p \<leftarrow> list_prev h a1b0;
          h \<leftarrow> list_splice h a0 p a1b0;
          inplace_merge_loop lessf h a0 a1b0 b1
        }
      else Some h)"

definition inplace_merge ::
  "('a \<Rightarrow> 'a \<Rightarrow> bool) \<Rightarrow> 'a lheap \<Rightarrow> 'a \<Rightarrow> 'a \<Rightarrow> 'a \<Rightarrow> 'a lheap option" where
  "inplace_merge lessf h a0 a1b0 b1 = do {
     s1 \<leftarrow> is_sorted lessf h a0 a1b0;
     ASSERT s1;
     s2 \<leftarrow> is_sorted lessf h a1b0 b1;
     ASSERT s2;
     inplace_merge_loop lessf h a0 a1b0 b1
   }"

partial_function (option) list_sort_pass ::
  "('a \<Rightarrow> 'a \<Rightarrow> bool) \<Rightarrow> 'a lheap \<Rightarrow> 'a clist \<Rightarrow> 'a \<Rightarrow> nat \<Rightarrow> ('a lheap \<times> nat) option" where
  "list_sort_pass lessf h l a0 output_run_cnt =
     (if a0 = list_end l then Some (h, output_run_cnt)
      else do {
        a1b0 \<leftarrow> find_end_of_run lessf h a0 (list_end l);
        if a1b0 = list_end l then Some (h, output_run_cnt + 1)
        else do {
          b1 \<leftarrow> find_end_of_run lessf h a1b0 (list_end l);
          h \<leftarrow> inplace_merge lessf h a0 a1b0 b1;
          list_sort_pass lessf h l b1 (output_run_cnt + 1)
        }
      })"

partial_function (option) list_sort_loop ::
  "('a \<Rightarrow> 'a \<Rightarrow> bool) \<Rightarrow> 'a lheap \<Rightarrow> 'a clist \<Rightarrow> 'a lheap option" where
  "list_sort_loop lessf h l = do {
     a0 \<leftarrow> list_begin h l;
     (h, output_run_cnt) \<leftarrow> list_sort_pass lessf h l a0 0;
     if 1 < output_run_cnt then list_sort_loop lessf h l else Some h
   }"

definition list_sort :: "('a \<Rightarrow> 'a \<Rightarrow> bool) \<Rightarrow> 'a lheap \<Rightarrow> 'a clist \<Rightarrow> 'a lheap option" where
  "list_sort lessf h l = do {
     h \<leftarrow> list_sort_loop lessf h l;
     a \<leftarrow> list_begin h l;
     s \<leftarrow> is_sorted lessf h a (list_end l);
     ASSERT s;
     Some h
   }"

partial_function (option) list_insert_ordered_loop ::
  "('a \<Rightarrow> 'a \<Rightarrow> bool) \<Rightarrow> 'a lheap \<Rightarrow> 'a clist \<Rightarrow> 'a \<Rightarrow> 'a \<Rightarrow> 'a option" where
  "list_insert_ordered_loop lessf h l e x =
     (if x = list_end l then Some x
      else if lessf e x then Some x
      else do { x \<leftarrow> list_next h x; list_insert_ordered_loop lessf h l e x })"

definition list_insert_ordered ::
  "('a \<Rightarrow> 'a \<Rightarrow> bool) \<Rightarrow> 'a lheap \<Rightarrow> 'a clist \<Rightarrow> 'a \<Rightarrow> 'a lheap option" where
  "list_insert_ordered lessf h l e = do {
     x \<leftarrow> list_begin h l;
     x \<leftarrow> list_insert_ordered_loop lessf h l e x;
     list_insert h x e
   }"

partial_function (option) list_unique_loop ::
  "('a \<Rightarrow> 'a \<Rightarrow> bool) \<Rightarrow> 'a lheap \<Rightarrow> 'a clist \<Rightarrow> 'a clist option \<Rightarrow> 'a \<Rightarrow> 'a lheap option" where
  "list_unique_loop lessf h l dups e = do {
     n \<leftarrow> list_next h e;
     if n \<noteq> list_end l then
       if \<not> lessf e n \<and> \<not> lessf n e then do {
         (h, _) \<leftarrow> list_remove h n;
         h \<leftarrow> (case dups of None \<Rightarrow> Some h | Some d \<Rightarrow> list_push_back h d n);
         list_unique_loop lessf h l dups e
       } else list_unique_loop lessf h l dups n
     else Some h
   }"

definition list_unique ::
  "('a \<Rightarrow> 'a \<Rightarrow> bool) \<Rightarrow> 'a lheap \<Rightarrow> 'a clist \<Rightarrow> 'a clist option \<Rightarrow> 'a lheap option" where
  "list_unique lessf h l dups =
     (if list_empty h l then Some h
      else do { e \<leftarrow> list_begin h l; list_unique_loop lessf h l dups e })"

partial_function (option) list_max_loop ::
  "('a \<Rightarrow> 'a \<Rightarrow> bool) \<Rightarrow> 'a lheap \<Rightarrow> 'a clist \<Rightarrow> 'a \<Rightarrow> 'a \<Rightarrow> 'a option" where
  "list_max_loop lessf h l m e =
     (if e = list_end l then Some m
      else do {
        e' \<leftarrow> list_next h e;
        list_max_loop lessf h l (if lessf m e then e else m) e'
      })"

definition list_max :: "('a \<Rightarrow> 'a \<Rightarrow> bool) \<Rightarrow> 'a lheap \<Rightarrow> 'a clist \<Rightarrow> 'a option" where
  "list_max lessf h l = do {
     m \<leftarrow> list_begin h l;
     if m \<noteq> list_end l then do { e \<leftarrow> list_next h m; list_max_loop lessf h l m e }
     else Some m
   }"

partial_function (option) list_min_loop ::
  "('a \<Rightarrow> 'a \<Rightarrow> bool) \<Rightarrow> 'a lheap \<Rightarrow> 'a clist \<Rightarrow> 'a \<Rightarrow> 'a \<Rightarrow> 'a option" where
  "list_min_loop lessf h l m e =
     (if e = list_end l then Some m
      else do {
        e' \<leftarrow> list_next h e;
        list_min_loop lessf h l (if lessf e m then e else m) e'
      })"

definition list_min :: "('a \<Rightarrow> 'a \<Rightarrow> bool) \<Rightarrow> 'a lheap \<Rightarrow> 'a clist \<Rightarrow> 'a option" where
  "list_min lessf h l = do {
     m \<leftarrow> list_begin h l;
     if m \<noteq> list_end l then do { e \<leftarrow> list_next h m; list_min_loop lessf h l m e }
     else Some m
   }"


subsection \<open>Well-formed lists\<close>

text \<open>
  \<open>linked h zs\<close>: consecutive addresses of \<open>zs\<close> point at each other. \<open>is_list h l xs\<close>: on
  heap \<open>h\<close>, list \<open>l\<close> holds exactly the elements \<open>xs\<close>, in that order.
\<close>

fun linked :: "'a lheap \<Rightarrow> 'a list \<Rightarrow> bool" where
  "linked h (a # b # zs) \<longleftrightarrow>
     l_next (h a) = Some b \<and> l_prev (h b) = Some a \<and> linked h (b # zs)"
| "linked h _ \<longleftrightarrow> True"

abbreviation chain :: "'a clist \<Rightarrow> 'a list \<Rightarrow> 'a list" where
  "chain l xs \<equiv> l_head l # xs @ [l_tail l]"

definition is_list :: "'a lheap \<Rightarrow> 'a clist \<Rightarrow> 'a list \<Rightarrow> bool" where
  "is_list h l xs \<longleftrightarrow> distinct (chain l xs) \<and> linked h (chain l xs) \<and>
     l_prev (h (l_head l)) = None \<and> l_next (h (l_tail l)) = None"

lemma set_prev_sel [simp]:
  "l_prev (set_prev h a p b) = (if b = a then p else l_prev (h b))"
  "l_next (set_prev h a p b) = l_next (h b)"
  by (simp_all add: set_prev_def)

lemma set_next_sel [simp]:
  "l_next (set_next h a p b) = (if b = a then p else l_next (h b))"
  "l_prev (set_next h a p b) = l_prev (h b)"
  by (simp_all add: set_next_def)

lemma set_prev_other [simp]: "b \<noteq> a \<Longrightarrow> set_prev h a p b = h b"
  by (simp add: set_prev_def)

lemma set_next_other [simp]: "b \<noteq> a \<Longrightarrow> set_next h a p b = h b"
  by (simp add: set_next_def)

lemma linked_append:
  "linked h (xs @ a # ys) \<longleftrightarrow> linked h (xs @ [a]) \<and> linked h (a # ys)"
  by (induction h xs rule: linked.induct) auto

lemma linked_cong:
  assumes "\<And>a. a \<in> set (butlast zs) \<Longrightarrow> l_next (h' a) = l_next (h a)"
    and "\<And>a. a \<in> set (tl zs) \<Longrightarrow> l_prev (h' a) = l_prev (h a)"
  shows "linked h' zs = linked h zs"
  using assms by (induction h zs rule: linked.induct) auto

lemma linked_snoc_set_next [simp]:
  "a \<notin> set xs \<Longrightarrow> linked (set_next h a p) (xs @ [a]) = linked h (xs @ [a])"
  by (rule linked_cong) auto

lemma linked_Cons_set_prev [simp]:
  "a \<notin> set xs \<Longrightarrow> linked (set_prev h a p) (a # xs) = linked h (a # xs)"
  by (rule linked_cong) auto

lemma in_set_tlD: "a \<in> set (tl xs) \<Longrightarrow> a \<in> set xs"
  by (cases xs) auto

lemma linked_frame_prev [simp]:
  "a \<notin> set xs \<Longrightarrow> linked (set_prev h a p) xs = linked h xs"
  by (rule linked_cong) (auto dest: in_set_butlastD in_set_tlD)

lemma linked_frame_next [simp]:
  "a \<notin> set xs \<Longrightarrow> linked (set_next h a p) xs = linked h xs"
  by (rule linked_cong) (auto dest: in_set_butlastD in_set_tlD)

lemma linked_append2:
  "xs \<noteq> [] \<Longrightarrow> ys \<noteq> [] \<Longrightarrow> linked h (xs @ ys) \<longleftrightarrow>
     linked h xs \<and> linked h ys \<and> l_next (h (last xs)) = Some (hd ys) \<and>
     l_prev (h (hd ys)) = Some (last xs)"
  by (induction h xs rule: linked.induct) (auto simp: neq_Nil_conv)

lemma linked_set_next_last:
  assumes "distinct zs"
  shows "linked (set_next h (last zs) p) zs = linked h zs"
proof (cases zs rule: rev_cases)
  case (snoc ys y)
  with assms show ?thesis by simp
qed simp

lemma linked_set_prev_hd:
  assumes "distinct zs"
  shows "linked (set_prev h (hd zs) p) zs = linked h zs"
  using assms by (cases zs) simp_all

lemma is_list_frame:
  assumes "is_list h l xs" and "\<And>a. a \<in> set (chain l xs) \<Longrightarrow> h' a = h a"
  shows "is_list h' l xs"
proof -
  have "linked h' (chain l xs) = linked h (chain l xs)"
    by (rule linked_cong) (use assms(2) in \<open>auto dest: in_set_butlastD\<close>)
  with assms show ?thesis by (auto simp: is_list_def)
qed

text \<open>
  Every cursor into a list cuts its chain in two. The facts below read the links around a cut.
\<close>

lemma is_list_cut:
  assumes "is_list h l (xs @ ys)"
  shows "l_next (h (last (l_head l # xs))) = Some (hd (ys @ [l_tail l]))"
    and "l_prev (h (hd (ys @ [l_tail l]))) = Some (last (l_head l # xs))"
proof -
  obtain A p where A: "l_head l # xs = A @ [p]"
    by (metis append_butlast_last_id list.distinct(1))
  obtain b C where C: "ys @ [l_tail l] = b # C"
    by (cases "ys @ [l_tail l]") auto
  have "chain l (xs @ ys) = A @ p # b # C"
    using A C by (metis append.assoc append_Cons append_Nil)
  with assms have "linked h (p # b # C)"
    unfolding is_list_def by (metis linked_append)
  then show "l_next (h (last (l_head l # xs))) = Some (hd (ys @ [l_tail l]))"
    and "l_prev (h (hd (ys @ [l_tail l]))) = Some (last (l_head l # xs))"
    unfolding A C by simp_all
qed

lemma is_list_end_links:
  "is_list h l xs \<Longrightarrow> l_prev (h (l_head l)) = None"
  "is_list h l xs \<Longrightarrow> l_next (h (l_tail l)) = None"
  by (simp_all add: is_list_def)

lemma is_list_distinct: "is_list h l xs \<Longrightarrow> distinct (chain l xs)"
  by (simp add: is_list_def)

lemma is_list_empty_chain [simp]:
  "is_list h l [] \<longleftrightarrow> l_head l \<noteq> l_tail l \<and> l_next (h (l_head l)) = Some (l_tail l) \<and>
     l_prev (h (l_tail l)) = Some (l_head l) \<and>
     l_prev (h (l_head l)) = None \<and> l_next (h (l_tail l)) = None"
  by (auto simp: is_list_def)

lemma list_begin_is_list [heap_simps]:
  "is_list h l xs \<Longrightarrow> list_begin h l = Some (hd (xs @ [l_tail l]))"
  using is_list_cut(1)[of h l "[]" xs] by (simp add: list_begin_def)

lemma list_rbegin_is_list [heap_simps]:
  "is_list h l xs \<Longrightarrow> list_rbegin h l = Some (last (l_head l # xs))"
  using is_list_cut(2)[of h l xs "[]"] by (simp add: list_rbegin_def)

lemma list_empty_is_list [heap_simps]:
  "is_list h l xs \<Longrightarrow> list_empty h l \<longleftrightarrow> xs = []"
  by (cases xs) (auto simp: list_empty_def list_begin_def list_end_def is_list_def)

lemma is_list_interior:
  assumes "is_list h l (xs @ e # ys)"
  shows "is_interior h e"
    and "l_prev (h e) = Some (last (l_head l # xs))"
    and "l_next (h e) = Some (hd (ys @ [l_tail l]))"
  using is_list_cut(2)[of h l xs "e # ys"] is_list_cut(1)[of h l "xs @ [e]" ys] assms
  by (auto simp: is_interior_def)

lemma is_list_tail:
  assumes "is_list h l xs"
  shows "is_tail h (l_tail l)"
    and "l_prev (h (l_tail l)) = Some (last (l_head l # xs))"
  using is_list_cut(2)[of h l xs "[]"] assms is_list_end_links(2)[OF assms]
  by (auto simp: is_tail_def)

lemma is_list_head:
  assumes "is_list h l xs"
  shows "is_head h (l_head l)"
  using is_list_cut(1)[of h l "[]" xs] assms is_list_end_links(1)[OF assms]
  by (auto simp: is_head_def)

lemma list_next_is_list [heap_simps]:
  "is_list h l (xs @ e # ys) \<Longrightarrow> list_next h e = Some (hd (ys @ [l_tail l]))"
  by (simp add: list_next_def is_list_interior)

lemma list_prev_is_list [heap_simps]:
  assumes "is_list h l (xs @ ys)"
  shows "list_prev h (hd (ys @ [l_tail l])) = Some (last (l_head l # xs))"
proof (cases ys)
  case Nil
  with assms show ?thesis by (simp add: list_prev_def is_list_tail[of h l xs])
next
  case (Cons e zs)
  with assms have "is_list h l (xs @ e # zs)" by simp
  from is_list_interior[OF this] show ?thesis by (simp add: list_prev_def Cons)
qed

lemma is_list_split:
  "is_list h l (xs @ ys) \<longleftrightarrow> distinct (chain l (xs @ ys)) \<and>
     linked h (l_head l # xs) \<and> linked h (ys @ [l_tail l]) \<and>
     l_next (h (last (l_head l # xs))) = Some (hd (ys @ [l_tail l])) \<and>
     l_prev (h (hd (ys @ [l_tail l]))) = Some (last (l_head l # xs)) \<and>
     l_prev (h (l_head l)) = None \<and> l_next (h (l_tail l)) = None"
  using linked_append2[of "l_head l # xs" "ys @ [l_tail l]" h]
  by (auto simp: is_list_def)

subsection \<open>The operations on well-formed lists\<close>

text \<open>
  An operation changes the links of the elements it is about and of no others: \<open>same_outside A\<close>
  is the frame of each operation, which lets it run beside any other list of the kernel.
\<close>

definition same_outside :: "'a set \<Rightarrow> 'a lheap \<Rightarrow> 'a lheap \<Rightarrow> bool" where
  "same_outside A h h' \<longleftrightarrow> (\<forall>a. a \<notin> A \<longrightarrow> h' a = h a)"

lemma same_outside_refl [simp]: "same_outside A h h"
  by (simp add: same_outside_def)

lemma same_outside_trans:
  "same_outside A h h' \<Longrightarrow> same_outside A h' h'' \<Longrightarrow> same_outside A h h''"
  by (simp add: same_outside_def)

lemma same_outside_mono:
  "same_outside A h h' \<Longrightarrow> A \<subseteq> B \<Longrightarrow> same_outside B h h'"
  by (auto simp: same_outside_def)

lemma same_outside_set:
  "same_outside A h h' \<Longrightarrow> a \<in> A \<Longrightarrow> same_outside A h (set_prev h' a p)"
  "same_outside A h h' \<Longrightarrow> a \<in> A \<Longrightarrow> same_outside A h (set_next h' a p)"
  by (auto simp: same_outside_def set_prev_def set_next_def)

lemma is_list_same_outside:
  "is_list h l xs \<Longrightarrow> same_outside A h h' \<Longrightarrow> set (chain l xs) \<inter> A = {} \<Longrightarrow> is_list h' l xs"
  unfolding same_outside_def by (rule is_list_frame) blast+

lemma hd_snoc_in: "hd (ys @ [t]) \<in> set (ys @ [t])"
  by (cases ys) auto

lemma last_Cons_in: "last (a # xs) \<in> set (a # xs)"
  by (rule last_in_set) simp

lemma list_init_is_list [heap_simps]:
  "l_head l \<noteq> l_tail l \<Longrightarrow> is_list (list_init h l) l []"
  by (simp add: list_init_def Let_def)

lemma list_insert_is_list:
  assumes l: "is_list h l (xs @ ys)" and e: "e \<notin> set (chain l (xs @ ys))"
  obtains h' where "list_insert h (hd (ys @ [l_tail l])) e = Some h'"
    and "is_list h' l (xs @ e # ys)"
    and "same_outside (set (chain l (xs @ e # ys))) h h'"
proof -
  define p where "p = last (l_head l # xs)"
  define b where "b = hd (ys @ [l_tail l])"
  define h' where
    "h' = set_prev (set_next (set_next (set_prev h e (Some p)) e (Some b)) p (Some e)) b (Some e)"
  have pin: "p \<in> set (l_head l # xs)" and bin: "b \<in> set (ys @ [l_tail l])"
    unfolding p_def b_def by (rule last_Cons_in, rule hd_snoc_in)
  note links = is_list_cut[OF l, folded p_def b_def]
  have ne: "p \<noteq> e" "b \<noteq> e" "p \<noteq> b" "p \<notin> set (ys @ [l_tail l])" "b \<notin> set (l_head l # xs)"
    "e \<notin> set (l_head l # xs)" "e \<notin> set (ys @ [l_tail l])"
    and dx: "distinct (l_head l # xs)" and dy: "distinct (ys @ [l_tail l])"
    using pin bin e is_list_distinct[OF l] by auto
  have "is_interior h b \<or> is_tail h b"
    using links by (auto simp: is_interior_def is_tail_def)
  then have run: "list_insert h b e = Some h'"
    using links ne by (simp add: list_insert_def h'_def)
  have lx: "linked h' (l_head l # xs)"
    using l linked_set_next_last[OF dx] linked_set_prev_hd[OF dy] ne
    by (simp add: h'_def is_list_split p_def del: set_simps linked.simps)
  have ly: "linked h' (ys @ [l_tail l])"
    using l linked_set_prev_hd[OF dy] ne
    by (simp add: h'_def is_list_split b_def del: set_append linked.simps)
  have "linked h' (chain l (xs @ e # ys))"
    using linked_append2[of "l_head l # xs" "e # ys @ [l_tail l]" h']
      linked_append2[of "[e]" "ys @ [l_tail l]" h'] lx ly ne links
    by (simp add: h'_def p_def[symmetric] b_def[symmetric] last_ConsL del: last.simps)
  moreover have "l_prev (h' (l_head l)) = None" "l_next (h' (l_tail l)) = None"
    using ne is_list_end_links[OF l] e is_list_distinct[OF l] pin bin by (auto simp: h'_def)
  ultimately have "is_list h' l (xs @ e # ys)"
    using e is_list_distinct[OF l] by (auto simp: is_list_def)
  moreover have "same_outside (set (chain l (xs @ e # ys))) h h'"
    using pin bin by (auto simp: same_outside_def h'_def set_prev_def set_next_def)
  ultimately show thesis using that run by (simp add: b_def)
qed

lemma list_push_back_is_list:
  assumes "is_list h l xs" and "e \<notin> set (chain l xs)"
  obtains h' where "list_push_back h l e = Some h'" and "is_list h' l (xs @ [e])"
    and "same_outside (set (chain l (xs @ [e]))) h h'"
  using list_insert_is_list[of h l xs "[]" e] assms
  by (auto simp: list_push_back_def list_end_def)

lemma list_push_front_is_list:
  assumes "is_list h l xs" and "e \<notin> set (chain l xs)"
  obtains h' where "list_push_front h l e = Some h'" and "is_list h' l (e # xs)"
    and "same_outside (set (chain l (e # xs))) h h'"
  using list_insert_is_list[of h l "[]" xs e] assms list_begin_is_list[OF assms(1)]
  by (auto simp: list_push_front_def)

lemma list_remove_is_list:
  assumes l: "is_list h l (xs @ e # ys)"
  obtains h' where "list_remove h e = Some (h', hd (ys @ [l_tail l]))"
    and "is_list h' l (xs @ ys)"
    and "same_outside (set (chain l (xs @ ys))) h h'"
proof -
  define p where "p = last (l_head l # xs)"
  define n where "n = hd (ys @ [l_tail l])"
  define h' where "h' = set_prev (set_next h p (Some n)) n (Some p)"
  have pin: "p \<in> set (l_head l # xs)" and nin: "n \<in> set (ys @ [l_tail l])"
    unfolding p_def n_def by (rule last_Cons_in, rule hd_snoc_in)
  note links = is_list_interior[OF l, folded p_def n_def]
  have ne: "p \<noteq> e" "n \<noteq> e" "p \<noteq> n" "p \<notin> set (ys @ [l_tail l])" "n \<notin> set (l_head l # xs)"
    and dx: "distinct (l_head l # xs)" and dy: "distinct (ys @ [l_tail l])"
    using pin nin is_list_distinct[OF l] by auto
  have run: "list_remove h e = Some (h', n)"
    using links ne by (simp add: list_remove_def h'_def)
  have old: "linked h (l_head l # xs)" "linked h (e # ys @ [l_tail l])"
    using l by (auto simp: is_list_split simp del: linked.simps)
  then have "linked h (ys @ [l_tail l])"
    using linked_append2[of "[e]" "ys @ [l_tail l]" h] by simp
  then have "linked h' (l_head l # xs)" "linked h' (ys @ [l_tail l])"
    using old linked_set_next_last[OF dx] linked_set_prev_hd[OF dy] ne
    by (simp_all add: h'_def p_def n_def del: set_simps set_append linked.simps)
  moreover have "l_next (h' p) = Some n" "l_prev (h' n) = Some p"
    using ne by (simp_all add: h'_def)
  moreover have "l_head l \<noteq> n" "l_tail l \<noteq> p"
    using ne by auto
  then have "l_prev (h' (l_head l)) = None" "l_next (h' (l_tail l)) = None"
    using is_list_end_links[OF l] by (simp_all add: h'_def)
  moreover have "distinct (chain l (xs @ ys))"
    using is_list_distinct[OF l] by simp
  ultimately have "is_list h' l (xs @ ys)"
    unfolding is_list_split p_def n_def by blast
  moreover have "same_outside (set (chain l (xs @ ys))) h h'"
    using pin nin by (auto simp: same_outside_def h'_def set_prev_def set_next_def)
  ultimately show thesis using that run by (simp add: n_def)
qed

lemma list_front_is_list [heap_simps]:
  "is_list h l (x # xs) \<Longrightarrow> list_front h l = Some x"
  using list_begin_is_list[of h l "x # xs"] list_empty_is_list[of h l "x # xs"]
  by (simp add: list_front_def list_begin_def)

lemma list_back_is_list [heap_simps]:
  "is_list h l (xs @ [x]) \<Longrightarrow> list_back h l = Some x"
  using list_rbegin_is_list[of h l "xs @ [x]"] list_empty_is_list[of h l "xs @ [x]"]
  by (simp add: list_back_def list_rbegin_def)

lemma list_pop_front_is_list:
  assumes "is_list h l (x # xs)"
  obtains h' where "list_pop_front h l = Some (h', x)" and "is_list h' l xs"
    and "same_outside (set (chain l xs)) h h'"
proof -
  obtain h' where "list_remove h x = Some (h', hd (xs @ [l_tail l]))" and "is_list h' l xs"
    and "same_outside (set (chain l xs)) h h'"
    using assms list_remove_is_list[of h l "[]" x xs] by force
  then show thesis using that by (simp add: list_pop_front_def list_front_is_list[OF assms])
qed

lemma list_pop_back_is_list:
  assumes "is_list h l (xs @ [x])"
  obtains h' where "list_pop_back h l = Some (h', x)" and "is_list h' l xs"
    and "same_outside (set (chain l xs)) h h'"
proof -
  obtain h' where "list_remove h x = Some (h', l_tail l)" and "is_list h' l xs"
    and "same_outside (set (chain l xs)) h h'"
    using assms list_remove_is_list[of h l xs x "[]"] by force
  then show thesis using that by (simp add: list_pop_back_def list_back_is_list[OF assms])
qed

lemma list_size_loop_is_list:
  "is_list h l (xs @ ys) \<Longrightarrow> list_size_loop h l (hd (ys @ [l_tail l])) n = Some (n + length ys)"
proof (induction ys arbitrary: xs n)
  case Nil
  then show ?case by (subst list_size_loop.simps) (simp add: list_end_def)
next
  case (Cons y ys)
  then have "y \<noteq> l_tail l" using is_list_distinct by fastforce
  with Cons.prems show ?case
    using Cons.IH[of "xs @ [y]" "n + 1"]
    by (subst list_size_loop.simps) (simp add: list_end_def list_next_is_list)
qed

lemma list_size_is_list [heap_simps]:
  "is_list h l xs \<Longrightarrow> list_size h l = Some (length xs)"
  using list_size_loop_is_list[of h l "[]" xs 0]
  by (simp add: list_size_def list_begin_is_list)

lemma has_prev: "is_interior h e \<or> is_tail h e \<longleftrightarrow> l_prev (h e) \<noteq> None"
  by (auto simp: is_interior_def is_tail_def)

lemma has_next: "is_head h e \<or> is_interior h e \<longleftrightarrow> l_next (h e) \<noteq> None"
  by (auto simp: is_interior_def is_head_def)

text \<open>
  Splicing within one list: the segment \<open>ms\<close> moves from behind \<open>bs\<close> to the front of it.
\<close>

lemma list_splice_is_list:
  assumes l: "is_list h l (as @ bs @ ms @ ds)" and ne: "bs \<noteq> []" "ms \<noteq> []"
  obtains h' where "list_splice h (hd bs) (hd ms) (hd (ds @ [l_tail l])) = Some h'"
    and "is_list h' l (as @ ms @ bs @ ds)"
    and "same_outside (set (chain l (as @ bs @ ms @ ds))) h h'"
proof -
  define S T where "S = l_head l # as" and "T = ds @ [l_tail l]"
  have nST: "S \<noteq> []" "T \<noteq> []" by (simp_all add: S_def T_def)
  have D: "distinct (S @ bs @ ms @ T)" and L: "linked h (S @ bs @ ms @ T)"
    using l by (simp_all add: is_list_def S_def T_def)
  have seg: "linked h S" "linked h bs" "linked h ms" "linked h T"
    and link: "l_next (h (last S)) = Some (hd bs)" "l_prev (h (hd bs)) = Some (last S)"
      "l_next (h (last bs)) = Some (hd ms)" "l_prev (h (hd ms)) = Some (last bs)"
      "l_next (h (last ms)) = Some (hd T)" "l_prev (h (hd T)) = Some (last ms)"
    using L ne nST by (simp_all add: linked_append2)
  define h' where "h' = set_prev (set_next (set_next (set_prev (set_prev
      (set_next h (last bs) (Some (hd T))) (hd T) (Some (last bs))) (hd ms) (Some (last S)))
      (last ms) (Some (hd bs))) (last S) (Some (hd ms))) (hd bs) (Some (last ms))"
  have mem: "last S \<in> set S" "hd bs \<in> set bs" "last bs \<in> set bs" "hd ms \<in> set ms"
    "last ms \<in> set ms" "hd T \<in> set T"
    using ne nST by simp_all
  have dist: "distinct S" "distinct bs" "distinct ms" "distinct T"
    and disj: "set S \<inter> set bs = {}" "set S \<inter> set ms = {}" "set S \<inter> set T = {}"
      "set bs \<inter> set ms = {}" "set bs \<inter> set T = {}" "set ms \<inter> set T = {}"
    using D by auto
  have out: "last S \<notin> set bs" "last S \<notin> set ms" "last S \<notin> set T" "hd bs \<notin> set S"
    "hd bs \<notin> set ms" "hd bs \<notin> set T" "last bs \<notin> set S" "last bs \<notin> set ms"
    "last bs \<notin> set T" "hd ms \<notin> set S" "hd ms \<notin> set bs" "hd ms \<notin> set T" "last ms \<notin> set S"
    "last ms \<notin> set bs" "last ms \<notin> set T" "hd T \<notin> set S" "hd T \<notin> set bs" "hd T \<notin> set ms"
    using mem disj by blast+
  then have neq: "hd bs \<noteq> last S" "hd ms \<noteq> last S" "hd T \<noteq> last S" "hd ms \<noteq> hd bs"
    "hd T \<noteq> hd bs" "hd T \<noteq> hd ms" "last ms \<noteq> last S" "last bs \<noteq> last S" "last ms \<noteq> last bs"
    using mem by metis+
  note neq' = neq neq[symmetric]
  have "is_interior h (hd ms)" "is_interior h (last ms)"
    using is_list_interior(1)[of h l "as @ bs" "hd ms" "tl ms @ ds"]
      is_list_interior(1)[of h l "as @ bs @ butlast ms" "last ms" ds] l ne
    by (metis append.assoc append_Cons append_Nil append_butlast_last_id hd_Cons_tl)+
  then have run: "list_splice h (hd bs) (hd ms) (hd T) = Some h'"
    using link neq' by (simp add: list_splice_def list_prev_def has_prev h'_def)
  have "linked h' S" "linked h' bs" "linked h' ms" "linked h' T"
    using seg out dist
    by (simp_all add: h'_def linked_set_next_last linked_set_prev_hd)
  moreover have "l_next (h' (last S)) = Some (hd ms)" "l_prev (h' (hd ms)) = Some (last S)"
    "l_next (h' (last ms)) = Some (hd bs)" "l_prev (h' (hd bs)) = Some (last ms)"
    "l_next (h' (last bs)) = Some (hd T)" "l_prev (h' (hd T)) = Some (last bs)"
    using neq' by (simp_all add: h'_def)
  ultimately have "linked h' (S @ ms @ bs @ T)"
    using ne nST by (simp add: linked_append2)
  moreover have "l_head l \<in> set S" "l_tail l \<in> set T" by (simp_all add: S_def T_def)
  then have "l_head l \<noteq> hd bs" "l_head l \<noteq> hd ms" "l_head l \<noteq> hd T"
    "l_tail l \<noteq> last S" "l_tail l \<noteq> last bs" "l_tail l \<noteq> last ms"
    using out by metis+
  then have "l_prev (h' (l_head l)) = None" "l_next (h' (l_tail l)) = None"
    using is_list_end_links[OF l] by (simp_all add: h'_def)
  ultimately have "is_list h' l (as @ ms @ bs @ ds)"
    using D by (auto simp: is_list_def S_def T_def)
  moreover have "same_outside (set (S @ bs @ ms @ T)) h h'"
    using mem unfolding h'_def by (intro same_outside_set) auto
  ultimately show thesis using that run by (auto simp: S_def T_def)
qed

subsection \<open>Reversal\<close>

lemma swap_links_sel [simp]:
  "l_prev (swap_links h e a) = (if a = e then l_next (h e) else l_prev (h a))"
  "l_next (swap_links h e a) = (if a = e then l_prev (h e) else l_next (h a))"
  by (simp_all add: swap_links_def)

definition swap_all :: "'a set \<Rightarrow> 'a lheap \<Rightarrow> 'a lheap" where
  "swap_all A h = (\<lambda>a. if a \<in> A then \<lparr>l_prev = l_next (h a), l_next = l_prev (h a)\<rparr> else h a)"

lemma swap_links_swap_all:
  "e \<notin> A \<Longrightarrow> swap_links (swap_all A h) e = swap_all (insert e A) h"
  by (auto simp: swap_links_def swap_all_def)

lemma list_reverse_loop_is_list:
  assumes "is_list h l (xs @ ys)"
  shows "list_reverse_loop (swap_all (set xs) h) l (hd (ys @ [l_tail l]))
       = Some (swap_all (set (xs @ ys)) h)"
  using assms
proof (induction ys arbitrary: xs)
  case Nil
  then show ?case by (subst list_reverse_loop.simps) (simp add: list_end_def)
next
  case (Cons y ys)
  have y: "y \<noteq> l_tail l" "y \<notin> set xs" using is_list_distinct[OF Cons.prems] by auto
  have "l_prev (swap_all (insert y (set xs)) h y) = Some (hd (ys @ [l_tail l]))"
    using is_list_interior(3)[OF Cons.prems] by (simp add: swap_all_def)
  moreover have "is_list h l ((xs @ [y]) @ ys)" using Cons.prems by simp
  note IH = Cons.IH[OF this]
  ultimately show ?case
    using y by (subst list_reverse_loop.simps) (simp add: list_end_def swap_links_swap_all)
qed

lemma linked_rev_swap:
  assumes "linked h xs" and "distinct xs"
  shows "linked (swap_all (set xs) h) (rev xs)"
  using assms
proof (induction h xs rule: linked.induct)
  case (1 h a b zs)
  let ?S = "swap_all (set (a # b # zs)) h"
  have "linked ?S (rev (b # zs)) = linked (swap_all (set (b # zs)) h) (rev (b # zs))"
    by (rule linked_cong)
      (use "1.prems" in \<open>auto simp: swap_all_def dest: in_set_butlastD in_set_tlD\<close>)
  moreover have "linked (swap_all (set (b # zs)) h) (rev (b # zs))"
    using 1 by simp
  ultimately show ?case
    using "1.prems" linked_append2[of "rev (b # zs)" "[a]" ?S] by (simp add: swap_all_def)
qed (simp_all)

lemma list_reverse_is_list:
  assumes l: "is_list h l xs"
  obtains h' where "list_reverse h l = Some h'" and "is_list h' l (rev xs)"
    and "same_outside (set (chain l xs)) h h'"
proof (cases "xs = []")
  case True
  with l have "list_reverse h l = Some h"
    by (simp add: list_reverse_def list_empty_is_list[OF l] del: is_list_empty_chain)
  with True l that show thesis by (simp del: is_list_empty_chain)
next
  case False
  define g where "g = swap_all (set xs) h"
  define f b where "f = last xs" and "b = hd xs"
  define h' where "h' = set_next (set_prev (set_prev (set_next g (l_head l) (Some f))
      (l_tail l) (Some b)) f (Some (l_head l))) b (Some (l_tail l))"
  have loop: "list_reverse_loop h l b = Some g"
    using list_reverse_loop_is_list[of h l "[]" xs] l False
    by (simp add: g_def b_def swap_all_def)
  have mem: "f \<in> set xs" "b \<in> set xs" using False by (simp_all add: f_def b_def)
  have D: "distinct (chain l xs)" using l by (rule is_list_distinct)
  then have ht: "l_head l \<notin> set xs" "l_tail l \<notin> set xs" "l_head l \<noteq> l_tail l" by auto
  then have neq: "f \<noteq> l_head l" "f \<noteq> l_tail l" "b \<noteq> l_head l" "b \<noteq> l_tail l" using mem by auto
  have gh: "g (l_head l) = h (l_head l)" "g (l_tail l) = h (l_tail l)"
    using ht by (simp_all add: g_def swap_all_def)
  have links: "l_next (h (l_head l)) = Some b" "l_prev (h (l_tail l)) = Some f"
    using is_list_cut(1)[of h l "[]" xs] is_list_cut(2)[of h l xs "[]"] l False
    by (simp_all add: f_def b_def)
  have gp: "l_prev (g f) = Some (l_tail l)" "l_next (g b) = Some (l_head l)"
    using is_list_cut(1)[of h l xs "[]"] is_list_cut(2)[of h l "[]" xs] l False mem
    by (simp_all add: g_def swap_all_def f_def b_def)
  have run: "list_reverse h l = Some h'"
    using loop links gp gh neq ht list_empty_is_list[OF l] False
    by (simp add: list_reverse_def list_begin_def h'_def)
  have "linked h xs"
    using l False linked_append2[of xs "[l_tail l]" h] by (auto simp: is_list_split[of h l "[]" xs, simplified])
  then have "linked g (rev xs)" using D by (simp add: g_def linked_rev_swap)
  then have "linked h' (rev xs)"
    using ht D False linked_set_next_last[of "rev xs"] linked_set_prev_hd[of "rev xs"]
    by (simp add: h'_def f_def b_def hd_rev last_rev)
  moreover have "l_next (h' (l_head l)) = Some f" "l_prev (h' f) = Some (l_head l)"
    "l_next (h' b) = Some (l_tail l)" "l_prev (h' (l_tail l)) = Some b"
    using neq ht by (simp_all add: h'_def)
  ultimately have "linked h' (chain l (rev xs))"
    using False linked_append2[of "[l_head l]" "rev xs @ [l_tail l]" h']
      linked_append2[of "rev xs" "[l_tail l]" h']
    by (simp add: f_def b_def hd_rev last_rev)
  then have "is_list h' l (rev xs)"
    using D neq ht gh is_list_end_links[OF l] by (simp add: is_list_def h'_def)
  moreover have "same_outside (set (chain l xs)) h g"
    by (simp add: same_outside_def g_def swap_all_def)
  then have "same_outside (set (chain l xs)) h h'"
    unfolding h'_def using mem by (intro same_outside_set) auto
  ultimately show thesis using that run by blast
qed

end
