(* ===== verification/Pintos_List_Sort.thy ===== *)
theory Pintos_List_Sort
  imports Pintos_List
begin

section \<open>Ordered operations on lists (lib/kernel/list.c, list_sort and friends)\<close>

text \<open>
  list_sort() is a natural merge sort that works in place on the links. It is related here to
  passes over the sequence of elements: a pass cuts the sequence into nondecreasing runs and merges
  them pairwise. The number of runs drops in every pass that outputs more than one run, so the
  outer loop ends, and the result is the stable sort of the elements.
\<close>

subsection \<open>Passes over the sequence of elements\<close>

fun run_split :: "('a \<Rightarrow> 'a \<Rightarrow> bool) \<Rightarrow> 'a list \<Rightarrow> 'a list \<times> 'a list" where
  "run_split lessf [] = ([], [])"
| "run_split lessf [x] = ([x], [])"
| "run_split lessf (x # y # zs) =
     (if lessf y x then ([x], y # zs)
      else (let (r, s) = run_split lessf (y # zs) in (x # r, s)))"

fun merge_by :: "('a \<Rightarrow> 'a \<Rightarrow> bool) \<Rightarrow> 'a list \<Rightarrow> 'a list \<Rightarrow> 'a list" where
  "merge_by lessf [] bs = bs"
| "merge_by lessf as [] = as"
| "merge_by lessf (a # as) (b # bs) =
     (if \<not> lessf b a then a # merge_by lessf as (b # bs) else b # merge_by lessf (a # as) bs)"

lemma run_split_append: "run_split lessf xs = (r, s) \<Longrightarrow> xs = r @ s"
  by (induction lessf xs arbitrary: r s rule: run_split.induct) (auto split: if_splits prod.splits)

lemma run_split_nonempty: "run_split lessf xs = (r, s) \<Longrightarrow> xs \<noteq> [] \<Longrightarrow> r \<noteq> []"
  by (induction lessf xs arbitrary: r s rule: run_split.induct) (auto split: if_splits prod.splits)

lemma run_split_length: "xs \<noteq> [] \<Longrightarrow> length (snd (run_split lessf xs)) < length xs"
  by (cases "run_split lessf xs") (metis append_eq_append_conv2 length_append length_greater_0_conv
      less_add_same_cancel2 run_split_append run_split_nonempty snd_conv)

lemma run_split_successively:
  "run_split lessf xs = (r, s) \<Longrightarrow> successively (\<lambda>x y. \<not> lessf y x) r"
proof (induction lessf xs arbitrary: r s rule: run_split.induct)
  case (3 lessf x y zs)
  show ?case
  proof (cases "lessf y x")
    case False
    obtain r' s' where rs: "run_split lessf (y # zs) = (r', s')" by force
    then have "successively (\<lambda>x y. \<not> lessf y x) r'" using 3 False by blast
    moreover have "r' \<noteq> []" "hd r' = y"
      using run_split_append[OF rs] run_split_nonempty[OF rs] by (auto simp: Cons_eq_append_conv)
    ultimately show ?thesis using False rs "3.prems"
      by (cases r') auto
  qed (use 3 in auto)
qed auto

fun run_cnt :: "('a \<Rightarrow> 'a \<Rightarrow> bool) \<Rightarrow> 'a list \<Rightarrow> nat" where
  "run_cnt lessf [] = 0"
| "run_cnt lessf [x] = 1"
| "run_cnt lessf (x # y # zs) = (if lessf y x then 1 else 0) + run_cnt lessf (y # zs)"

lemma run_cnt_split:
  "run_split lessf xs = (r, s) \<Longrightarrow> xs \<noteq> [] \<Longrightarrow> run_cnt lessf xs = Suc (run_cnt lessf s)"
  by (induction lessf xs arbitrary: r s rule: run_split.induct) (auto split: if_splits prod.splits)

lemma run_cnt_pos: "xs \<noteq> [] \<Longrightarrow> 1 \<le> run_cnt lessf xs"
  by (induction lessf xs rule: run_cnt.induct) auto

lemma run_cnt_append: "run_cnt lessf (xs @ ys) \<le> run_cnt lessf xs + run_cnt lessf ys"
proof (induction lessf xs rule: run_cnt.induct)
  case (2 lessf x)
  then show ?case by (cases ys) auto
qed auto

lemma run_cnt_successively:
  "successively (\<lambda>x y. \<not> lessf y x) xs \<Longrightarrow> run_cnt lessf xs \<le> 1"
  by (induction lessf xs rule: run_cnt.induct) auto

function sort_pass :: "('a \<Rightarrow> 'a \<Rightarrow> bool) \<Rightarrow> 'a list \<Rightarrow> 'a list \<times> nat" where
  "sort_pass lessf xs =
     (if xs = [] then ([], 0)
      else let (r1, s1) = run_split lessf xs in
        if s1 = [] then (r1, 1)
        else let (r2, s2) = run_split lessf s1; (out, c) = sort_pass lessf s2
             in (merge_by lessf r1 r2 @ out, c + 1))"
  by pat_completeness auto
termination
proof (relation "measure (\<lambda>(lessf, xs). length xs)", goal_cases)
  case (2 lessf xs p r1 s1 q r2 s2)
  then have "length s1 < length xs" "length s2 < length s1"
    using run_split_length[of xs lessf] run_split_length[of s1 lessf] by (metis snd_conv)+
  then show ?case by simp
qed simp

declare sort_pass.simps [simp del]

lemma sort_pass_cnt: "snd (sort_pass lessf xs) = (run_cnt lessf xs + 1) div 2"
proof (induction lessf xs rule: sort_pass.induct)
  case (1 lessf xs)
  obtain r1 s1 where rs1: "run_split lessf xs = (r1, s1)" by force
  obtain r2 s2 where rs2: "run_split lessf s1 = (r2, s2)" by force
  show ?case
  proof (cases "xs = [] \<or> s1 = []")
    case True
    then show ?thesis using rs1 run_cnt_split[OF rs1]
      by (subst sort_pass.simps) auto
  next
    case False
    then show ?thesis using 1 rs1 rs2 run_cnt_split[OF rs1] run_cnt_split[OF rs2]
      by (subst sort_pass.simps) (auto split: prod.splits)
  qed
qed

context strict_weak_order
begin

lemma set_merge_by [simp]: "set (merge_by lessf as bs) = set as \<union> set bs"
  by (induction lessf as bs rule: merge_by.induct) auto

lemma sorted_merge_by:
  "sorted_by as \<Longrightarrow> sorted_by bs \<Longrightarrow> sorted_by (merge_by lessf as bs)"
proof (induction as arbitrary: bs)
  case (Cons a as)
  then show ?case
    by (induction bs) (auto dest: asym negtrans)
qed simp

lemma filter_merge_by:
  "sorted_by as \<Longrightarrow> filter (equiv_by lessf x) (merge_by lessf as bs)
     = filter (equiv_by lessf x) as @ filter (equiv_by lessf x) bs"
proof (induction as arbitrary: bs)
  case (Cons a as)
  note IH = Cons.IH
  show ?case
  proof (induction bs)
    case (Cons b bs)
    show ?case
    proof (cases "lessf b a")
      case True
      then have "lessf b y" if "y \<in> set (a # as)" for y
        using that \<open>sorted_by (a # as)\<close> negtrans by fastforce
      then have "equiv_by lessf x b \<Longrightarrow> filter (equiv_by lessf x) (a # as) = []"
        using negtrans by (fastforce simp: filter_empty_conv equiv_by_def)
      with True Cons.IH show ?thesis by auto
    next
      case False
      with IH \<open>sorted_by (a # as)\<close> show ?thesis by simp
    qed
  qed simp
qed simp

lemma sort_pass_runs: "run_cnt lessf (fst (sort_pass lessf xs)) \<le> snd (sort_pass lessf xs)"
proof (induction "length xs" arbitrary: xs rule: less_induct)
  case less
  obtain r1 s1 where rs1: "run_split lessf xs = (r1, s1)" by force
  obtain r2 s2 where rs2: "run_split lessf s1 = (r2, s2)" by force
  obtain out c where p: "sort_pass lessf s2 = (out, c)" by force
  have sorted: "sorted_by r1" "sorted_by r2"
    using run_split_successively[OF rs1] run_split_successively[OF rs2]
    by (simp_all add: successively_sorted)
  show ?case
  proof (cases "xs = [] \<or> s1 = []")
    case True
    then show ?thesis using rs1 run_cnt_successively[OF run_split_successively[OF rs1]]
      by (subst (1 2) sort_pass.simps) auto
  next
    case False
    then have "length s2 < length xs"
      using run_split_length[of xs lessf] run_split_length[of s1 lessf] rs1 rs2 by simp
    then have "run_cnt lessf out \<le> c" using less[of s2] p by simp
    moreover have "run_cnt lessf (merge_by lessf r1 r2) \<le> 1"
      using sorted by (intro run_cnt_successively) (simp add: successively_sorted sorted_merge_by)
    ultimately show ?thesis
      using False rs1 rs2 p run_cnt_append[of lessf "merge_by lessf r1 r2" out]
      by (subst (1 2) sort_pass.simps) auto
  qed
qed

lemma sort_pass_stable: "stable_wrt lessf xs (fst (sort_pass lessf xs))"
proof (induction "length xs" arbitrary: xs rule: less_induct)
  case less
  obtain r1 s1 where rs1: "run_split lessf xs = (r1, s1)" by force
  obtain r2 s2 where rs2: "run_split lessf s1 = (r2, s2)" by force
  obtain out c where p: "sort_pass lessf s2 = (out, c)" by force
  have sorted: "sorted_by r1"
    using run_split_successively[OF rs1] by (simp add: successively_sorted)
  show ?case
  proof (cases "xs = [] \<or> s1 = []")
    case True
    then show ?thesis using rs1 run_split_append[OF rs1]
      by (subst sort_pass.simps) (auto simp: stable_wrt_def)
  next
    case False
    then have "length s2 < length xs"
      using run_split_length[of xs lessf] run_split_length[of s1 lessf] rs1 rs2 by simp
    then have "stable_wrt lessf s2 out" using less[of s2] p by simp
    then show ?thesis
      using False rs1 rs2 p run_split_append[OF rs1] run_split_append[OF rs2]
      by (subst sort_pass.simps) (auto simp: stable_wrt_def filter_merge_by[OF sorted])
  qed
qed

lemma sort_pass_decreases:
  assumes "1 < snd (sort_pass lessf xs)"
  shows "run_cnt lessf (fst (sort_pass lessf xs)) < run_cnt lessf xs"
  using assms sort_pass_runs[of xs] sort_pass_cnt[of lessf xs] by linarith

lemma run_cnt_le1_sorted: "run_cnt lessf xs \<le> 1 \<Longrightarrow> sorted_by xs"
  unfolding successively_sorted[symmetric]
proof (induction xs rule: induct_list012)
  case (3 x y zs)
  then show ?case using run_cnt_pos[of "y # zs" lessf] by (auto split: if_splits)
qed auto

lemma sort_pass_sorted:
  assumes "snd (sort_pass lessf xs) \<le> 1"
  shows "sorted_by (fst (sort_pass lessf xs))"
  using assms sort_pass_runs[of xs] run_cnt_le1_sorted by simp

end

subsection \<open>The loops of list_sort on the heap\<close>

lemma is_sorted_loop_is_list:
  assumes "is_list h l (xs @ y # ys @ zs)"
  shows "is_sorted_loop lessf h y (hd (zs @ [l_tail l]))
       = Some (successively (\<lambda>x y. \<not> lessf y x) (y # ys))"
  using assms
proof (induction ys arbitrary: xs y)
  case Nil
  then show ?case by (subst is_sorted_loop.simps) (simp add: list_next_is_list)
next
  case (Cons y' ys)
  have "hd (zs @ [l_tail l]) \<in> set (zs @ [l_tail l])" by (rule hd_snoc_in)
  then have ne: "y' \<noteq> hd (zs @ [l_tail l])" using is_list_distinct[OF Cons.prems] by auto
  have "list_prev h y' = Some y"
    using list_prev_is_list[of h l "xs @ [y]" "y' # ys @ zs"] Cons.prems by simp
  moreover have "list_next h y = Some y'"
    using list_next_is_list[of h l xs y "(y' # ys) @ zs"] Cons.prems by simp
  ultimately show ?case
    using ne Cons.IH[of "xs @ [y]" y'] Cons.prems by (subst is_sorted_loop.simps) simp
qed

lemma is_sorted_is_list:
  assumes "is_list h l (xs @ ys @ zs)"
  shows "is_sorted lessf h (hd (ys @ zs @ [l_tail l])) (hd (zs @ [l_tail l]))
       = Some (successively (\<lambda>x y. \<not> lessf y x) ys)"
proof (cases ys)
  case Nil
  then show ?thesis by (simp add: is_sorted_def)
next
  case (Cons y ys')
  have "hd (zs @ [l_tail l]) \<in> set (zs @ [l_tail l])" by (rule hd_snoc_in)
  then have "y \<noteq> hd (zs @ [l_tail l])" using is_list_distinct[OF assms] Cons by auto
  then show ?thesis
    using is_sorted_loop_is_list[of h l xs y ys' zs lessf] assms Cons by (simp add: is_sorted_def)
qed

lemma find_end_of_run_loop_is_list:
  assumes "is_list h l (xs @ ys)" and "ys \<noteq> []" and "run_split lessf ys = (r, s)"
  shows "find_end_of_run_loop lessf h (hd ys) (l_tail l) = Some (hd (s @ [l_tail l]))"
  using assms
proof (induction lessf ys arbitrary: xs r s rule: run_split.induct)
  case (2 lessf x)
  then show ?case
    using list_next_is_list[of h l xs x "[]"] by (subst find_end_of_run_loop.simps) auto
next
  case (3 lessf x y zs)
  have ne: "y \<noteq> l_tail l" using is_list_distinct[OF "3.prems"(1)] by auto
  have "list_prev h y = Some x"
    using list_prev_is_list[of h l "xs @ [x]" "y # zs"] "3.prems"(1) by simp
  moreover have "list_next h x = Some y"
    using list_next_is_list[of h l xs x "y # zs"] "3.prems"(1) by simp
  ultimately show ?case
    using ne "3.IH"[of "xs @ [x]"] "3.prems"
    by (subst find_end_of_run_loop.simps) (auto split: if_splits prod.splits)
qed simp

lemma find_end_of_run_is_list:
  assumes "is_list h l (xs @ ys)" and "ys \<noteq> []" and "run_split lessf ys = (r, s)"
  shows "find_end_of_run lessf h (hd ys) (l_tail l) = Some (hd (s @ [l_tail l]))"
proof -
  have "hd ys \<noteq> l_tail l" using is_list_distinct[OF assms(1)] assms(2) by (cases ys) auto
  then show ?thesis
    using find_end_of_run_loop_is_list[OF assms] by (simp add: find_end_of_run_def)
qed

lemma inplace_merge_loop_is_list:
  assumes "is_list h l (xs @ as @ bs @ zs)"
  shows "\<exists>h'. inplace_merge_loop lessf h (hd (as @ bs @ zs @ [l_tail l])) (hd (bs @ zs @ [l_tail l]))
             (hd (zs @ [l_tail l])) = Some h' \<and>
           is_list h' l (xs @ merge_by lessf as bs @ zs) \<and>
           same_outside (set (chain l (xs @ as @ bs @ zs))) h h'"
  using assms
proof (induction lessf as bs arbitrary: h xs rule: merge_by.induct)
  case (1 lessf bs)
  then show ?case by (subst inplace_merge_loop.simps) simp
next
  case (2 lessf a as)
  then show ?case by (subst inplace_merge_loop.simps) simp
next
  case (3 lessf a as b bs)
  have zin: "hd (zs @ [l_tail l]) \<in> set (zs @ [l_tail l])" by (rule hd_snoc_in)
  then have ne: "a \<noteq> b" "b \<noteq> hd (zs @ [l_tail l])" using is_list_distinct[OF "3.prems"] by auto
  show ?case
  proof (cases "lessf b a")
    case False
    have "list_next h a = Some (hd (as @ b # bs @ zs @ [l_tail l]))"
      using list_next_is_list[of h l xs a "as @ b # bs @ zs"] "3.prems" by simp
    moreover have "\<exists>h'. inplace_merge_loop lessf h (hd (as @ (b # bs) @ zs @ [l_tail l]))
          (hd ((b # bs) @ zs @ [l_tail l])) (hd (zs @ [l_tail l])) = Some h' \<and>
        is_list h' l ((xs @ [a]) @ merge_by lessf as (b # bs) @ zs) \<and>
        same_outside (set (chain l ((xs @ [a]) @ as @ (b # bs) @ zs))) h h'"
      by (rule "3.IH"(1)) (use False "3.prems" in simp_all)
    ultimately show ?thesis
      using False ne by (subst inplace_merge_loop.simps) auto
  next
    case True
    have nx: "list_next h b = Some (hd (bs @ zs @ [l_tail l]))"
      using list_next_is_list[of h l "xs @ a # as" b "bs @ zs"] "3.prems" by simp
    have pv: "list_prev h (hd (bs @ zs @ [l_tail l])) = Some b"
      using list_prev_is_list[of h l "xs @ a # as @ [b]" "bs @ zs"] "3.prems" by simp
    obtain h1 where sp: "list_splice h a b (hd (bs @ zs @ [l_tail l])) = Some h1"
      and l1: "is_list h1 l (xs @ [b] @ (a # as) @ bs @ zs)"
      and f1: "same_outside (set (chain l (xs @ (a # as) @ [b] @ bs @ zs))) h h1"
      using list_splice_is_list[of h l xs "a # as" "[b]" "bs @ zs"] "3.prems" by auto
    have "\<exists>h'. inplace_merge_loop lessf h1 (hd ((a # as) @ bs @ zs @ [l_tail l]))
          (hd (bs @ zs @ [l_tail l])) (hd (zs @ [l_tail l])) = Some h' \<and>
        is_list h' l ((xs @ [b]) @ merge_by lessf (a # as) bs @ zs) \<and>
        same_outside (set (chain l ((xs @ [b]) @ (a # as) @ bs @ zs))) h1 h'"
      by (rule "3.IH"(2)) (use True l1 in simp_all)
    then obtain h' where h': "inplace_merge_loop lessf h1 a (hd (bs @ zs @ [l_tail l]))
          (hd (zs @ [l_tail l])) = Some h'"
        "is_list h' l (xs @ b # merge_by lessf (a # as) bs @ zs)"
        "same_outside (set (chain l (xs @ [b] @ (a # as) @ bs @ zs))) h1 h'"
      by auto
    have "set (chain l (xs @ [b] @ (a # as) @ bs @ zs)) = set (chain l (xs @ (a # as) @ [b] @ bs @ zs))"
      by auto
    then have "same_outside (set (chain l (xs @ (a # as) @ [b] @ bs @ zs))) h h'"
      using same_outside_trans[OF f1] h'(3) by (simp only:)
    then show ?thesis
      using True ne nx pv sp h' by (subst inplace_merge_loop.simps) simp
  qed
qed

lemma inplace_merge_is_list:
  assumes "is_list h l (xs @ as @ bs @ zs)"
    and "successively (\<lambda>x y. \<not> lessf y x) as" and "successively (\<lambda>x y. \<not> lessf y x) bs"
  shows "\<exists>h'. inplace_merge lessf h (hd (as @ bs @ zs @ [l_tail l])) (hd (bs @ zs @ [l_tail l]))
             (hd (zs @ [l_tail l])) = Some h' \<and>
           is_list h' l (xs @ merge_by lessf as bs @ zs) \<and>
           same_outside (set (chain l (xs @ as @ bs @ zs))) h h'"
  using inplace_merge_loop_is_list[OF assms(1), of lessf] assms
    is_sorted_is_list[of h l xs as "bs @ zs" lessf] is_sorted_is_list[of h l "xs @ as" bs zs lessf]
  by (simp add: inplace_merge_def)

lemma set_merge: "set (merge_by lessf as bs) = set as \<union> set bs"
  by (induction lessf as bs rule: merge_by.induct) auto

lemma list_sort_pass_is_list:
  assumes "is_list h l (xs @ ys)"
  shows "\<exists>h'. list_sort_pass lessf h l (hd (ys @ [l_tail l])) c
             = Some (h', c + snd (sort_pass lessf ys)) \<and>
           is_list h' l (xs @ fst (sort_pass lessf ys)) \<and>
           same_outside (set (chain l (xs @ ys))) h h'"
  using assms
proof (induction lessf ys arbitrary: h xs c rule: sort_pass.induct)
  case (1 lessf ys)
  obtain r1 s1 where rs1: "run_split lessf ys = (r1, s1)" by force
  obtain r2 s2 where rs2: "run_split lessf s1 = (r2, s2)" by force
  obtain out k where p: "sort_pass lessf s2 = (out, k)" by force
  note ap = run_split_append[OF rs1] run_split_append[OF rs2]
  note fe = find_end_of_run_is_list[OF "1.prems" _ rs1]
  have hd_ne: "ys \<noteq> [] \<Longrightarrow> hd (ys @ [l_tail l]) \<noteq> l_tail l"
    using is_list_distinct[OF "1.prems"] by (cases ys) auto
  consider (nil) "ys = []" | (one) "ys \<noteq> []" "s1 = []" | (two) "ys \<noteq> []" "s1 \<noteq> []" by blast
  then show ?case
  proof cases
    case nil
    with "1.prems" show ?thesis
      by (subst list_sort_pass.simps) (simp add: sort_pass.simps list_end_def)
  next
    case one
    then have "sort_pass lessf ys = (r1, 1)" "r1 = ys"
      using rs1 ap by (simp_all add: sort_pass.simps)
    with one fe hd_ne "1.prems" show ?thesis
      by (subst list_sort_pass.simps) (simp add: list_end_def)
  next
    case two
    then have sp: "sort_pass lessf ys = (merge_by lessf r1 r2 @ out, k + 1)"
      using rs1 rs2 p by (simp add: sort_pass.simps)
    have ys: "ys = r1 @ r2 @ s2" using ap by simp
    have "hd s1 \<in> set s1" using two by simp
    then have ne: "hd s1 \<noteq> l_tail l"
      using is_list_distinct[OF "1.prems"] ap(1) by auto
    have l': "is_list h l (xs @ r1 @ r2 @ s2)" using "1.prems" ys by simp
    have fe2: "find_end_of_run lessf h (hd s1) (l_tail l) = Some (hd (s2 @ [l_tail l]))"
      using find_end_of_run_is_list[OF _ _ rs2, of h l "xs @ r1"] l' two ap by simp
    obtain h1 where m: "inplace_merge lessf h (hd (r1 @ r2 @ s2 @ [l_tail l]))
          (hd (r2 @ s2 @ [l_tail l])) (hd (s2 @ [l_tail l])) = Some h1"
      and l1: "is_list h1 l ((xs @ merge_by lessf r1 r2) @ s2)"
      and f1: "same_outside (set (chain l (xs @ r1 @ r2 @ s2))) h h1"
      using inplace_merge_is_list[OF l' run_split_successively[OF rs1]
          run_split_successively[OF rs2]] by auto
    obtain h' where ps: "list_sort_pass lessf h1 l (hd (s2 @ [l_tail l])) (c + 1) = Some (h', c + 1 + k)"
      and lh: "is_list h' l ((xs @ merge_by lessf r1 r2) @ out)"
      and f2: "same_outside (set (chain l ((xs @ merge_by lessf r1 r2) @ s2))) h1 h'"
      using "1.IH"[OF two(1) rs1[symmetric] refl two(2) rs2[symmetric] refl l1, of "c + 1"] p
      by auto
    have "set (chain l ((xs @ merge_by lessf r1 r2) @ s2)) = set (chain l (xs @ r1 @ r2 @ s2))"
      by (auto simp: set_merge)
    then have "same_outside (set (chain l (xs @ ys))) h h'"
      using same_outside_trans[OF f1] f2 ys by (simp only:)
    moreover have "list_sort_pass lessf h l (hd (ys @ [l_tail l])) c = Some (h', c + 1 + k)"
      using two hd_ne[OF two(1)] ne fe[OF two(1)] fe2 m ps
        arg_cong[OF ys, of "\<lambda>z. hd (z @ [l_tail l])"] arg_cong[OF ap(2), of "\<lambda>z. hd (z @ [l_tail l])"]
      by (subst list_sort_pass.simps) (simp add: list_end_def)
    ultimately show ?thesis using sp lh by auto
  qed
qed

context strict_weak_order
begin

lemma list_sort_loop_is_list:
  assumes "is_list h l xs"
  shows "\<exists>h'. list_sort_loop lessf h l = Some h' \<and> is_list h' l (sort_by lessf xs) \<and>
           same_outside (set (chain l xs)) h h'"
  using assms
proof (induction "run_cnt lessf xs" arbitrary: xs h rule: less_induct)
  case less
  define ys c where "ys = fst (sort_pass lessf xs)" and "c = snd (sort_pass lessf xs)"
  obtain h1 where ps: "list_sort_pass lessf h l (hd (xs @ [l_tail l])) 0 = Some (h1, c)"
    and l1: "is_list h1 l ys" and f1: "same_outside (set (chain l xs)) h h1"
    using list_sort_pass_is_list[of h l "[]" xs lessf 0] less.prems
    by (auto simp: ys_def c_def)
  have st: "stable_wrt lessf xs ys" unfolding ys_def by (rule sort_pass_stable)
  show ?case
  proof (cases "1 < c")
    case True
    then have "run_cnt lessf ys < run_cnt lessf xs"
      unfolding ys_def c_def by (rule sort_pass_decreases)
    from less.hyps[OF this l1] obtain h' where
      h': "list_sort_loop lessf h1 l = Some h'" "is_list h' l (sort_by lessf ys)"
        "same_outside (set (chain l ys)) h1 h'" by blast
    have "sort_by lessf ys = sort_by lessf xs"
      by (rule sort_by_unique) (use st stable_sort_by[of ys] sorted_sort_by
          in \<open>auto simp: stable_wrt_def\<close>)
    moreover have "set (chain l ys) = set (chain l xs)"
      using stable_set[OF st] by simp
    then have "same_outside (set (chain l xs)) h h'"
      using same_outside_trans[OF f1] h'(3) by simp
    ultimately show ?thesis
      using True ps h' list_begin_is_list[OF less.prems]
      by (subst list_sort_loop.simps) simp
  next
    case False
    then have "sorted_by ys" unfolding ys_def c_def by (intro sort_pass_sorted) simp
    then have "ys = sort_by lessf xs" using st by (rule sort_by_unique)
    with False ps l1 f1 list_begin_is_list[OF less.prems] show ?thesis
      by (subst list_sort_loop.simps) simp
  qed
qed

lemma list_sort_is_list:
  assumes "is_list h l xs"
  obtains h' where "list_sort lessf h l = Some h'" and "is_list h' l (sort_by lessf xs)"
    and "same_outside (set (chain l xs)) h h'"
proof -
  obtain h' where h': "list_sort_loop lessf h l = Some h'" "is_list h' l (sort_by lessf xs)"
    "same_outside (set (chain l xs)) h h'"
    using list_sort_loop_is_list[OF assms] by blast
  have "is_sorted lessf h' (hd (sort_by lessf xs @ [l_tail l])) (l_tail l) = Some True"
    using is_sorted_is_list[of h' l "[]" "sort_by lessf xs" "[]" lessf] h'(2)
      sorted_sort_by[of xs] by (simp add: successively_sorted)
  then have "list_sort lessf h l = Some h'"
    using h' list_begin_is_list[OF h'(2)] by (simp add: list_sort_def list_end_def)
  then show thesis using that h' by blast
qed

lemma dropWhile_less:
  assumes "sorted_by xs" and "v \<in> set (dropWhile (\<lambda>x. \<not> lessf e x) xs)"
  shows "lessf e v"
  using assms
proof (induction xs)
  case (Cons x xs)
  then show ?case
    using negtrans[of e x v] by (cases "lessf e x") auto
qed simp

lemma sorted_split_insert:
  assumes "sorted_by xs"
  shows "sorted_by (takeWhile (\<lambda>x. \<not> lessf e x) xs @ e # dropWhile (\<lambda>x. \<not> lessf e x) xs)"
  using assms
proof (induction xs)
  case (Cons x xs)
  then show ?case by (auto dest: set_takeWhileD set_dropWhileD asym negtrans)
qed simp

end

subsection \<open>Ordered insertion, extrema, duplicates\<close>

lemma list_insert_ordered_loop_is_list:
  assumes "is_list h l (xs @ ys)"
  shows "list_insert_ordered_loop lessf h l e (hd (ys @ [l_tail l]))
       = Some (hd (dropWhile (\<lambda>x. \<not> lessf e x) ys @ [l_tail l]))"
  using assms
proof (induction ys arbitrary: xs)
  case Nil
  then show ?case by (subst list_insert_ordered_loop.simps) (simp add: list_end_def)
next
  case (Cons y ys)
  have "y \<noteq> l_tail l" using is_list_distinct[OF Cons.prems] by auto
  then show ?case
    using Cons.IH[of "xs @ [y]"] Cons.prems list_next_is_list[OF Cons.prems]
    by (subst list_insert_ordered_loop.simps) (auto simp: list_end_def)
qed

lemma list_insert_ordered_is_list:
  assumes "is_list h l xs" and "e \<notin> set (chain l xs)"
  obtains h' where "list_insert_ordered lessf h l e = Some h'"
    and "is_list h' l (takeWhile (\<lambda>x. \<not> lessf e x) xs @ e # dropWhile (\<lambda>x. \<not> lessf e x) xs)"
    and "same_outside (set (chain l (e # xs))) h h'"
proof -
  let ?T = "takeWhile (\<lambda>x. \<not> lessf e x) xs" and ?D = "dropWhile (\<lambda>x. \<not> lessf e x) xs"
  have l: "is_list h l (?T @ ?D)" and e: "e \<notin> set (chain l (?T @ ?D))" using assms by simp_all
  obtain h' where h': "list_insert h (hd (?D @ [l_tail l])) e = Some h'"
    "is_list h' l (?T @ e # ?D)" "same_outside (set (chain l (?T @ e # ?D))) h h'"
    using list_insert_is_list[OF l e] by blast
  have "set xs = set ?T \<union> set ?D" by (metis set_append takeWhile_dropWhile_id)
  then have "set (chain l (?T @ e # ?D)) = set (chain l (e # xs))" by auto
  with h' list_insert_ordered_loop_is_list[of h l "[]" xs lessf e] assms(1)
    list_begin_is_list[OF assms(1)] that
  show thesis by (simp add: list_insert_ordered_def)
qed

lemma list_max_loop_is_list:
  assumes "is_list h l (xs @ ys)"
  shows "list_max_loop lessf h l m (hd (ys @ [l_tail l]))
       = Some (fold (\<lambda>e m. if lessf m e then e else m) ys m)"
  using assms
proof (induction ys arbitrary: xs m)
  case Nil
  then show ?case by (subst list_max_loop.simps) (simp add: list_end_def)
next
  case (Cons y ys)
  have "y \<noteq> l_tail l" using is_list_distinct[OF Cons.prems] by auto
  then show ?case
    using Cons.IH[of "xs @ [y]"] Cons.prems list_next_is_list[OF Cons.prems]
    by (subst list_max_loop.simps) (auto simp: list_end_def)
qed

lemma list_max_is_list:
  assumes "is_list h l (x # xs)"
  shows "list_max lessf h l = Some (fold (\<lambda>e m. if lessf m e then e else m) xs x)"
proof -
  have "x \<noteq> l_tail l" using is_list_distinct[OF assms] by auto
  then show ?thesis
    using list_max_loop_is_list[of h l "[x]" xs] assms list_next_is_list[of h l "[]" x xs]
    by (simp add: list_max_def list_begin_is_list[OF assms] list_end_def)
qed

lemma list_max_empty: "is_list h l [] \<Longrightarrow> list_max lessf h l = Some (list_end l)"
  using list_begin_is_list[of h l "[]"]
  by (simp add: list_max_def list_end_def del: is_list_empty_chain)

lemma list_min_loop_is_list:
  assumes "is_list h l (xs @ ys)"
  shows "list_min_loop lessf h l m (hd (ys @ [l_tail l]))
       = Some (fold (\<lambda>e m. if lessf e m then e else m) ys m)"
  using assms
proof (induction ys arbitrary: xs m)
  case Nil
  then show ?case by (subst list_min_loop.simps) (simp add: list_end_def)
next
  case (Cons y ys)
  have "y \<noteq> l_tail l" using is_list_distinct[OF Cons.prems] by auto
  then show ?case
    using Cons.IH[of "xs @ [y]"] Cons.prems list_next_is_list[OF Cons.prems]
    by (subst list_min_loop.simps) (auto simp: list_end_def)
qed

lemma list_min_is_list:
  assumes "is_list h l (x # xs)"
  shows "list_min lessf h l = Some (fold (\<lambda>e m. if lessf e m then e else m) xs x)"
proof -
  have "x \<noteq> l_tail l" using is_list_distinct[OF assms] by auto
  then show ?thesis
    using list_min_loop_is_list[of h l "[x]" xs] assms list_next_is_list[of h l "[]" x xs]
    by (simp add: list_min_def list_begin_is_list[OF assms] list_end_def)
qed

lemma list_min_empty: "is_list h l [] \<Longrightarrow> list_min lessf h l = Some (list_end l)"
  using list_begin_is_list[of h l "[]"]
  by (simp add: list_min_def list_end_def del: is_list_empty_chain)

context strict_weak_order
begin

lemma fold_max_bound:
  "fold (\<lambda>e m. if lessf m e then e else m) xs x \<in> set (x # xs) \<and>
   (\<forall>y \<in> set (x # xs). \<not> lessf (fold (\<lambda>e m. if lessf m e then e else m) xs x) y)"
proof (induction xs arbitrary: x)
  case (Cons y ys)
  let ?m = "if lessf x y then y else x"
  have "\<not> lessf ?m x" "\<not> lessf ?m y" using asym irrefl by auto
  with Cons.IH[of ?m] show ?case
    by (auto split: if_splits dest: negtrans)
qed (simp add: irrefl)

lemma fold_min_bound:
  "fold (\<lambda>e m. if lessf e m then e else m) xs x \<in> set (x # xs) \<and>
   (\<forall>y \<in> set (x # xs). \<not> lessf y (fold (\<lambda>e m. if lessf e m then e else m) xs x))"
proof (induction xs arbitrary: x)
  case (Cons y ys)
  let ?m = "if lessf y x then y else x"
  have "\<not> lessf x ?m" "\<not> lessf y ?m" using asym irrefl by auto
  with Cons.IH[of ?m] show ?case
    by (auto split: if_splits dest: negtrans)
qed (simp add: irrefl)

end

text \<open>\<open>list_unique\<close> keeps the first element of every run of equivalent neighbours and moves the others,
  in order, to the second list.\<close>

fun unique_by :: "('a \<Rightarrow> 'a \<Rightarrow> bool) \<Rightarrow> 'a \<Rightarrow> 'a list \<Rightarrow> 'a list \<times> 'a list" where
  "unique_by lessf x [] = ([x], [])"
| "unique_by lessf x (y # ys) =
     (if \<not> lessf x y \<and> \<not> lessf y x then apsnd (\<lambda>d. y # d) (unique_by lessf x ys)
      else apfst (\<lambda>k. x # k) (unique_by lessf y ys))"

lemma unique_by_partition:
  "mset (fst (unique_by lessf x ys)) + mset (snd (unique_by lessf x ys)) = mset (x # ys)"
  by (induction lessf x ys rule: unique_by.induct) auto

lemma unique_by_hd: "\<exists>k. fst (unique_by lessf x ys) = x # k"
  by (induction lessf x ys rule: unique_by.induct) auto

lemma unique_by_no_adjacent:
  "successively (\<lambda>a b. lessf a b \<or> lessf b a) (fst (unique_by lessf x ys))"
proof (induction lessf x ys rule: unique_by.induct)
  case (2 lessf x y ys)
  then show ?case using unique_by_hd[of lessf y ys] by auto
qed simp

text \<open>Moving an element from one list to the end of another.\<close>

lemma list_move_is_list:
  assumes l: "is_list h l (xs @ e # ys)" and d: "is_list h d zs"
    and disj: "set (chain l (xs @ e # ys)) \<inter> set (chain d zs) = {}"
  obtains h1 h2 where "list_remove h e = Some (h1, hd (ys @ [l_tail l]))"
    and "list_push_back h1 d e = Some h2"
    and "is_list h2 l (xs @ ys)" and "is_list h2 d (zs @ [e])"
    and "set (chain l (xs @ ys)) \<inter> set (chain d (zs @ [e])) = {}"
    and "same_outside (set (chain l (xs @ e # ys)) \<union> set (chain d zs)) h h2"
proof -
  obtain h1 where r: "list_remove h e = Some (h1, hd (ys @ [l_tail l]))"
    and l1: "is_list h1 l (xs @ ys)" and f1: "same_outside (set (chain l (xs @ ys))) h h1"
    using list_remove_is_list[OF l] by blast
  have d1: "is_list h1 d zs"
    by (rule is_list_same_outside[OF d f1]) (use disj in auto)
  have e: "e \<notin> set (chain d zs)" using disj by auto
  obtain h2 where p: "list_push_back h1 d e = Some h2"
    and d2: "is_list h2 d (zs @ [e])" and f2: "same_outside (set (chain d (zs @ [e]))) h1 h2"
    using list_push_back_is_list[OF d1 e] by blast
  have disj2: "set (chain l (xs @ ys)) \<inter> set (chain d (zs @ [e])) = {}"
    using disj is_list_distinct[OF l] by auto
  have l2: "is_list h2 l (xs @ ys)"
    by (rule is_list_same_outside[OF l1 f2]) (use disj2 in auto)
  have "same_outside (set (chain l (xs @ e # ys)) \<union> set (chain d zs)) h h2"
    by (rule same_outside_trans[OF same_outside_mono[OF f1] same_outside_mono[OF f2]]) auto
  with r p l2 d2 disj2 that show thesis by blast
qed

lemma list_unique_loop_is_list:
  assumes "is_list h l (xs @ e # ys)" and "is_list h d zs"
    and "set (chain l (xs @ e # ys)) \<inter> set (chain d zs) = {}"
  shows "\<exists>h'. list_unique_loop lessf h l (Some d) e = Some h' \<and>
           is_list h' l (xs @ fst (unique_by lessf e ys)) \<and>
           is_list h' d (zs @ snd (unique_by lessf e ys)) \<and>
           same_outside (set (chain l (xs @ e # ys)) \<union> set (chain d zs)) h h'"
  using assms
proof (induction ys arbitrary: h xs e zs)
  case Nil
  have "list_next h e = Some (l_tail l)" using list_next_is_list[OF Nil(1)] by simp
  with Nil show ?case by (subst list_unique_loop.simps) (simp add: list_end_def)
next
  case (Cons y ys)
  have n: "list_next h e = Some y" using list_next_is_list[OF Cons.prems(1)] by simp
  have t: "y \<noteq> l_tail l" using is_list_distinct[OF Cons.prems(1)] by auto
  show ?case
  proof (cases "\<not> lessf e y \<and> \<not> lessf y e")
    case True
    obtain h1 h2 where m: "list_remove h y = Some (h1, hd (ys @ [l_tail l]))"
      "list_push_back h1 d y = Some h2" "is_list h2 l ((xs @ [e]) @ ys)" "is_list h2 d (zs @ [y])"
      "set (chain l ((xs @ [e]) @ ys)) \<inter> set (chain d (zs @ [y])) = {}"
      and f: "same_outside (set (chain l ((xs @ [e]) @ y # ys)) \<union> set (chain d zs)) h h2"
      using list_move_is_list[of h l "xs @ [e]" y ys d zs] Cons.prems by auto
    obtain h' where h': "list_unique_loop lessf h2 l (Some d) e = Some h'"
      "is_list h' l (xs @ fst (unique_by lessf e ys))"
      "is_list h' d ((zs @ [y]) @ snd (unique_by lessf e ys))"
      and f': "same_outside (set (chain l (xs @ e # ys)) \<union> set (chain d (zs @ [y]))) h2 h'"
      using Cons.IH[of h2 xs e "zs @ [y]"] m by auto
    have "same_outside (set (chain l (xs @ e # y # ys)) \<union> set (chain d zs)) h h'"
      by (rule same_outside_trans[OF same_outside_mono[OF f] same_outside_mono[OF f']]) auto
    with h' n t True m show ?thesis
      by (subst list_unique_loop.simps) (simp add: list_end_def)
  next
    case False
    with Cons.IH[of h "xs @ [e]" y zs] Cons.prems n t show ?thesis
      by (subst list_unique_loop.simps) (auto simp: list_end_def insert_commute)
  qed
qed

lemma list_unique_is_list:
  assumes "is_list h l (x # xs)" and "is_list h d zs"
    and "set (chain l (x # xs)) \<inter> set (chain d zs) = {}"
  obtains h' where "list_unique lessf h l (Some d) = Some h'"
    and "is_list h' l (fst (unique_by lessf x xs))"
    and "is_list h' d (zs @ snd (unique_by lessf x xs))"
    and "same_outside (set (chain l (x # xs)) \<union> set (chain d zs)) h h'"
  using list_unique_loop_is_list[of h l "[]" x xs d zs lessf] assms
    list_begin_is_list[OF assms(1)] list_empty_is_list[OF assms(1)]
  by (auto simp: list_unique_def)

subsection \<open>Properties\<close>

text \<open>C5. \<open>list_sort\<close> on a well-formed list and a strict weak order returns: no assertion on its
  way fails and its outer loop ends. The list it leaves is well formed, holds the same elements
  in non-decreasing order, keeps equivalent elements in their original order, and no element
  outside the list has changed.\<close>

theorem list_sort_correct:
  assumes "strict_weak_order lessf" and "is_list h l xs"
  shows "\<exists>h' ys. list_sort lessf h l = Some h' \<and> is_list h' l ys \<and> mset ys = mset xs \<and>
           sorted_wrt (\<lambda>a b. \<not> lessf b a) ys \<and>
           (\<forall>x. filter (equiv_by lessf x) ys = filter (equiv_by lessf x) xs) \<and>
           same_outside (set (chain l xs)) h h'"
proof -
  obtain h' where h': "list_sort lessf h l = Some h'" "is_list h' l (sort_by lessf xs)"
    "same_outside (set (chain l xs)) h h'"
    using strict_weak_order.list_sort_is_list[OF assms] by blast
  have "sorted_wrt (\<lambda>a b. \<not> lessf b a) (sort_by lessf xs)"
    by (rule strict_weak_order.sorted_sort_by[OF assms(1)])
  moreover have "stable_wrt lessf xs (sort_by lessf xs)"
    by (rule strict_weak_order.stable_sort_by[OF assms(1)])
  ultimately show ?thesis using h' by (auto simp: stable_wrt_def)
qed

text \<open>C23. \<open>list_insert_ordered\<close> puts a new element behind every element it is not less than, so a
  sorted list stays sorted and the new element comes after its equals.\<close>

theorem list_insert_ordered_correct:
  assumes "strict_weak_order lessf" and "is_list h l xs" and "e \<notin> set (chain l xs)"
    and "sorted_wrt (\<lambda>a b. \<not> lessf b a) xs"
  shows "\<exists>h' us vs. list_insert_ordered lessf h l e = Some h' \<and> xs = us @ vs \<and>
           is_list h' l (us @ e # vs) \<and> sorted_wrt (\<lambda>a b. \<not> lessf b a) (us @ e # vs) \<and>
           (\<forall>v \<in> set vs. lessf e v) \<and> same_outside (set (chain l (e # xs))) h h'"
proof -
  let ?T = "takeWhile (\<lambda>x. \<not> lessf e x) xs" and ?D = "dropWhile (\<lambda>x. \<not> lessf e x) xs"
  obtain h' where h': "list_insert_ordered lessf h l e = Some h'" "is_list h' l (?T @ e # ?D)"
    "same_outside (set (chain l (e # xs))) h h'"
    using list_insert_ordered_is_list[OF assms(2,3)] by blast
  have "\<forall>v \<in> set ?D. lessf e v"
    using strict_weak_order.dropWhile_less[OF assms(1,4)] by blast
  moreover note strict_weak_order.sorted_split_insert[OF assms(1,4), of e]
  moreover have "xs = ?T @ ?D" by simp
  ultimately show ?thesis using h' by blast
qed

text \<open>\<open>list_unique\<close> with a second list keeps one element of every run of equivalent
  neighbours, appends the others to the second list, and loses and invents none.\<close>

theorem list_unique_correct:
  assumes "is_list h l xs" and "is_list h d zs" and "set (chain l xs) \<inter> set (chain d zs) = {}"
  shows "\<exists>h' ks ds. list_unique lessf h l (Some d) = Some h' \<and> is_list h' l ks \<and>
           is_list h' d (zs @ ds) \<and> mset ks + mset ds = mset xs \<and>
           successively (\<lambda>a b. lessf a b \<or> lessf b a) ks"
proof (cases xs)
  case Nil
  have "list_empty h l" using list_empty_is_list[OF assms(1)] Nil by simp
  with assms Nil show ?thesis
    by (intro exI[of _ h] exI[of _ "[]"]) (simp add: list_unique_def)
next
  case (Cons x ys)
  with assms list_unique_is_list[of h l x ys d zs lessf] obtain h' where
    "list_unique lessf h l (Some d) = Some h'" "is_list h' l (fst (unique_by lessf x ys))"
    "is_list h' d (zs @ snd (unique_by lessf x ys))" by metis
  with Cons unique_by_partition[of lessf x ys] unique_by_no_adjacent[of lessf x ys]
  show ?thesis by blast
qed

text \<open>\<open>list_max\<close> and \<open>list_min\<close> return an element of a non-empty list that nothing exceeds,
  respectively that exceeds nothing; on an empty list they return its tail.\<close>

theorem list_max_min_correct:
  assumes "strict_weak_order lessf" and "is_list h l xs"
  shows "\<exists>m n. list_max lessf h l = Some m \<and> list_min lessf h l = Some n \<and>
           (if xs = [] then m = list_end l \<and> n = list_end l
            else m \<in> set xs \<and> n \<in> set xs \<and> (\<forall>y \<in> set xs. \<not> lessf m y \<and> \<not> lessf y n))"
proof (cases xs)
  case Nil
  with assms list_max_empty[of h l lessf] list_min_empty[of h l lessf] show ?thesis by simp
next
  case (Cons x ys)
  with assms list_max_is_list[of h l x ys lessf] list_min_is_list[of h l x ys lessf]
    strict_weak_order.fold_max_bound[OF assms(1), of ys x]
    strict_weak_order.fold_min_bound[OF assms(1), of ys x]
  show ?thesis by auto
qed

subsection \<open>A concrete list\<close>

text \<open>The properties applied to a list of the elements 7, 9, 8, 6 with headers 0 and 1, ordered
  by their value modulo 3, so that 9 and 6 are equivalent.\<close>

definition ex_list :: "nat clist" where
  "ex_list = \<lparr>l_head = 0, l_tail = 1\<rparr>"

definition ex_heap :: "nat lheap" where
  "ex_heap = (\<lambda>a. if a = 0 then \<lparr>l_prev = None, l_next = Some 7\<rparr>
     else if a = 7 then \<lparr>l_prev = Some 0, l_next = Some 9\<rparr>
     else if a = 9 then \<lparr>l_prev = Some 7, l_next = Some 8\<rparr>
     else if a = 8 then \<lparr>l_prev = Some 9, l_next = Some 6\<rparr>
     else if a = 6 then \<lparr>l_prev = Some 8, l_next = Some 1\<rparr>
     else if a = 1 then \<lparr>l_prev = Some 6, l_next = None\<rparr>
     else if a = 2 then \<lparr>l_prev = None, l_next = Some 3\<rparr>
     else if a = 3 then \<lparr>l_prev = Some 2, l_next = None\<rparr>
     else \<lparr>l_prev = None, l_next = None\<rparr>)"

definition ex_less :: "nat \<Rightarrow> nat \<Rightarrow> bool" where
  "ex_less a b \<longleftrightarrow> a mod 3 < b mod 3"

lemma ex_order: "strict_weak_order ex_less"
  unfolding ex_less_def by (rule strict_weak_order_key)

lemma ex_is_list: "is_list ex_heap ex_list [7, 9, 8, 6]"
  by (simp add: is_list_def ex_heap_def ex_list_def)

lemma ex_is_list2: "is_list ex_heap \<lparr>l_head = 2, l_tail = 3\<rparr> []"
  by (simp add: is_list_def ex_heap_def)

theorem list_sort_correct_witness:
  "\<exists>h'. list_sort ex_less ex_heap ex_list = Some h' \<and> is_list h' ex_list [9, 6, 7, 8]"
proof -
  obtain h' ys where h': "list_sort ex_less ex_heap ex_list = Some h'" "is_list h' ex_list ys"
    and ys: "mset ys = mset [7, 9, 8, 6]" "sorted_wrt (\<lambda>a b. \<not> ex_less b a) ys"
      "\<forall>x. filter (equiv_by ex_less x) ys = filter (equiv_by ex_less x) [7, 9, 8, 6]"
    using list_sort_correct[OF ex_order ex_is_list] by blast
  have "ys = sort_by ex_less [7, 9, 8, 6]"
    by (rule strict_weak_order.sort_by_unique[OF ex_order ys(2)])
      (unfold stable_wrt_def, use ys in blast)
  also have "\<dots> = [9, 6, 7, 8]" by (simp add: sort_by_def ex_less_def)
  finally show ?thesis using h' by blast
qed

theorem list_insert_ordered_correct_witness:
  "\<exists>h'. list_insert_ordered ex_less ex_heap \<lparr>l_head = 2, l_tail = 3\<rparr> 5 = Some h' \<and>
        is_list h' \<lparr>l_head = 2, l_tail = 3\<rparr> [5]"
  using list_insert_ordered_correct[OF ex_order ex_is_list2, of 5] by simp blast

theorem list_unique_correct_witness:
  "\<exists>h' ks ds. list_unique ex_less ex_heap ex_list (Some \<lparr>l_head = 2, l_tail = 3\<rparr>) = Some h' \<and>
     is_list h' ex_list ks \<and> is_list h' \<lparr>l_head = 2, l_tail = 3\<rparr> ds \<and>
     mset ks + mset ds = mset [7, 9, 8, 6]"
proof -
  have "set (chain ex_list [7, 9, 8, 6]) \<inter> set (chain \<lparr>l_head = 2, l_tail = 3\<rparr> []) = {}"
    by (simp add: ex_list_def)
  from list_unique_correct[OF ex_is_list ex_is_list2 this, of ex_less] show ?thesis
    unfolding append_Nil by blast
qed

theorem list_max_min_correct_witness:
  "\<exists>m n. list_max ex_less ex_heap ex_list = Some m \<and> list_min ex_less ex_heap ex_list = Some n \<and>
     \<not> ex_less m 8 \<and> \<not> ex_less 9 n"
proof -
  have "8 \<in> set [7, 9, 8, 6::nat]" "9 \<in> set [7, 9, 8, 6::nat]" "[7, 9, 8, 6::nat] \<noteq> []"
    by simp_all
  moreover obtain m n where "list_max ex_less ex_heap ex_list = Some m"
    "list_min ex_less ex_heap ex_list = Some n"
    "\<forall>y \<in> set [7, 9, 8, 6]. \<not> ex_less m y \<and> \<not> ex_less y n"
    using list_max_min_correct[OF ex_order ex_is_list] by (simp only: list.distinct if_False) blast
  ultimately show ?thesis by blast
qed

end
