(* ===== verification/Pintos_Bitmap.thy ===== *)
theory Pintos_Bitmap
  imports Pintos_Prelude
begin

section \<open>Bitmaps (lib/kernel/bitmap.c)\<close>

text \<open>
  A bitmap is its number of bits and an array of 32-bit elements. Operations on one bit mask and
  shift the element that holds it; the operations on ranges are loops over them. Indices are
  \<open>size_t\<close>, so the sums of the code are taken modulo \<open>2 ^ 32\<close>. Access outside the array of
  elements and a failed assertion are \<open>None\<close>. \<open>bitmap_abs\<close> reads a bitmap as a list of booleans,
  and every operation is shown to implement the corresponding list operation.
\<close>

unbundle bit_operations_syntax

subsection \<open>Data and operations\<close>

record bitmap =
  bit_cnt :: nat
  bits :: "u32 list"

definition ELEM_BITS :: nat where
  "ELEM_BITS = 32"

definition BITMAP_ERROR :: nat where
  "BITMAP_ERROR = SIZE_MAX"

definition elem_idx :: "nat \<Rightarrow> nat" where
  "elem_idx bit_idx = bit_idx div ELEM_BITS"

definition bit_mask :: "nat \<Rightarrow> u32" where
  "bit_mask bit_idx = push_bit (bit_idx mod ELEM_BITS) 1"

definition elem_cnt :: "nat \<Rightarrow> nat" where
  "elem_cnt n = size_add n (ELEM_BITS - 1) div ELEM_BITS"

definition byte_cnt :: "nat \<Rightarrow> nat" where
  "byte_cnt n = 4 * elem_cnt n"

definition last_mask :: "bitmap \<Rightarrow> u32" where
  "last_mask b = (let last_bits = bit_cnt b mod ELEM_BITS
     in if last_bits \<noteq> 0 then push_bit last_bits 1 - 1 else - 1)"

definition bitmap_buf_size :: "nat \<Rightarrow> nat" where
  "bitmap_buf_size n = 8 + byte_cnt n"

definition bitmap_size :: "bitmap \<Rightarrow> nat" where
  "bitmap_size b = bit_cnt b"

text \<open>One element of the array is read and written back by a single instruction.\<close>

definition update_elem :: "bitmap \<Rightarrow> nat \<Rightarrow> (u32 \<Rightarrow> u32) \<Rightarrow> bitmap option" where
  "update_elem b idx f =
     (if idx < length (bits b) then Some (b\<lparr>bits := (bits b)[idx := f (bits b ! idx)]\<rparr>) else None)"

definition bitmap_mark :: "bitmap \<Rightarrow> nat \<Rightarrow> bitmap option" where
  "bitmap_mark b bit_idx = update_elem b (elem_idx bit_idx) (\<lambda>w. w OR bit_mask bit_idx)"

definition bitmap_reset :: "bitmap \<Rightarrow> nat \<Rightarrow> bitmap option" where
  "bitmap_reset b bit_idx = update_elem b (elem_idx bit_idx) (\<lambda>w. w AND NOT (bit_mask bit_idx))"

definition bitmap_flip :: "bitmap \<Rightarrow> nat \<Rightarrow> bitmap option" where
  "bitmap_flip b bit_idx = update_elem b (elem_idx bit_idx) (\<lambda>w. w XOR bit_mask bit_idx)"

definition bitmap_set :: "bitmap \<Rightarrow> nat \<Rightarrow> bool \<Rightarrow> bitmap option" where
  "bitmap_set b idx v = do {
     ASSERT (idx < bit_cnt b);
     if v then bitmap_mark b idx else bitmap_reset b idx
   }"

definition bitmap_test :: "bitmap \<Rightarrow> nat \<Rightarrow> bool option" where
  "bitmap_test b idx = do {
     ASSERT (idx < bit_cnt b);
     if elem_idx idx < length (bits b)
     then Some (bits b ! elem_idx idx AND bit_mask idx \<noteq> 0) else None
   }"

function bitmap_set_loop :: "bitmap \<Rightarrow> nat \<Rightarrow> nat \<Rightarrow> nat \<Rightarrow> bool \<Rightarrow> bitmap option" where
  "bitmap_set_loop b start i cnt v =
     (if i < cnt then do {
        b \<leftarrow> bitmap_set b (size_add start i) v;
        bitmap_set_loop b start (i + 1) cnt v
      } else Some b)"
  by pat_completeness auto
termination by (relation "measure (\<lambda>(b, start, i, cnt, v). cnt - i)") auto

definition bitmap_set_multiple :: "bitmap \<Rightarrow> nat \<Rightarrow> nat \<Rightarrow> bool \<Rightarrow> bitmap option" where
  "bitmap_set_multiple b start cnt v = do {
     ASSERT (start \<le> bit_cnt b);
     ASSERT (size_add start cnt \<le> bit_cnt b);
     bitmap_set_loop b start 0 cnt v
   }"

definition bitmap_set_all :: "bitmap \<Rightarrow> bool \<Rightarrow> bitmap option" where
  "bitmap_set_all b v = bitmap_set_multiple b 0 (bitmap_size b) v"

text \<open>\<open>m1\<close> tells whether the allocation of the structure succeeds, \<open>m2\<close> is the result of the
  allocation of the elements, with whatever they hold.\<close>

definition bitmap_create :: "bool \<Rightarrow> (nat \<Rightarrow> u32 list option) \<Rightarrow> nat \<Rightarrow> bitmap option option" where
  "bitmap_create m1 m2 n =
     (if m1 then
        (case m2 (byte_cnt n) of
           Some ws \<Rightarrow> map_option Some (bitmap_set_all \<lparr>bit_cnt = n, bits = ws\<rparr> False)
         | None \<Rightarrow>
             if n = 0 then map_option Some (bitmap_set_all \<lparr>bit_cnt = n, bits = []\<rparr> False)
             else Some None)
      else Some None)"

definition bitmap_create_in_buf :: "nat \<Rightarrow> u32 list \<Rightarrow> nat \<Rightarrow> bitmap option" where
  "bitmap_create_in_buf n block block_size = do {
     ASSERT (block_size \<ge> bitmap_buf_size n);
     bitmap_set_all \<lparr>bit_cnt = n, bits = block\<rparr> False
   }"

function bitmap_count_loop :: "bitmap \<Rightarrow> nat \<Rightarrow> nat \<Rightarrow> nat \<Rightarrow> bool \<Rightarrow> nat \<Rightarrow> nat option" where
  "bitmap_count_loop b start i cnt v value_cnt =
     (if i < cnt then do {
        t \<leftarrow> bitmap_test b (size_add start i);
        bitmap_count_loop b start (i + 1) cnt v (if t = v then value_cnt + 1 else value_cnt)
      } else Some value_cnt)"
  by pat_completeness auto
termination by (relation "measure (\<lambda>(b, start, i, cnt, v, c). cnt - i)") auto

definition bitmap_count :: "bitmap \<Rightarrow> nat \<Rightarrow> nat \<Rightarrow> bool \<Rightarrow> nat option" where
  "bitmap_count b start cnt v = do {
     ASSERT (start \<le> bit_cnt b);
     ASSERT (size_add start cnt \<le> bit_cnt b);
     bitmap_count_loop b start 0 cnt v 0
   }"

function bitmap_contains_loop :: "bitmap \<Rightarrow> nat \<Rightarrow> nat \<Rightarrow> nat \<Rightarrow> bool \<Rightarrow> bool option" where
  "bitmap_contains_loop b start i cnt v =
     (if i < cnt then do {
        t \<leftarrow> bitmap_test b (size_add start i);
        if t = v then Some True else bitmap_contains_loop b start (i + 1) cnt v
      } else Some False)"
  by pat_completeness auto
termination by (relation "measure (\<lambda>(b, start, i, cnt, v). cnt - i)") auto

definition bitmap_contains :: "bitmap \<Rightarrow> nat \<Rightarrow> nat \<Rightarrow> bool \<Rightarrow> bool option" where
  "bitmap_contains b start cnt v = do {
     ASSERT (start \<le> bit_cnt b);
     ASSERT (size_add start cnt \<le> bit_cnt b);
     bitmap_contains_loop b start 0 cnt v
   }"

definition bitmap_any :: "bitmap \<Rightarrow> nat \<Rightarrow> nat \<Rightarrow> bool option" where
  "bitmap_any b start cnt = bitmap_contains b start cnt True"

definition bitmap_none :: "bitmap \<Rightarrow> nat \<Rightarrow> nat \<Rightarrow> bool option" where
  "bitmap_none b start cnt = map_option Not (bitmap_contains b start cnt True)"

definition bitmap_all :: "bitmap \<Rightarrow> nat \<Rightarrow> nat \<Rightarrow> bool option" where
  "bitmap_all b start cnt = map_option Not (bitmap_contains b start cnt False)"

function bitmap_scan_loop :: "bitmap \<Rightarrow> nat \<Rightarrow> nat \<Rightarrow> nat \<Rightarrow> bool \<Rightarrow> nat option" where
  "bitmap_scan_loop b i end_i cnt v =
     (if i \<le> end_i then do {
        c \<leftarrow> bitmap_contains b i cnt (\<not> v);
        if \<not> c then Some i else bitmap_scan_loop b (i + 1) end_i cnt v
      } else Some BITMAP_ERROR)"
  by pat_completeness auto
termination by (relation "measure (\<lambda>(b, i, e, cnt, v). Suc e - i)") auto

definition bitmap_scan :: "bitmap \<Rightarrow> nat \<Rightarrow> nat \<Rightarrow> bool \<Rightarrow> nat option" where
  "bitmap_scan b start cnt v = do {
     ASSERT (start \<le> bit_cnt b);
     if cnt \<le> bit_cnt b then bitmap_scan_loop b start (bit_cnt b - cnt) cnt v
     else Some BITMAP_ERROR
   }"

definition bitmap_scan_and_flip ::
  "bitmap \<Rightarrow> nat \<Rightarrow> nat \<Rightarrow> bool \<Rightarrow> (bitmap \<times> nat) option" where
  "bitmap_scan_and_flip b start cnt v = do {
     idx \<leftarrow> bitmap_scan b start cnt v;
     if idx \<noteq> BITMAP_ERROR then do {
       b \<leftarrow> bitmap_set_multiple b idx cnt (\<not> v);
       Some (b, idx)
     } else Some (b, idx)
   }"

definition bitmap_file_size :: "bitmap \<Rightarrow> nat" where
  "bitmap_file_size b = byte_cnt (bit_cnt b)"

text \<open>The file operations are arguments that act on a state: \<open>rd\<close> gives the elements that
  \<open>file_read_at\<close> leaves in the array and the number of bytes it reports, \<open>wr\<close> the number that
  \<open>file_write_at\<close> reports.\<close>

definition bitmap_read ::
  "bitmap \<Rightarrow> (u32 list \<Rightarrow> nat \<Rightarrow> 's \<Rightarrow> ('s \<times> u32 list \<times> int) option) \<Rightarrow> 's \<Rightarrow> ('s \<times> bitmap \<times> bool) option" where
  "bitmap_read b rd s =
     (if bit_cnt b > 0 then do {
        let size = byte_cnt (bit_cnt b);
        (s, ws, n) \<leftarrow> rd (bits b) size s;
        b \<leftarrow> update_elem (b\<lparr>bits := ws\<rparr>) (elem_cnt (bit_cnt b) - 1) (\<lambda>w. w AND last_mask b);
        Some (s, b, n = int size)
      } else Some (s, b, True))"

definition bitmap_write ::
  "bitmap \<Rightarrow> (u32 list \<Rightarrow> nat \<Rightarrow> 's \<Rightarrow> ('s \<times> int) option) \<Rightarrow> 's \<Rightarrow> ('s \<times> bool) option" where
  "bitmap_write b wr s = do {
     let size = byte_cnt (bit_cnt b);
     (s, n) \<leftarrow> wr (bits b) size s;
     Some (s, n = int size)
   }"

declare bitmap_set_loop.simps [simp del] bitmap_count_loop.simps [simp del]
  bitmap_contains_loop.simps [simp del] bitmap_scan_loop.simps [simp del]

subsection \<open>Bits of a bitmap\<close>

text \<open>A bitmap is well formed when its array has an element for every bit and rounding its size up
  to whole elements does not wrap.\<close>

definition bitmap_wf :: "bitmap \<Rightarrow> bool" where
  "bitmap_wf b \<longleftrightarrow> bit_cnt b + ELEM_BITS \<le> 2 ^ 32 \<and> bit_cnt b \<le> ELEM_BITS * length (bits b)"

definition bit_at :: "bitmap \<Rightarrow> nat \<Rightarrow> bool" where
  "bit_at b i = bit (bits b ! elem_idx i) (i mod ELEM_BITS)"

definition bitmap_abs :: "bitmap \<Rightarrow> bool list" where
  "bitmap_abs b = map (bit_at b) [0 ..< bit_cnt b]"

lemma length_bitmap_abs [simp]: "length (bitmap_abs b) = bit_cnt b"
  by (simp add: bitmap_abs_def)

lemma nth_bitmap_abs [simp]: "i < bit_cnt b \<Longrightarrow> bitmap_abs b ! i = bit_at b i"
  by (simp add: bitmap_abs_def)

lemma bitmap_wf_lt: "bitmap_wf b \<Longrightarrow> bit_cnt b < 2 ^ 32"
  by (simp add: bitmap_wf_def ELEM_BITS_def)

lemma bitmap_wf_elem: "bitmap_wf b \<Longrightarrow> i < bit_cnt b \<Longrightarrow> elem_idx i < length (bits b)"
  by (simp add: bitmap_wf_def elem_idx_def ELEM_BITS_def) linarith

lemma bit_bit_mask: "bit (bit_mask i) m \<longleftrightarrow> m = i mod ELEM_BITS"
  by (auto simp: bit_mask_def ELEM_BITS_def bit_exp_iff)

lemma and_bit_mask: "(w AND bit_mask i \<noteq> 0) \<longleftrightarrow> bit w (i mod ELEM_BITS)"
proof -
  have "(w AND bit_mask i \<noteq> 0) \<longleftrightarrow> (\<exists>m. bit (w AND bit_mask i) m)"
    by (metis bit_0_eq bit_eqI bot_apply bot_bool_def)
  then show ?thesis by (simp add: bit_and_iff bit_bit_mask)
qed

lemma elem_pos_eq: "elem_idx i = elem_idx j \<Longrightarrow> i mod ELEM_BITS = j mod ELEM_BITS \<Longrightarrow> i = j"
  unfolding elem_idx_def by (metis div_mult_mod_eq)

lemma update_elem_wf:
  assumes "bitmap_wf b" and "i < bit_cnt b"
  shows "update_elem b (elem_idx i) f =
           Some (b\<lparr>bits := (bits b)[elem_idx i := f (bits b ! elem_idx i)]\<rparr>)"
    and "bitmap_wf (b\<lparr>bits := (bits b)[elem_idx i := f (bits b ! elem_idx i)]\<rparr>)"
  using assms bitmap_wf_elem[OF assms] by (simp_all add: update_elem_def bitmap_wf_def)

lemma bitmap_abs_update:
  assumes "bitmap_wf b" and "i < bit_cnt b"
    and "\<And>m. m < ELEM_BITS \<Longrightarrow>
           bit (f (bits b ! elem_idx i)) m = (if m = i mod ELEM_BITS then v else bit (bits b ! elem_idx i) m)"
  shows "bitmap_abs (b\<lparr>bits := (bits b)[elem_idx i := f (bits b ! elem_idx i)]\<rparr>)
       = (bitmap_abs b)[i := v]"
proof (rule nth_equalityI)
  fix j
  assume "j < length (bitmap_abs (b\<lparr>bits := (bits b)[elem_idx i := f (bits b ! elem_idx i)]\<rparr>))"
  then have j: "j < bit_cnt b" by simp
  have "j mod ELEM_BITS < ELEM_BITS" by (simp add: ELEM_BITS_def)
  with assms(3)[of "j mod ELEM_BITS"] j assms(2) bitmap_wf_elem[OF assms(1) j]
    bitmap_wf_elem[OF assms(1,2)] elem_pos_eq[of i j]
  show "bitmap_abs (b\<lparr>bits := (bits b)[elem_idx i := f (bits b ! elem_idx i)]\<rparr>) ! j
      = (bitmap_abs b)[i := v] ! j"
    by (simp add: nth_list_update bit_at_def) metis
qed simp

lemma bitmap_mark_abs:
  assumes "bitmap_wf b" and "i < bit_cnt b"
  obtains b' where "bitmap_mark b i = Some b'" and "bitmap_wf b'" and "bit_cnt b' = bit_cnt b"
    and "bitmap_abs b' = (bitmap_abs b)[i := True]"
  using update_elem_wf[OF assms, of "\<lambda>w. w OR bit_mask i"]
    bitmap_abs_update[OF assms, of "\<lambda>w. w OR bit_mask i" True]
  by (auto simp: bitmap_mark_def bit_or_iff bit_bit_mask)

lemma bitmap_reset_abs:
  assumes "bitmap_wf b" and "i < bit_cnt b"
  obtains b' where "bitmap_reset b i = Some b'" and "bitmap_wf b'" and "bit_cnt b' = bit_cnt b"
    and "bitmap_abs b' = (bitmap_abs b)[i := False]"
  using update_elem_wf[OF assms, of "\<lambda>w. w AND NOT (bit_mask i)"]
    bitmap_abs_update[OF assms, of "\<lambda>w. w AND NOT (bit_mask i)" False]
  by (auto simp: bitmap_reset_def bit_and_iff bit_not_iff bit_bit_mask ELEM_BITS_def)

lemma bitmap_flip_abs:
  assumes "bitmap_wf b" and "i < bit_cnt b"
  obtains b' where "bitmap_flip b i = Some b'" and "bitmap_wf b'" and "bit_cnt b' = bit_cnt b"
    and "bitmap_abs b' = (bitmap_abs b)[i := \<not> bitmap_abs b ! i]"
  using update_elem_wf[OF assms, of "\<lambda>w. w XOR bit_mask i"] assms
    bitmap_abs_update[OF assms, of "\<lambda>w. w XOR bit_mask i" "\<not> bitmap_abs b ! i"]
  by (auto simp: bitmap_flip_def bit_xor_iff bit_bit_mask bit_at_def)

lemma bitmap_set_abs:
  assumes "bitmap_wf b" and "i < bit_cnt b"
  obtains b' where "bitmap_set b i v = Some b'" and "bitmap_wf b'" and "bit_cnt b' = bit_cnt b"
    and "bitmap_abs b' = (bitmap_abs b)[i := v]"
proof -
  have "bitmap_set b i v = (if v then bitmap_mark b i else bitmap_reset b i)"
    using assms(2) by (simp add: bitmap_set_def)
  moreover obtain b1 b2 where "bitmap_mark b i = Some b1" "bitmap_wf b1" "bit_cnt b1 = bit_cnt b"
    "bitmap_abs b1 = (bitmap_abs b)[i := True]"
    "bitmap_reset b i = Some b2" "bitmap_wf b2" "bit_cnt b2 = bit_cnt b"
    "bitmap_abs b2 = (bitmap_abs b)[i := False]"
    using bitmap_mark_abs[OF assms] bitmap_reset_abs[OF assms] by metis
  ultimately show thesis using that[of "if v then b1 else b2"] by simp
qed

lemma bitmap_test_abs:
  assumes "bitmap_wf b" and "i < bit_cnt b"
  shows "bitmap_test b i = Some (bitmap_abs b ! i)"
  using assms bitmap_wf_elem[OF assms] by (simp add: bitmap_test_def and_bit_mask bit_at_def)

subsection \<open>Ranges of bits\<close>

lemma bitmap_set_loop_abs:
  assumes "bitmap_wf b" and "start + cnt \<le> bit_cnt b" and "i \<le> cnt"
  shows "\<exists>b'. bitmap_set_loop b start i cnt v = Some b' \<and> bitmap_wf b' \<and> bit_cnt b' = bit_cnt b \<and>
           bitmap_abs b' = take (start + i) (bitmap_abs b) @ replicate (cnt - i) v @
             drop (start + cnt) (bitmap_abs b)"
  using assms
proof (induction b start i cnt v rule: bitmap_set_loop.induct)
  case (1 b start i cnt v)
  show ?case
  proof (cases "i < cnt")
    case True
    have i: "start + i < bit_cnt b" using True 1(3) by simp
    have s: "size_add start i = start + i"
      using i bitmap_wf_lt[OF 1(2)] by (simp add: size_add_def)
    obtain b1 where b1: "bitmap_set b (start + i) v = Some b1" "bitmap_wf b1"
      "bit_cnt b1 = bit_cnt b" "bitmap_abs b1 = (bitmap_abs b)[start + i := v]"
      using bitmap_set_abs[OF 1(2) i] by metis
    obtain b' where b': "bitmap_set_loop b1 start (i + 1) cnt v = Some b'" "bitmap_wf b'"
      "bit_cnt b' = bit_cnt b1"
      "bitmap_abs b' = take (start + (i + 1)) (bitmap_abs b1) @ replicate (cnt - (i + 1)) v @
         drop (start + cnt) (bitmap_abs b1)"
      using "1.IH"[OF True, of b1] b1 1(3) True s by auto
    have "take (start + (i + 1)) (bitmap_abs b1) = take (start + i) (bitmap_abs b) @ [v]"
      using i by (simp add: b1(4) take_Suc_conv_app_nth)
    moreover have "cnt - i = Suc (cnt - (i + 1))" using True by simp
    ultimately have "bitmap_abs b' = take (start + i) (bitmap_abs b) @ replicate (cnt - i) v @
        drop (start + cnt) (bitmap_abs b)"
      using b'(4) True by (simp add: b1(4))
    with b' b1 True s show ?thesis by (subst bitmap_set_loop.simps) simp
  next
    case False
    with 1 show ?thesis by (subst bitmap_set_loop.simps) simp
  qed
qed

lemma bitmap_range_asserts:
  assumes "bitmap_wf b" and "start + cnt \<le> bit_cnt b"
  shows "size_add start cnt = start + cnt"
  using assms bitmap_wf_lt[OF assms(1)] by (simp add: size_add_def)

lemma bitmap_set_multiple_abs:
  assumes "bitmap_wf b" and "start + cnt \<le> bit_cnt b"
  obtains b' where "bitmap_set_multiple b start cnt v = Some b'" and "bitmap_wf b'"
    and "bit_cnt b' = bit_cnt b"
    and "bitmap_abs b' = take start (bitmap_abs b) @ replicate cnt v @
           drop (start + cnt) (bitmap_abs b)"
  using bitmap_set_loop_abs[OF assms, of 0 v] assms bitmap_range_asserts[OF assms]
  by (auto simp: bitmap_set_multiple_def)

lemma bitmap_set_all_abs:
  assumes "bitmap_wf b"
  obtains b' where "bitmap_set_all b v = Some b'" and "bitmap_wf b'" and "bit_cnt b' = bit_cnt b"
    and "bitmap_abs b' = replicate (bit_cnt b) v"
  using bitmap_set_multiple_abs[OF assms, of 0 "bit_cnt b" v]
  by (auto simp: bitmap_set_all_def bitmap_size_def)

lemma bitmap_count_loop_abs:
  assumes "bitmap_wf b" and "start + cnt \<le> bit_cnt b" and "i \<le> cnt"
  shows "bitmap_count_loop b start i cnt v c =
           Some (c + length (filter (\<lambda>j. bit_at b j = v) [start + i ..< start + cnt]))"
  using assms
proof (induction b start i cnt v c rule: bitmap_count_loop.induct)
  case (1 b start i cnt v c)
  show ?case
  proof (cases "i < cnt")
    case True
    have i: "start + i < bit_cnt b" using True 1(3) by simp
    have "size_add start i = start + i"
      using i bitmap_wf_lt[OF 1(2)] by (simp add: size_add_def)
    moreover have "[start + i ..< start + cnt] = (start + i) # [start + (i + 1) ..< start + cnt]"
      using True by (simp add: upt_conv_Cons)
    moreover have "bitmap_test b (start + i) = Some (bit_at b (start + i))"
      using bitmap_test_abs[OF 1(2) i] i by simp
    ultimately show ?thesis
      using "1.IH"[OF True] 1(2,3) True by (subst bitmap_count_loop.simps) simp
  next
    case False
    with 1 show ?thesis by (subst bitmap_count_loop.simps) simp
  qed
qed

lemma bitmap_count_abs:
  assumes "bitmap_wf b" and "start + cnt \<le> bit_cnt b"
  shows "bitmap_count b start cnt v =
           Some (length (filter (\<lambda>j. bit_at b j = v) [start ..< start + cnt]))"
  using bitmap_count_loop_abs[OF assms, of 0 v 0] assms bitmap_range_asserts[OF assms]
  by (simp add: bitmap_count_def)

lemma ex_range_split:
  fixes a n :: nat
  assumes "a < n"
  shows "(\<exists>j. a \<le> j \<and> j < n \<and> P j) \<longleftrightarrow> P a \<or> (\<exists>j. a + 1 \<le> j \<and> j < n \<and> P j)"
  using assms by (metis Suc_eq_plus1 Suc_leD le_refl not_less_eq_eq order_antisym)

lemma bitmap_contains_loop_abs:
  assumes "bitmap_wf b" and "start + cnt \<le> bit_cnt b" and "i \<le> cnt"
  shows "bitmap_contains_loop b start i cnt v =
           Some (\<exists>j. start + i \<le> j \<and> j < start + cnt \<and> bit_at b j = v)"
  using assms
proof (induction b start i cnt v rule: bitmap_contains_loop.induct)
  case (1 b start i cnt v)
  show ?case
  proof (cases "i < cnt")
    case True
    have i: "start + i < bit_cnt b" using True 1(3) by simp
    have s: "size_add start i = start + i"
      using i bitmap_wf_lt[OF 1(2)] by (simp add: size_add_def)
    have split: "(\<exists>j. start + i \<le> j \<and> j < start + cnt \<and> bit_at b j = v) \<longleftrightarrow>
        bit_at b (start + i) = v \<or> (\<exists>j. start + i + 1 \<le> j \<and> j < start + cnt \<and> bit_at b j = v)"
      by (rule ex_range_split) (use True in simp)
    have t: "bitmap_test b (size_add start i) = Some (bit_at b (start + i))"
      using bitmap_test_abs[OF 1(2) i] i s by simp
    show ?thesis
      unfolding split using "1.IH"[OF True t] 1(2,3) True t
      by (subst bitmap_contains_loop.simps) simp
  next
    case False
    with 1 show ?thesis by (subst bitmap_contains_loop.simps) auto
  qed
qed

lemma bitmap_contains_abs:
  assumes "bitmap_wf b" and "start + cnt \<le> bit_cnt b"
  shows "bitmap_contains b start cnt v =
           Some (\<exists>j. start \<le> j \<and> j < start + cnt \<and> bit_at b j = v)"
  using bitmap_contains_loop_abs[OF assms, of 0 v] assms bitmap_range_asserts[OF assms]
  by (simp add: bitmap_contains_def)

lemma bitmap_all_abs:
  assumes "bitmap_wf b" and "start + cnt \<le> bit_cnt b"
  shows "bitmap_all b start cnt = Some (\<forall>j. start \<le> j \<and> j < start + cnt \<longrightarrow> bit_at b j)"
proof -
  have "bitmap_contains b start cnt False = Some (\<exists>j. start \<le> j \<and> j < start + cnt \<and> \<not> bit_at b j)"
    using bitmap_contains_abs[OF assms, of False] by simp
  then show ?thesis by (simp add: bitmap_all_def) blast
qed

lemma bitmap_none_any_abs:
  assumes "bitmap_wf b" and "start + cnt \<le> bit_cnt b"
  shows "bitmap_any b start cnt = Some (\<exists>j. start \<le> j \<and> j < start + cnt \<and> bit_at b j)"
    and "bitmap_none b start cnt = map_option Not (bitmap_any b start cnt)"
  using bitmap_contains_abs[OF assms, of True] by (simp_all add: bitmap_none_def bitmap_any_def)

subsection \<open>First fit\<close>

definition bit_run :: "bitmap \<Rightarrow> nat \<Rightarrow> nat \<Rightarrow> bool \<Rightarrow> bool" where
  "bit_run b i cnt v \<longleftrightarrow> (\<forall>j \<in> {i ..< i + cnt}. bit_at b j = v)"

lemma bitmap_contains_run:
  assumes "bitmap_wf b" and "i + cnt \<le> bit_cnt b"
  shows "bitmap_contains b i cnt (\<not> v) = Some (\<not> bit_run b i cnt v)"
  by (simp add: bitmap_contains_abs[OF assms] bit_run_def) auto

lemma BITMAP_ERROR_gt: "bitmap_wf b \<Longrightarrow> bit_cnt b < BITMAP_ERROR"
  by (simp add: bitmap_wf_def ELEM_BITS_def BITMAP_ERROR_def SIZE_MAX_def)

definition first_run :: "bitmap \<Rightarrow> nat \<Rightarrow> nat \<Rightarrow> bool \<Rightarrow> nat \<Rightarrow> bool" where
  "first_run b start cnt v r \<longleftrightarrow>
     start \<le> r \<and> r + cnt \<le> bit_cnt b \<and> bit_run b r cnt v \<and>
     (\<forall>k \<in> {start ..< r}. \<not> bit_run b k cnt v)"

definition no_run :: "bitmap \<Rightarrow> nat \<Rightarrow> nat \<Rightarrow> bool \<Rightarrow> bool" where
  "no_run b start cnt v \<longleftrightarrow>
     (\<forall>k \<in> {start .. bit_cnt b}. k + cnt \<le> bit_cnt b \<longrightarrow> \<not> bit_run b k cnt v)"

lemma first_run_step: "\<not> bit_run b i cnt v \<Longrightarrow> first_run b (i + 1) cnt v r \<Longrightarrow> first_run b i cnt v r"
  unfolding first_run_def by (metis Suc_eq_plus1 Suc_leD atLeastLessThan_iff le_eq_less_or_eq Suc_leI)

lemma no_run_step: "\<not> bit_run b i cnt v \<Longrightarrow> no_run b (i + 1) cnt v \<Longrightarrow> no_run b i cnt v"
  unfolding no_run_def by (metis Suc_eq_plus1 Suc_leI atLeastAtMost_iff le_eq_less_or_eq)

lemma bitmap_scan_loop_abs:
  assumes "bitmap_wf b" and "cnt \<le> bit_cnt b" and "e = bit_cnt b - cnt"
  shows "\<exists>r. bitmap_scan_loop b i e cnt v = Some r \<and>
           (r \<noteq> BITMAP_ERROR \<and> first_run b i cnt v r \<or> r = BITMAP_ERROR \<and> no_run b i cnt v)"
  using assms
proof (induction b i e cnt v rule: bitmap_scan_loop.induct)
  case (1 b i e cnt v)
  show ?case
  proof (cases "i \<le> e")
    case True
    have c: "bitmap_contains b i cnt (\<not> v) = Some (\<not> bit_run b i cnt v)"
      using bitmap_contains_run[OF 1(2)] True 1(3,4) by simp
    show ?thesis
    proof (cases "bit_run b i cnt v")
      case run: True
      then have "first_run b i cnt v i" "i \<noteq> BITMAP_ERROR"
        using True 1(3,4) BITMAP_ERROR_gt[OF 1(2)] by (simp_all add: first_run_def)
      with True c run show ?thesis by (subst bitmap_scan_loop.simps) simp
    next
      case no: False
      with "1.IH"[OF True c] 1(2-4) first_run_step[OF no] no_run_step[OF no] True c
      show ?thesis by (subst bitmap_scan_loop.simps) auto
    qed
  next
    case False
    then have "no_run b i cnt v" using 1(3,4) by (auto simp: no_run_def)
    with False show ?thesis by (subst bitmap_scan_loop.simps) simp
  qed
qed

lemma bitmap_scan_abs:
  assumes "bitmap_wf b" and "start \<le> bit_cnt b"
  obtains r where "bitmap_scan b start cnt v = Some r"
    and "r \<noteq> BITMAP_ERROR \<Longrightarrow> first_run b start cnt v r"
    and "r = BITMAP_ERROR \<Longrightarrow> no_run b start cnt v"
proof (cases "cnt \<le> bit_cnt b")
  case True
  with bitmap_scan_loop_abs[OF assms(1) True refl, of start v] assms(2) that show thesis
    by (auto simp: bitmap_scan_def)
next
  case False
  then have "no_run b start cnt v" by (auto simp: no_run_def)
  with that[of BITMAP_ERROR] False assms(2) show thesis by (simp add: bitmap_scan_def)
qed

lemma bitmap_scan_and_flip_abs:
  assumes "bitmap_wf b" and "start \<le> bit_cnt b"
  obtains r b' where "bitmap_scan_and_flip b start cnt v = Some (b', r)" and "bitmap_wf b'"
    and "bit_cnt b' = bit_cnt b"
    and "r \<noteq> BITMAP_ERROR \<Longrightarrow> first_run b start cnt v r"
    and "r \<noteq> BITMAP_ERROR \<Longrightarrow> bitmap_abs b' = take r (bitmap_abs b) @ replicate cnt (\<not> v) @
           drop (r + cnt) (bitmap_abs b)"
    and "r = BITMAP_ERROR \<Longrightarrow> no_run b start cnt v \<and> b' = b"
proof -
  obtain r where r: "bitmap_scan b start cnt v = Some r"
    "r \<noteq> BITMAP_ERROR \<Longrightarrow> first_run b start cnt v r" "r = BITMAP_ERROR \<Longrightarrow> no_run b start cnt v"
    using bitmap_scan_abs[OF assms] by metis
  show thesis
  proof (cases "r = BITMAP_ERROR")
    case True
    with r that[of b r] assms(1) show thesis by (simp add: bitmap_scan_and_flip_def)
  next
    case False
    then have "r + cnt \<le> bit_cnt b" using r(2) by (simp add: first_run_def)
    from bitmap_set_multiple_abs[OF assms(1) this, of "\<not> v"] obtain b' where
      "bitmap_set_multiple b r cnt (\<not> v) = Some b'" "bitmap_wf b'" "bit_cnt b' = bit_cnt b"
      "bitmap_abs b' = take r (bitmap_abs b) @ replicate cnt (\<not> v) @ drop (r + cnt) (bitmap_abs b)"
      by metis
    with that[of b' r] r False show thesis by (simp add: bitmap_scan_and_flip_def)
  qed
qed

lemma bit_at_range:
  assumes "bitmap_abs b' = take r (bitmap_abs b) @ replicate cnt v @ drop (r + cnt) (bitmap_abs b)"
    and "r + cnt \<le> bit_cnt b" and "bit_cnt b' = bit_cnt b" and "j < bit_cnt b"
  shows "bit_at b' j = (if r \<le> j \<and> j < r + cnt then v else bit_at b j)"
proof -
  have "bit_at b' j = bitmap_abs b' ! j" using assms(3,4) by simp
  also have "\<dots> = (if r \<le> j \<and> j < r + cnt then v else bit_at b j)"
    unfolding assms(1) using assms(2,4) by (auto simp: nth_append)
  finally show ?thesis .
qed

text \<open>A range that runs past the end is refused even when \<open>start + cnt\<close> wraps around: the
  assertion on the sum may hold, but the loop reaches the bit behind the last one.\<close>

lemma bitmap_set_loop_past_end:
  assumes "bitmap_wf b" and "start + i \<le> bit_cnt b" and "bit_cnt b < start + cnt"
  shows "bitmap_set_loop b start i cnt v = None"
  using assms
proof (induction b start i cnt v rule: bitmap_set_loop.induct)
  case (1 b start i cnt v)
  have i: "i < cnt" using 1(3,4) by simp
  have s: "size_add start i = start + i"
    using 1(3) bitmap_wf_lt[OF 1(2)] by (simp add: size_add_def)
  show ?case
  proof (cases "start + i < bit_cnt b")
    case True
    from bitmap_set_abs[OF 1(2) True, of v] obtain b' where
      b': "bitmap_set b (start + i) v = Some b'" "bitmap_wf b'" "bit_cnt b' = bit_cnt b" by metis
    with "1.IH"[OF i, of b'] s True 1(4) show ?thesis by (subst bitmap_set_loop.simps) simp
  next
    case False
    with s i show ?thesis by (subst bitmap_set_loop.simps) (simp add: bitmap_set_def)
  qed
qed

lemma bitmap_set_multiple_past_end:
  assumes "bitmap_wf b" and "bit_cnt b < start + cnt"
  shows "bitmap_set_multiple b start cnt v = None"
  using bitmap_set_loop_past_end[OF assms(1), of start 0 cnt v] assms(2)
  by (cases "start \<le> bit_cnt b") (auto simp: bitmap_set_multiple_def ASSERT_def)

lemma bitmap_scan_and_flip_0:
  assumes "bitmap_wf b" and "start \<le> bit_cnt b"
  shows "map_option snd (bitmap_scan_and_flip b start 0 v) = Some start"
proof -
  from bitmap_scan_and_flip_abs[OF assms, of 0 v] obtain b' r where
    r: "bitmap_scan_and_flip b start 0 v = Some (b', r)"
    "r \<noteq> BITMAP_ERROR \<Longrightarrow> first_run b start 0 v r" "r = BITMAP_ERROR \<Longrightarrow> no_run b start 0 v"
    by metis
  have "\<not> no_run b start 0 v" using assms(2) by (auto simp: no_run_def bit_run_def)
  with r have "first_run b start 0 v r" by blast
  then have "r = start" by (auto simp: first_run_def bit_run_def dest: bspec[of _ _ start])
  with r(1) show ?thesis by simp
qed

lemma bitmap_scan_and_flip_found:
  assumes "bitmap_wf b" and "start \<le> bit_cnt b" and "\<not> no_run b start cnt v"
  obtains b' i where "bitmap_scan_and_flip b start cnt v = Some (b', i)" and "i \<noteq> BITMAP_ERROR"
    and "bitmap_wf b'" and "bit_cnt b' = bit_cnt b" and "start \<le> i" and "i + cnt \<le> bit_cnt b"
    and "bit_run b i cnt v"
    and "\<forall>j < bit_cnt b. bit_at b' j = (if j \<in> {i ..< i + cnt} then \<not> v else bit_at b j)"
proof (rule bitmap_scan_and_flip_abs[OF assms(1,2), of cnt v])
  fix r b' assume r: "bitmap_scan_and_flip b start cnt v = Some (b', r)" "bitmap_wf b'"
    "bit_cnt b' = bit_cnt b" "r \<noteq> BITMAP_ERROR \<Longrightarrow> first_run b start cnt v r"
    "r \<noteq> BITMAP_ERROR \<Longrightarrow> bitmap_abs b' = take r (bitmap_abs b) @ replicate cnt (\<not> v) @
       drop (r + cnt) (bitmap_abs b)"
    "r = BITMAP_ERROR \<Longrightarrow> no_run b start cnt v \<and> b' = b"
  have ne: "r \<noteq> BITMAP_ERROR" using r(6) assms(3) by blast
  then have fr: "start \<le> r" "r + cnt \<le> bit_cnt b" "bit_run b r cnt v"
    using r(4) by (simp_all add: first_run_def)
  show thesis
    by (rule that[OF r(1) ne r(2,3) fr]) (use bit_at_range[OF r(5)[OF ne] fr(2) r(3)] in auto)
qed

lemma bitmap_scan_and_flip_none:
  assumes "bitmap_wf b" and "start \<le> bit_cnt b" and "no_run b start cnt v"
  shows "bitmap_scan_and_flip b start cnt v = Some (b, BITMAP_ERROR)"
proof (rule bitmap_scan_and_flip_abs[OF assms(1,2), of cnt v])
  fix r b' assume r: "bitmap_scan_and_flip b start cnt v = Some (b', r)"
    "r \<noteq> BITMAP_ERROR \<Longrightarrow> first_run b start cnt v r" "r = BITMAP_ERROR \<Longrightarrow> no_run b start cnt v \<and> b' = b"
  have "\<not> first_run b start cnt v r" using assms(3) by (auto simp: first_run_def no_run_def)
  with r(2) have "r = BITMAP_ERROR" by blast
  with r(1,3) show ?thesis by simp
qed

subsection \<open>The contract of a range allocator\<close>

text \<open>
  The page allocator, the swap partition and the free map of the file system all hand out
  ranges of a fixed number of units and keep a bitmap of the units in use. Their common contract
  is this interface: \<open>alloc\<close> either changes nothing or marks a range that was free, \<open>release\<close>
  frees a range that is in use. The lemmas below follow from it: the ranges handed out and not
  yet released never overlap.
\<close>

definition ranges_disjoint :: "nat \<times> nat \<Rightarrow> nat \<times> nat \<Rightarrow> bool" where
  "ranges_disjoint p q \<longleftrightarrow>
     {fst p ..< fst p + snd p} \<inter> {fst q ..< fst q + snd q} = {}"

lemma ranges_disjoint_sym: "ranges_disjoint p q \<longleftrightarrow> ranges_disjoint q p"
  by (simp add: ranges_disjoint_def Int_commute)

datatype range_op = Get nat | Put nat

text \<open>A client that asks for \<open>n\<close> units (\<open>Get n\<close>) or gives back the \<open>k\<close>-th range it holds (\<open>Put k\<close>).\<close>

fun range_client :: "('s \<Rightarrow> nat \<Rightarrow> ('s \<times> nat option) option) \<Rightarrow> ('s \<Rightarrow> nat \<Rightarrow> nat \<Rightarrow> 's option) \<Rightarrow>
    's \<Rightarrow> (nat \<times> nat) list \<Rightarrow> range_op list \<Rightarrow> ('s \<times> (nat \<times> nat) list) option" where
  "range_client alloc release s L [] = Some (s, L)"
| "range_client alloc release s L (Get n # ops) = do {
     (s, r) \<leftarrow> alloc s n;
     range_client alloc release s (case r of None \<Rightarrow> L | Some i \<Rightarrow> (i, n) # L) ops
   }"
| "range_client alloc release s L (Put k # ops) =
     (if k < length L then do {
        s \<leftarrow> release s (fst (L ! k)) (snd (L ! k));
        range_client alloc release s (take k L @ drop (Suc k) L) ops
      } else range_client alloc release s L ops)"

locale range_allocator =
  fixes ok :: "'s \<Rightarrow> bool"
    and units :: "'s \<Rightarrow> nat"
    and used :: "'s \<Rightarrow> nat \<Rightarrow> bool"
    and alloc :: "'s \<Rightarrow> nat \<Rightarrow> ('s \<times> nat option) option"
    and release :: "'s \<Rightarrow> nat \<Rightarrow> nat \<Rightarrow> 's option"
  assumes alloc_law: "ok s \<Longrightarrow> \<exists>s' r. alloc s n = Some (s', r) \<and> ok s' \<and> units s' = units s \<and>
        (case r of None \<Rightarrow> (\<forall>j < units s. used s' j = used s j)
         | Some i \<Rightarrow> i + n \<le> units s \<and>
             (\<forall>j < units s. used s' j = (used s j \<or> j \<in> {i ..< i + n})) \<and>
             (\<forall>j \<in> {i ..< i + n}. \<not> used s j))"
    and release_law: "ok s \<Longrightarrow> i + n \<le> units s \<Longrightarrow> (\<forall>j \<in> {i ..< i + n}. used s j) \<Longrightarrow>
        \<exists>s'. release s i n = Some s' \<and> ok s' \<and> units s' = units s \<and>
          (\<forall>j < units s. used s' j = (used s j \<and> j \<notin> {i ..< i + n}))"
begin

text \<open>\<open>owns s L\<close>: the ranges of \<open>L\<close> are in use and pairwise disjoint.\<close>

definition owns :: "'s \<Rightarrow> (nat \<times> nat) list \<Rightarrow> bool" where
  "owns s L \<longleftrightarrow> (\<forall>(i, n) \<in> set L. i + n \<le> units s \<and> (\<forall>j \<in> {i ..< i + n}. used s j)) \<and>
     sorted_wrt ranges_disjoint L"

lemma owns_Nil: "owns s []"
  by (simp add: owns_def)

lemma alloc_owns:
  assumes "ok s" and "owns s L"
  shows "\<exists>s' r. alloc s n = Some (s', r) \<and> ok s' \<and> units s' = units s \<and>
           owns s' (case r of None \<Rightarrow> L | Some i \<Rightarrow> (i, n) # L)"
proof -
  obtain s' r where a: "alloc s n = Some (s', r)" "ok s'" "units s' = units s"
    and c: "case r of None \<Rightarrow> (\<forall>j < units s. used s' j = used s j)
         | Some i \<Rightarrow> i + n \<le> units s \<and>
             (\<forall>j < units s. used s' j = (used s j \<or> j \<in> {i ..< i + n})) \<and>
             (\<forall>j \<in> {i ..< i + n}. \<not> used s j)"
    using alloc_law[OF assms(1)] by blast
  have keep: "owns s' L"
    using assms(2) a(3) c unfolding owns_def by (cases r) (auto split: prod.splits)
  show ?thesis
  proof (cases r)
    case (Some i)
    have "ranges_disjoint (i, n) p" if "p \<in> set L" for p
      using that assms(2) c Some unfolding owns_def ranges_disjoint_def by fastforce
    moreover have "\<forall>j \<in> {i ..< i + n}. used s' j" "i + n \<le> units s'" using c a(3) Some by auto
    ultimately have "owns s' ((i, n) # L)" using keep unfolding owns_def by auto
    with a Some show ?thesis by auto
  qed (use a keep in auto)
qed

lemma release_owns:
  assumes "ok s" and "owns s ((i, n) # L)"
  shows "\<exists>s'. release s i n = Some s' \<and> ok s' \<and> units s' = units s \<and> owns s' L"
proof -
  obtain s' where s': "release s i n = Some s'" "ok s'" "units s' = units s"
    "\<forall>j < units s. used s' j = (used s j \<and> j \<notin> {i ..< i + n})"
    using release_law[OF assms(1), of i n] assms(2) unfolding owns_def by auto
  have "owns s' L"
    unfolding owns_def
  proof (intro conjI ballI)
    fix p assume p: "p \<in> set L"
    obtain k m where km: "p = (k, m)" by (cases p)
    have "{i ..< i + n} \<inter> {k ..< k + m} = {}" "k + m \<le> units s" "\<forall>j \<in> {k ..< k + m}. used s j"
      using assms(2) p km unfolding owns_def ranges_disjoint_def by auto
    with s'(3,4) have "k + m \<le> units s' \<and> (\<forall>j \<in> {k ..< k + m}. used s' j)" by fastforce
    then show "case p of (i, n) \<Rightarrow> i + n \<le> units s' \<and> (\<forall>j \<in> {i ..< i + n}. used s' j)"
      by (simp add: km)
  qed (use assms(2) in \<open>auto simp: owns_def\<close>)
  with s' show ?thesis by blast
qed

lemma owns_move: "owns s (xs @ p # ys) = owns s (p # xs @ ys)"
  using ranges_disjoint_sym[of p] by (simp add: owns_def sorted_wrt_append) blast

lemma range_client_owns:
  assumes "ok s" and "owns s L"
  shows "\<exists>s' L'. range_client alloc release s L ops = Some (s', L') \<and> ok s' \<and>
           units s' = units s \<and> owns s' L'"
  using assms
proof (induction ops arbitrary: s L)
  case (Cons op ops)
  show ?case
  proof (cases op)
    case (Get n)
    obtain s1 r where s1: "alloc s n = Some (s1, r)" "ok s1" "units s1 = units s"
      "owns s1 (case r of None \<Rightarrow> L | Some i \<Rightarrow> (i, n) # L)"
      using alloc_owns[OF Cons.prems, of n] by blast
    with Cons.IH[OF s1(2,4)] Get show ?thesis by simp
  next
    case (Put k)
    show ?thesis
    proof (cases "k < length L")
      case True
      then have "owns s (L ! k # take k L @ drop (Suc k) L)"
        using Cons.prems(2) owns_move id_take_nth_drop[OF True] by metis
      then obtain s1 where s1: "release s (fst (L ! k)) (snd (L ! k)) = Some s1" "ok s1"
        "units s1 = units s" "owns s1 (take k L @ drop (Suc k) L)"
        using release_owns[OF Cons.prems(1), of "fst (L ! k)" "snd (L ! k)"] by auto
      with Cons.IH[OF s1(2,4)] Put True show ?thesis by simp
    qed (use Cons Put in auto)
  qed
qed simp

end

subsection \<open>Properties\<close>


text \<open>C24. \<open>bitmap_set_multiple\<close> accepts exactly the ranges inside the bitmap, also when the sum
  \<open>start + cnt\<close> wraps around in 32 bits; then it sets the bits of the range and no other bit, as
  seen by \<open>bitmap_test\<close>, \<open>bitmap_all\<close> and \<open>bitmap_count\<close>.\<close>

theorem bitmap_set_multiple_exact:
  assumes "bitmap_wf b"
  shows "if start + cnt \<le> bit_cnt b
         then \<exists>b'. bitmap_set_multiple b start cnt v = Some b' \<and> bitmap_wf b' \<and>
                bit_cnt b' = bit_cnt b \<and> bitmap_count b' start cnt v = Some cnt \<and>
                (\<forall>j < bit_cnt b. bitmap_test b' j =
                   (if start \<le> j \<and> j < start + cnt then Some v else bitmap_test b j))
         else bitmap_set_multiple b start cnt v = None"
proof (cases "start + cnt \<le> bit_cnt b")
  case True
  obtain b' where b': "bitmap_set_multiple b start cnt v = Some b'" "bitmap_wf b'"
    "bit_cnt b' = bit_cnt b" "bitmap_abs b' = take start (bitmap_abs b) @ replicate cnt v @
       drop (start + cnt) (bitmap_abs b)"
    using bitmap_set_multiple_abs[OF assms True] by metis
  note at = bit_at_range[OF b'(4) True b'(3)]
  have "filter (\<lambda>j. bit_at b' j = v) [start ..< start + cnt] = [start ..< start + cnt]"
    using True by (intro filter_True) (auto simp: at)
  then have "bitmap_count b' start cnt v = Some cnt"
    using bitmap_count_abs[OF b'(2), of start cnt v] True b'(3) by simp
  moreover have "bitmap_test b' j = (if start \<le> j \<and> j < start + cnt then Some v else bitmap_test b j)"
    if "j < bit_cnt b" for j
    using that bitmap_test_abs[OF b'(2), of j] bitmap_test_abs[OF assms that] at[OF that] b'(3)
    by simp
  ultimately show ?thesis using True b' by auto
next
  case False
  with bitmap_set_multiple_past_end[OF assms, of start cnt v] show ?thesis by simp
qed

definition ex_bitmap :: bitmap where
  "ex_bitmap = \<lparr>bit_cnt = 40, bits = [0xF0F, 0]\<rparr>"

lemma ex_bitmap_wf: "bitmap_wf ex_bitmap"
  by (simp add: bitmap_wf_def ex_bitmap_def ELEM_BITS_def)


theorem bitmap_set_multiple_exact_witness:
  "(\<exists>b'. bitmap_set_multiple ex_bitmap 30 4 True = Some b' \<and> bitmap_count b' 30 4 True = Some 4) \<and>
   bitmap_set_multiple ex_bitmap 1 (2 ^ 32 - 1) True = None"
  using bitmap_set_multiple_exact[OF ex_bitmap_wf, of 30 4 True]
    bitmap_set_multiple_exact[OF ex_bitmap_wf, of 1 "2 ^ 32 - 1" True]
  by (auto simp: ex_bitmap_def)

end
