(* ===== verification/Pintos_Hash.thy ===== *)
theory Pintos_Hash
  imports Pintos_Prelude
begin

section \<open>Hash tables (lib/kernel/hash.c)\<close>

text \<open>
  A hash table is an array of buckets, each a list of elements. The lists of the buckets are taken
  at the level at which list.c is verified: \<open>list_push_front\<close> is \<open>Cons\<close>, a scan from \<open>list_begin\<close> to
  \<open>list_end\<close> visits the elements in order, and \<open>list_remove\<close> takes an element out of the bucket
  that holds it. Whether the allocation of a new bucket array succeeds is the argument \<open>mem\<close> of the
  operations that may change the number of buckets. The search for that number is a loop on
  \<open>size_t\<close> values that is shown to end.
\<close>

unbundle bit_operations_syntax

subsection \<open>Data and operations\<close>

record 'a hash =
  h_elem_cnt :: nat
  h_bucket_cnt :: nat
  h_buckets :: "'a list list"
  h_hash :: "'a \<Rightarrow> u32"
  h_less :: "'a \<Rightarrow> 'a \<Rightarrow> bool"

definition find_bucket :: "'a hash \<Rightarrow> 'a \<Rightarrow> nat" where
  "find_bucket h e = unat (h_hash h e) AND (h_bucket_cnt h - 1)"

fun find_elem :: "'a hash \<Rightarrow> 'a list \<Rightarrow> 'a \<Rightarrow> 'a option" where
  "find_elem h [] e = None"
| "find_elem h (hi # bucket) e =
     (if \<not> h_less h hi e \<and> \<not> h_less h e hi then Some hi else find_elem h bucket e)"

definition turn_off_least_1bit :: "nat \<Rightarrow> nat" where
  "turn_off_least_1bit x = x AND (x - 1)"

definition is_power_of_2 :: "nat \<Rightarrow> bool" where
  "is_power_of_2 x \<longleftrightarrow> x \<noteq> 0 \<and> turn_off_least_1bit x = 0"

partial_function (option) new_bucket_cnt_loop :: "nat \<Rightarrow> nat option" where
  "new_bucket_cnt_loop n =
     (if \<not> is_power_of_2 n then new_bucket_cnt_loop (turn_off_least_1bit n) else Some n)"

definition push_bucket :: "'a hash \<Rightarrow> 'a \<Rightarrow> 'a hash" where
  "push_bucket h e = h\<lparr>h_buckets := (h_buckets h)[find_bucket h e := e # h_buckets h ! find_bucket h e]\<rparr>"

definition rehash :: "bool \<Rightarrow> 'a hash \<Rightarrow> 'a hash option" where
  "rehash mem h = do {
     let old_buckets = h_buckets h;
     let old_bucket_cnt = h_bucket_cnt h;
     let n = h_elem_cnt h div 2;
     let n = (if n < 4 then 4 else n);
     n \<leftarrow> new_bucket_cnt_loop n;
     if n = old_bucket_cnt then Some h
     else if \<not> mem then Some h
     else do {
       let h = h\<lparr>h_buckets := replicate n [], h_bucket_cnt := n\<rparr>;
       Some (fold (\<lambda>i h. fold (\<lambda>e h. push_bucket h e) (old_buckets ! i) h) [0 ..< old_bucket_cnt] h)
     }
   }"

definition insert_elem :: "'a hash \<Rightarrow> nat \<Rightarrow> 'a \<Rightarrow> 'a hash" where
  "insert_elem h bucket e =
     h\<lparr>h_elem_cnt := h_elem_cnt h + 1,
       h_buckets := (h_buckets h)[bucket := e # h_buckets h ! bucket]\<rparr>"

definition remove_elem :: "'a hash \<Rightarrow> 'a \<Rightarrow> 'a hash" where
  "remove_elem h e =
     h\<lparr>h_elem_cnt := h_elem_cnt h - 1, h_buckets := map (remove1 e) (h_buckets h)\<rparr>"

text \<open>With a destructor, \<open>hash_clear\<close> pops every element and hands it over; the model returns the
  elements in the order of those calls.\<close>

definition hash_clear :: "'a hash \<Rightarrow> bool \<Rightarrow> 'a hash \<times> 'a list" where
  "hash_clear h destructor =
     (let calls = (if destructor then concat (map (\<lambda>i. h_buckets h ! i) [0 ..< h_bucket_cnt h]) else []);
          bs = fold (\<lambda>i bs. bs[i := []]) [0 ..< h_bucket_cnt h] (h_buckets h)
      in (h\<lparr>h_buckets := bs, h_elem_cnt := 0\<rparr>, calls))"

text \<open>\<open>m\<close> is the array that \<open>malloc\<close> returns, with whatever lists its memory spells.\<close>

definition hash_init ::
  "(nat \<Rightarrow> 'a list list option) \<Rightarrow> ('a \<Rightarrow> u32) \<Rightarrow> ('a \<Rightarrow> 'a \<Rightarrow> bool) \<Rightarrow> 'a hash option" where
  "hash_init m hash_f less_f =
     (case m 4 of
        Some bs \<Rightarrow> Some (fst (hash_clear
          \<lparr>h_elem_cnt = 0, h_bucket_cnt = 4, h_buckets = bs, h_hash = hash_f, h_less = less_f\<rparr> False))
      | None \<Rightarrow> None)"

definition hash_insert :: "bool \<Rightarrow> 'a hash \<Rightarrow> 'a \<Rightarrow> ('a hash \<times> 'a option) option" where
  "hash_insert mem h new = do {
     let bucket = find_bucket h new;
     let old = find_elem h (h_buckets h ! bucket) new;
     let h = (if old = None then insert_elem h bucket new else h);
     h \<leftarrow> rehash mem h;
     Some (h, old)
   }"

definition hash_replace :: "bool \<Rightarrow> 'a hash \<Rightarrow> 'a \<Rightarrow> ('a hash \<times> 'a option) option" where
  "hash_replace mem h new = do {
     let bucket = find_bucket h new;
     let old = find_elem h (h_buckets h ! bucket) new;
     let h = (case old of Some x \<Rightarrow> remove_elem h x | None \<Rightarrow> h);
     let h = insert_elem h bucket new;
     h \<leftarrow> rehash mem h;
     Some (h, old)
   }"

definition hash_find :: "'a hash \<Rightarrow> 'a \<Rightarrow> 'a option" where
  "hash_find h e = find_elem h (h_buckets h ! find_bucket h e) e"

definition hash_delete :: "bool \<Rightarrow> 'a hash \<Rightarrow> 'a \<Rightarrow> ('a hash \<times> 'a option) option" where
  "hash_delete mem h e =
     (let found = find_elem h (h_buckets h ! find_bucket h e) e in
      case found of
        Some x \<Rightarrow> do { h \<leftarrow> rehash mem (remove_elem h x); Some (h, found) }
      | None \<Rightarrow> Some (h, found))"

definition hash_apply :: "'a hash \<Rightarrow> ('a \<Rightarrow> 's \<Rightarrow> 's) \<Rightarrow> 's \<Rightarrow> 's" where
  "hash_apply h action s =
     fold (\<lambda>i s. fold action (h_buckets h ! i) s) [0 ..< h_bucket_cnt h] s"

text \<open>An iterator points to a bucket and into its list: position 0 is the head, position \<open>k + 1\<close> the
  element \<open>k\<close>, and the position behind the last element is the tail.\<close>

record hash_iterator =
  i_bucket :: nat
  i_elem :: "nat option"

definition hash_first :: "'a hash \<Rightarrow> hash_iterator" where
  "hash_first h = \<lparr>i_bucket = 0, i_elem = Some 0\<rparr>"

definition hash_cur :: "'a hash \<Rightarrow> hash_iterator \<Rightarrow> 'a option" where
  "hash_cur h i = map_option (\<lambda>p. h_buckets h ! i_bucket i ! (p - 1)) (i_elem i)"

function hash_next_loop :: "'a hash \<Rightarrow> nat \<Rightarrow> nat \<Rightarrow> hash_iterator" where
  "hash_next_loop h b p =
     (if p = length (h_buckets h ! b) + 1 then
        if b + 1 \<ge> h_bucket_cnt h then \<lparr>i_bucket = b + 1, i_elem = None\<rparr>
        else hash_next_loop h (b + 1) 1
      else \<lparr>i_bucket = b, i_elem = Some p\<rparr>)"
  by pat_completeness auto
termination by (relation "measure (\<lambda>(h, b, p). h_bucket_cnt h - b)") auto

definition hash_next :: "'a hash \<Rightarrow> hash_iterator \<Rightarrow> (hash_iterator \<times> 'a option) option" where
  "hash_next h i = do {
     p \<leftarrow> i_elem i;
     ASSERT (p \<le> length (h_buckets h ! i_bucket i));
     let i = hash_next_loop h (i_bucket i) (p + 1);
     Some (i, hash_cur h i)
   }"

definition hash_size :: "'a hash \<Rightarrow> nat" where
  "hash_size h = h_elem_cnt h"

definition hash_empty :: "'a hash \<Rightarrow> bool" where
  "hash_empty h \<longleftrightarrow> h_elem_cnt h = 0"

definition FNV_32_PRIME :: u32 where
  "FNV_32_PRIME = 16777619"

definition FNV_32_BASIS :: u32 where
  "FNV_32_BASIS = 2166136261"

definition hash_bytes :: "u8 list \<Rightarrow> u32" where
  "hash_bytes buf = fold (\<lambda>c h. (h * FNV_32_PRIME) XOR ucast c) buf FNV_32_BASIS"

fun hash_string_loop :: "u8 list \<Rightarrow> u32 \<Rightarrow> u32 option" where
  "hash_string_loop [] h = None"
| "hash_string_loop (c # s) h =
     (if c \<noteq> 0 then hash_string_loop s ((h * FNV_32_PRIME) XOR ucast c) else Some h)"

definition hash_string :: "u8 list \<Rightarrow> u32 option" where
  "hash_string s = hash_string_loop s FNV_32_BASIS"

definition hash_int :: "u32 \<Rightarrow> u32" where
  "hash_int i = hash_bytes (map (\<lambda>k. ucast (drop_bit (8 * k) i)) [0, 1, 2, 3])"

declare hash_next_loop.simps [simp del]

subsection \<open>The number of buckets\<close>

lemma turn_off_odd: "turn_off_least_1bit (2 * y + 1) = 2 * y"
  by (simp add: turn_off_least_1bit_def and_nat_rec)

lemma turn_off_even: "0 < y \<Longrightarrow> turn_off_least_1bit (2 * y) = 2 * turn_off_least_1bit y"
proof -
  assume "0 < y"
  then have "2 * y - 1 = 2 * (y - 1) + 1" by simp
  then show ?thesis by (simp add: turn_off_least_1bit_def and_nat_rec[of "2 * y"])
qed

lemma turn_off_less: "0 < x \<Longrightarrow> turn_off_least_1bit x < x"
proof (induction x rule: less_induct)
  case (less x)
  show ?case
  proof (cases "even x")
    case True
    then obtain y where y: "x = 2 * y" by blast
    with less show ?thesis by (simp add: turn_off_even)
  next
    case False
    then obtain y where "x = 2 * y + 1" by (rule oddE)
    then show ?thesis by (simp only: turn_off_odd)
  qed
qed

lemma turn_off_lower: "2 ^ k \<le> x \<Longrightarrow> x \<noteq> 2 ^ k \<Longrightarrow> x < 2 ^ (k + 1) \<Longrightarrow> 2 ^ k \<le> turn_off_least_1bit x"
proof (induction k arbitrary: x)
  case (Suc k)
  show ?case
  proof (cases "even x")
    case True
    then obtain y where y: "x = 2 * y" by blast
    with Suc.prems have "2 ^ k \<le> y" "y \<noteq> 2 ^ k" "y < 2 ^ (k + 1)" by auto
    with Suc.IH[of y] y show ?thesis
      by (cases "y = 0") (simp_all add: turn_off_even)
  next
    case False
    then obtain y where "x = 2 * y + 1" by (rule oddE)
    with Suc.prems(1) show ?thesis by (simp only: turn_off_odd) simp
  qed
qed simp

lemma turn_off_pow2: "turn_off_least_1bit (2 ^ k) = 0"
  by (induction k) (simp_all add: turn_off_even, simp add: turn_off_least_1bit_def)

lemma is_power_of_2_iff: "is_power_of_2 x \<longleftrightarrow> (\<exists>k. x = 2 ^ k)"
proof
  assume p: "is_power_of_2 x"
  then have "0 < x" by (simp add: is_power_of_2_def)
  then obtain k where k: "2 ^ k \<le> x" "x < 2 ^ (k + 1)"
    using ex_power_ivl1[of 2 x] by auto
  with p turn_off_lower[OF k(1) _ k(2)] show "\<exists>k. x = 2 ^ k"
    by (auto simp: is_power_of_2_def)
qed (auto simp: is_power_of_2_def turn_off_pow2)

lemma new_bucket_cnt_loop_pow2:
  assumes "2 ^ k \<le> x" and "x < 2 ^ (k + 1)"
  shows "new_bucket_cnt_loop x = Some (2 ^ k)"
  using assms
proof (induction x rule: less_induct)
  case (less x)
  show ?case
  proof (cases "x = 2 ^ k")
    case True
    then have "is_power_of_2 x" by (auto simp: is_power_of_2_iff)
    with True show ?thesis by (subst new_bucket_cnt_loop.simps) simp
  next
    case False
    have "\<not> is_power_of_2 x"
    proof
      assume "is_power_of_2 x"
      then obtain j where "x = 2 ^ j" by (auto simp: is_power_of_2_iff)
      with less.prems have "2 ^ k \<le> (2::nat) ^ j" "2 ^ j < (2::nat) ^ (k + 1)" by simp_all
      then have "k \<le> j" "j < k + 1"
        by (simp_all only: power_increasing_iff power_strict_increasing_iff one_less_numeral_iff
            semiring_norm)
      with False \<open>x = 2 ^ j\<close> show False by (simp add: le_antisym)
    qed
    moreover have "0 < x" using less.prems(1) by (cases x) simp_all
    then have "turn_off_least_1bit x < x" by (rule turn_off_less)
    moreover have "new_bucket_cnt_loop (turn_off_least_1bit x) = Some (2 ^ k)"
      using less.IH turn_off_lower[OF less.prems(1) False less.prems(2)] less.prems(2)
        \<open>turn_off_least_1bit x < x\<close> by simp
    ultimately show ?thesis by (subst new_bucket_cnt_loop.simps) simp
  qed
qed

lemma new_bucket_cnt_loop_returns:
  assumes "4 \<le> n"
  obtains k where "new_bucket_cnt_loop n = Some (2 ^ k)" and "2 ^ k \<le> n" and "n < 2 * 2 ^ k"
proof -
  obtain k where "2 ^ k \<le> n" "n < 2 ^ (k + 1)" using ex_power_ivl1[of 2 n] assms by auto
  with new_bucket_cnt_loop_pow2[of k n] that[of k] show thesis by simp
qed

subsection \<open>Well-formed tables\<close>

definition hash_elems :: "'a hash \<Rightarrow> 'a multiset" where
  "hash_elems h = mset (concat (h_buckets h))"

definition uniq_elems :: "('a \<Rightarrow> 'a \<Rightarrow> bool) \<Rightarrow> 'a multiset \<Rightarrow> bool" where
  "uniq_elems lessf M \<longleftrightarrow> (\<forall>e \<in># M. size (filter_mset (equiv_by lessf e) M) = 1)"

text \<open>The buckets agree with the number of buckets, which is a power of 2, and every element sits in
  the bucket that its hash value selects.\<close>

definition buckets_wf :: "'a hash \<Rightarrow> bool" where
  "buckets_wf h \<longleftrightarrow> is_power_of_2 (h_bucket_cnt h) \<and> length (h_buckets h) = h_bucket_cnt h \<and>
     (\<forall>i < h_bucket_cnt h. \<forall>e \<in> set (h_buckets h ! i). find_bucket h e = i)"

definition hash_wf :: "'a hash \<Rightarrow> bool" where
  "hash_wf h \<longleftrightarrow> buckets_wf h \<and> h_elem_cnt h = size (hash_elems h) \<and>
     uniq_elems (h_less h) (hash_elems h)"

lemma find_bucket_less: "buckets_wf h \<Longrightarrow> find_bucket h e < h_bucket_cnt h"
proof -
  assume "buckets_wf h"
  then obtain k where k: "h_bucket_cnt h = 2 ^ k" by (auto simp: buckets_wf_def is_power_of_2_iff)
  have "unat (h_hash h e) AND (2 ^ k - 1) = take_bit k (unat (h_hash h e))"
    by (simp add: take_bit_eq_mask mask_eq_exp_minus_1)
  then show ?thesis by (simp add: find_bucket_def k)
qed

lemma find_bucket_cong:
  "h_hash h' = h_hash h \<Longrightarrow> h_bucket_cnt h' = h_bucket_cnt h \<Longrightarrow> find_bucket h' = find_bucket h"
  by (simp add: find_bucket_def fun_eq_iff)

lemma in_hash_elems: "e \<in># hash_elems h \<longleftrightarrow> (\<exists>b \<in> set (h_buckets h). e \<in> set b)"
  by (auto simp: hash_elems_def)

lemma elem_in_its_bucket:
  assumes "buckets_wf h"
  shows "e \<in># hash_elems h \<longleftrightarrow> e \<in> set (h_buckets h ! find_bucket h e)"
proof
  assume "e \<in># hash_elems h"
  then obtain b where "b \<in> set (h_buckets h)" "e \<in> set b" by (auto simp: in_hash_elems)
  then obtain i where i: "i < length (h_buckets h)" "h_buckets h ! i = b" by (auto simp: in_set_conv_nth)
  with assms \<open>e \<in> set b\<close> have "find_bucket h e = i" by (simp add: buckets_wf_def)
  with i \<open>e \<in> set b\<close> show "e \<in> set (h_buckets h ! find_bucket h e)" by simp
next
  assume e: "e \<in> set (h_buckets h ! find_bucket h e)"
  have "h_buckets h ! find_bucket h e \<in> set (h_buckets h)"
    using find_bucket_less[OF assms, of e] assms by (simp add: buckets_wf_def)
  with e show "e \<in># hash_elems h" unfolding in_hash_elems by blast
qed

lemma mset_concat_update:
  assumes "i < length bs"
  shows "mset (concat (bs[i := e # bs ! i])) = add_mset e (mset (concat bs))"
  using assms
proof (induction bs arbitrary: i)
  case (Cons b bs)
  then show ?case by (cases i) auto
qed simp

lemma push_bucket_wf:
  assumes "buckets_wf h"
  shows "buckets_wf (push_bucket h e)" and "hash_elems (push_bucket h e) = add_mset e (hash_elems h)"
    and "h_less (push_bucket h e) = h_less h" and "h_hash (push_bucket h e) = h_hash h"
    and "h_elem_cnt (push_bucket h e) = h_elem_cnt h"
    and "h_bucket_cnt (push_bucket h e) = h_bucket_cnt h"
proof -
  have "find_bucket (push_bucket h e) = find_bucket h"
    by (rule find_bucket_cong) (simp_all add: push_bucket_def)
  then show "buckets_wf (push_bucket h e)"
    using assms find_bucket_less[OF assms, of e]
    by (auto simp: buckets_wf_def push_bucket_def nth_list_update)
  show "hash_elems (push_bucket h e) = add_mset e (hash_elems h)"
    using assms find_bucket_less[OF assms, of e]
    by (simp add: hash_elems_def push_bucket_def buckets_wf_def mset_concat_update)
qed (simp_all add: push_bucket_def)

lemma fold_push_bucket_wf:
  assumes "buckets_wf h"
  shows "buckets_wf (fold (\<lambda>e h. push_bucket h e) es h) \<and>
    hash_elems (fold (\<lambda>e h. push_bucket h e) es h) = mset es + hash_elems h \<and>
    h_less (fold (\<lambda>e h. push_bucket h e) es h) = h_less h \<and>
    h_hash (fold (\<lambda>e h. push_bucket h e) es h) = h_hash h \<and>
    h_elem_cnt (fold (\<lambda>e h. push_bucket h e) es h) = h_elem_cnt h"
  using assms
proof (induction es arbitrary: h)
  case (Cons e es)
  from Cons.IH[OF push_bucket_wf(1)[OF Cons.prems]] show ?case
    by (simp add: push_bucket_wf[OF Cons.prems])
qed simp

lemma fold_fold_concat: "fold (\<lambda>b s. fold f b s) bs s = fold f (concat bs) s"
  by (induction bs arbitrary: s) simp_all

lemma fold_index: "fold (\<lambda>i s. g (bs ! i) s) [0 ..< length bs] s = fold g bs s"
proof -
  have "fold g bs s = fold g (map (\<lambda>i. bs ! i) [0 ..< length bs]) s" by (simp add: map_nth)
  then show ?thesis by (simp only: fold_map comp_def)
qed

lemma rehash_wf:
  assumes "buckets_wf h"
  obtains h' where "rehash mem h = Some h'" and "buckets_wf h'" and "hash_elems h' = hash_elems h"
    and "h_less h' = h_less h" and "h_hash h' = h_hash h" and "h_elem_cnt h' = h_elem_cnt h"
proof -
  let ?n = "if h_elem_cnt h div 2 < 4 then 4 else h_elem_cnt h div 2"
  have "4 \<le> ?n" by simp
  then obtain k where k: "new_bucket_cnt_loop ?n = Some (2 ^ k)"
    by (rule new_bucket_cnt_loop_returns)
  let ?h0 = "h\<lparr>h_buckets := replicate (2 ^ k) [], h_bucket_cnt := 2 ^ k\<rparr>"
  have w: "buckets_wf ?h0" by (auto simp: buckets_wf_def is_power_of_2_iff)
  define bs where "bs = h_buckets h"
  have "length bs = h_bucket_cnt h" using assms by (simp add: buckets_wf_def bs_def)
  then have f: "fold (\<lambda>i h. fold (\<lambda>e h. push_bucket h e) (bs ! i) h) [0 ..< h_bucket_cnt h] ?h0
      = fold (\<lambda>e h. push_bucket h e) (concat bs) ?h0"
    using fold_index[of "\<lambda>b s. fold (\<lambda>e h. push_bucket h e) b s" bs ?h0]
    by (simp only: fold_fold_concat)
  show thesis
  proof (cases "2 ^ k = h_bucket_cnt h \<or> \<not> mem")
    case True
    with k have "rehash mem h = Some h" by (auto simp: rehash_def Let_def)
    with assms show thesis by (intro that[of h]) simp_all
  next
    case False
    have "hash_elems ?h0 = {#}" by (simp add: hash_elems_def)
    moreover have "rehash mem h = Some (fold (\<lambda>e h. push_bucket h e) (concat bs) ?h0)"
      using k False f by (simp add: rehash_def Let_def bs_def)
    ultimately show thesis
      using fold_push_bucket_wf[OF w, of "concat bs"]
      by (intro that[of "fold (\<lambda>e h. push_bucket h e) (concat bs) ?h0"])
        (simp_all add: hash_elems_def bs_def)
  qed
qed

lemma insert_elem_wf:
  assumes "buckets_wf h"
  shows "buckets_wf (insert_elem h (find_bucket h e) e)"
    and "hash_elems (insert_elem h (find_bucket h e) e) = add_mset e (hash_elems h)"
    and "h_less (insert_elem h (find_bucket h e) e) = h_less h"
    and "h_hash (insert_elem h (find_bucket h e) e) = h_hash h"
    and "h_elem_cnt (insert_elem h (find_bucket h e) e) = h_elem_cnt h + 1"
proof -
  have i: "insert_elem h (find_bucket h e) e = (push_bucket h e)\<lparr>h_elem_cnt := h_elem_cnt h + 1\<rparr>"
    by (simp add: insert_elem_def push_bucket_def)
  have f: "find_bucket ((push_bucket h e)\<lparr>h_elem_cnt := n\<rparr>) = find_bucket (push_bucket h e)" for n
    by (rule find_bucket_cong) simp_all
  show "buckets_wf (insert_elem h (find_bucket h e) e)"
    using push_bucket_wf(1)[OF assms, of e] by (simp add: i buckets_wf_def f)
  show "hash_elems (insert_elem h (find_bucket h e) e) = add_mset e (hash_elems h)"
    using push_bucket_wf(2)[OF assms, of e] by (simp add: i hash_elems_def)
qed (simp_all add: insert_elem_def)

lemma mset_concat_remove1:
  assumes "b \<in> set bs" and "e \<in> set b" and "sorted_wrt (\<lambda>b c. set b \<inter> set c = {}) bs"
  shows "mset (concat (map (remove1 e) bs)) = mset (concat bs) - {#e#}"
  using assms
proof (induction bs)
  case (Cons c bs)
  show ?case
  proof (cases "e \<in> set c")
    case True
    then have "\<forall>b \<in> set bs. e \<notin> set b" using Cons.prems(3) by auto
    then have "map (remove1 e) bs = bs" by (simp add: map_idI remove1_idem)
    with True show ?thesis by simp
  next
    case False
    with Cons.prems(1,2) have "b \<in> set bs" by auto
    with Cons.IH Cons.prems have m: "mset (concat (map (remove1 e) bs)) = mset (concat bs) - {#e#}"
      by simp
    have "e \<in># mset (concat bs)" using \<open>b \<in> set bs\<close> Cons.prems(2) by auto
    from diff_union_single_conv[OF this, of "mset c"] m False show ?thesis
      by (simp add: remove1_idem)
  qed
qed simp

lemma buckets_disjoint:
  assumes "buckets_wf h"
  shows "sorted_wrt (\<lambda>b c. set b \<inter> set c = {}) (h_buckets h)"
proof -
  have "set (h_buckets h ! i) \<inter> set (h_buckets h ! j) = {}" if "i < j" "j < h_bucket_cnt h" for i j
  proof (rule ccontr)
    assume "set (h_buckets h ! i) \<inter> set (h_buckets h ! j) \<noteq> {}"
    then obtain e where "e \<in> set (h_buckets h ! i)" "e \<in> set (h_buckets h ! j)" by blast
    moreover have "i < h_bucket_cnt h" using that by simp
    ultimately have "find_bucket h e = i" "find_bucket h e = j"
      using assms that(2) unfolding buckets_wf_def by blast+
    with that show False by simp
  qed
  with assms show ?thesis by (simp add: sorted_wrt_iff_nth_less buckets_wf_def)
qed

lemma remove_elem_wf:
  assumes "buckets_wf h" and "e \<in># hash_elems h"
  shows "buckets_wf (remove_elem h e)" and "hash_elems (remove_elem h e) = hash_elems h - {#e#}"
    and "h_less (remove_elem h e) = h_less h" and "h_hash (remove_elem h e) = h_hash h"
    and "h_elem_cnt (remove_elem h e) = h_elem_cnt h - 1"
    and "find_bucket (remove_elem h e) = find_bucket h"
proof -
  show f: "find_bucket (remove_elem h e) = find_bucket h"
    by (rule find_bucket_cong) (simp_all add: remove_elem_def)
  show "buckets_wf (remove_elem h e)"
    using assms(1) unfolding buckets_wf_def f
    by (simp add: remove_elem_def) (use notin_set_remove1 in fast)
  show "hash_elems (remove_elem h e) = hash_elems h - {#e#}"
    using mset_concat_remove1[OF _ _ buckets_disjoint[OF assms(1)]] assms(2)
    by (auto simp: hash_elems_def remove_elem_def)
qed (simp_all add: remove_elem_def)

subsection \<open>The contract of a hash function and its comparison\<close>

text \<open>
  A table relies on its two functions: the comparison is a strict weak order, and elements that it
  does not tell apart have the same hash value. Every table of the kernel interprets this
  interface with its own functions.
\<close>

locale hash_contract = strict_weak_order lessf for lessf :: "'a \<Rightarrow> 'a \<Rightarrow> bool" +
  fixes hash_f :: "'a \<Rightarrow> u32"
  assumes hash_equiv: "equiv_by lessf a b \<Longrightarrow> hash_f a = hash_f b"

text \<open>A table that compares and hashes by one key satisfies it.\<close>

lemma hash_contract_key:
  fixes key :: "'a \<Rightarrow> 'k :: linorder"
  shows "hash_contract (\<lambda>a b. key a < key b) (\<lambda>a. g (key a))"
  by (intro hash_contract.intro strict_weak_order_key hash_contract_axioms.intro)
    (metis equiv_by_def not_less_iff_gr_or_eq)

lemma find_elem_Some:
  "find_elem h b e = Some x \<Longrightarrow> x \<in> set b \<and> equiv_by (h_less h) x e"
  by (induction h b e rule: find_elem.induct) (auto simp: equiv_by_def split: if_splits)

lemma find_elem_None:
  "find_elem h b e = None \<longleftrightarrow> (\<forall>x \<in> set b. \<not> equiv_by (h_less h) x e)"
  by (induction h b e rule: find_elem.induct) (auto simp: equiv_by_def)

lemma uniq_elemsD:
  assumes "uniq_elems lessf M" and "x \<in># M" and "y \<in># M" and "equiv_by lessf x x"
    and "equiv_by lessf x y"
  shows "x = y"
proof (rule ccontr)
  assume "x \<noteq> y"
  let ?F = "filter_mset (equiv_by lessf x) M"
  have "x \<in># ?F" "y \<in># ?F" using assms by simp_all
  then have "add_mset x {#y#} \<subseteq># ?F" using \<open>x \<noteq> y\<close>
    by (simp add: insert_subset_eq_iff in_diff_count)
  then have "2 \<le> size ?F" using size_mset_mono by fastforce
  with assms(1,2) show False by (simp add: uniq_elems_def)
qed

context hash_contract
begin

lemma find_iff:
  assumes "hash_wf h" and "h_less h = lessf" and "h_hash h = hash_f"
  shows "hash_find h e = Some x \<longleftrightarrow> x \<in># hash_elems h \<and> equiv_by lessf x e"
proof -
  have b: "buckets_wf h" and u: "uniq_elems lessf (hash_elems h)"
    using assms(1,2) by (auto simp: hash_wf_def)
  have same: "find_bucket h y = find_bucket h e" if "equiv_by lessf y e" for y
    using hash_equiv[OF that] assms(3) by (simp add: find_bucket_def)
  have 1: "y \<in># hash_elems h \<and> equiv_by lessf y e" if "hash_find h e = Some y" for y
    using find_elem_Some[OF that[unfolded hash_find_def]] same[of y] elem_in_its_bucket[OF b, of y]
    by (simp add: assms(2))
  show ?thesis
  proof
    assume x: "x \<in># hash_elems h \<and> equiv_by lessf x e"
    then have "x \<in> set (h_buckets h ! find_bucket h e)"
      using same[of x] elem_in_its_bucket[OF b, of x] by simp
    with x obtain y where y: "hash_find h e = Some y"
      using find_elem_None[of h "h_buckets h ! find_bucket h e" e]
      by (cases "hash_find h e") (auto simp: hash_find_def assms(2))
    with 1[of y] x have "equiv_by lessf x y" using equiv_sym equiv_trans by blast
    with uniq_elemsD[OF u, of x y] x 1[OF y] equiv_refl[of x] y show "hash_find h e = Some x" by simp
  qed (use 1 in blast)
qed

lemma find_None_iff:
  assumes "hash_wf h" and "h_less h = lessf" and "h_hash h = hash_f"
  shows "hash_find h e = None \<longleftrightarrow> (\<forall>x \<in># hash_elems h. \<not> equiv_by lessf x e)"
  using find_iff[OF assms, of e] by (cases "hash_find h e") auto

text \<open>What a table answers depends only on the elements it holds.\<close>

lemma find_eqI:
  assumes "hash_wf h" and "h_less h = lessf" and "h_hash h = hash_f"
    and "\<And>x. x \<in># hash_elems h \<and> equiv_by lessf x e \<longleftrightarrow> r = Some x"
  shows "hash_find h e = r"
  using find_iff[OF assms(1-3), of e] assms(4) by (cases r; cases "hash_find h e") auto

lemma uniq_add:
  assumes "uniq_elems lessf M" and "\<And>x. x \<in># M \<Longrightarrow> \<not> equiv_by lessf x e"
  shows "uniq_elems lessf (add_mset e M)"
proof -
  have "filter_mset (equiv_by lessf e) M = {#}"
    by (rule multiset_eqI) (use assms(2) equiv_sym in \<open>auto simp: not_in_iff[symmetric]\<close>)
  with assms show ?thesis by (auto simp: uniq_elems_def equiv_refl)
qed

lemma uniq_remove:
  assumes "uniq_elems lessf M"
  shows "uniq_elems lessf (M - {#e#})"
  unfolding uniq_elems_def
proof
  fix x assume x: "x \<in># M - {#e#}"
  have "size (filter_mset (equiv_by lessf x) (M - {#e#})) \<le> size (filter_mset (equiv_by lessf x) M)"
    by (intro size_mset_mono multiset_filter_mono) simp
  moreover have "size (filter_mset (equiv_by lessf x) M) = 1"
    using assms in_diffD[OF x] by (simp add: uniq_elems_def)
  moreover have "x \<in># filter_mset (equiv_by lessf x) (M - {#e#})"
    using x equiv_refl[of x] unfolding set_mset_filter by blast
  then have "size (filter_mset (equiv_by lessf x) (M - {#e#})) \<noteq> 0" by auto
  ultimately show "size (filter_mset (equiv_by lessf x) (M - {#e#})) = 1" by linarith
qed

lemma rehash_keeps:
  assumes "buckets_wf h" and "h_elem_cnt h = size (hash_elems h)"
    and "uniq_elems lessf (hash_elems h)" and "h_less h = lessf" and "h_hash h = hash_f"
  obtains h' where "rehash mem h = Some h'" and "hash_wf h'" and "hash_elems h' = hash_elems h"
    and "h_less h' = lessf" and "h_hash h' = hash_f"
proof -
  obtain h' where h': "rehash mem h = Some h'" "buckets_wf h'" "hash_elems h' = hash_elems h"
    "h_less h' = h_less h" "h_hash h' = h_hash h" "h_elem_cnt h' = h_elem_cnt h"
    by (rule rehash_wf[OF assms(1)])
  with assms show thesis by (intro that[of h']) (simp_all add: hash_wf_def)
qed

lemma insert_keeps:
  assumes "hash_wf h" and "h_less h = lessf" and "h_hash h = hash_f"
  obtains h' where "hash_insert mem h new = Some (h', hash_find h new)" and "hash_wf h'"
    and "h_less h' = lessf" and "h_hash h' = hash_f"
    and "hash_elems h' = (if hash_find h new = None then add_mset new (hash_elems h) else hash_elems h)"
proof -
  have b: "buckets_wf h" and c: "h_elem_cnt h = size (hash_elems h)"
    and u: "uniq_elems lessf (hash_elems h)" using assms by (auto simp: hash_wf_def)
  let ?h1 = "if hash_find h new = None then insert_elem h (find_bucket h new) new else h"
  have u1: "uniq_elems lessf (hash_elems ?h1)"
    using u uniq_add[OF u, of new] find_None_iff[OF assms, of new]
    by (auto simp: insert_elem_wf(2)[OF b])
  obtain h' where h': "rehash mem ?h1 = Some h'" "hash_wf h'" "hash_elems h' = hash_elems ?h1"
    "h_less h' = lessf" "h_hash h' = hash_f"
    by (rule rehash_keeps[of ?h1 mem]) (use b c u1 assms insert_elem_wf[OF b, of new] in auto)
  have "hash_insert mem h new = Some (h', hash_find h new)"
    using h'(1) by (auto simp: hash_insert_def hash_find_def Let_def)
  with h' show thesis by (intro that[of h']) (simp_all add: insert_elem_wf(2)[OF b])
qed

lemma delete_keeps:
  assumes "hash_wf h" and "h_less h = lessf" and "h_hash h = hash_f"
  obtains h' where "hash_delete mem h e = Some (h', hash_find h e)" and "hash_wf h'"
    and "h_less h' = lessf" and "h_hash h' = hash_f"
    and "hash_elems h' = (case hash_find h e of Some x \<Rightarrow> hash_elems h - {#x#} | None \<Rightarrow> hash_elems h)"
proof (cases "hash_find h e")
  case None
  with assms show thesis by (intro that[of h]) (simp_all add: hash_delete_def hash_find_def)
next
  case (Some x)
  have b: "buckets_wf h" and c: "h_elem_cnt h = size (hash_elems h)"
    and u: "uniq_elems lessf (hash_elems h)" using assms by (auto simp: hash_wf_def)
  have x: "x \<in># hash_elems h" using find_iff[OF assms] Some by blast
  note r = remove_elem_wf[OF b x]
  obtain h' where h': "rehash mem (remove_elem h x) = Some h'" "hash_wf h'"
    "hash_elems h' = hash_elems (remove_elem h x)" "h_less h' = lessf" "h_hash h' = hash_f"
    by (rule rehash_keeps[of "remove_elem h x" mem])
      (use r c x uniq_remove[OF u] assms in \<open>auto simp: size_Diff_singleton\<close>)
  have "hash_delete mem h e = Some (h', hash_find h e)"
    using h'(1) Some by (simp add: hash_delete_def hash_find_def)
  with h' r Some show thesis by (intro that[of h']) simp_all
qed

lemma replace_keeps:
  assumes "hash_wf h" and "h_less h = lessf" and "h_hash h = hash_f"
  obtains h' where "hash_replace mem h new = Some (h', hash_find h new)" and "hash_wf h'"
    and "h_less h' = lessf" and "h_hash h' = hash_f"
    and "hash_elems h' = add_mset new
           (case hash_find h new of Some x \<Rightarrow> hash_elems h - {#x#} | None \<Rightarrow> hash_elems h)"
proof -
  have b: "buckets_wf h" and c: "h_elem_cnt h = size (hash_elems h)"
    and u: "uniq_elems lessf (hash_elems h)" using assms by (auto simp: hash_wf_def)
  let ?M = "case hash_find h new of Some x \<Rightarrow> hash_elems h - {#x#} | None \<Rightarrow> hash_elems h"
  define h1 where "h1 = (case hash_find h new of Some x \<Rightarrow> remove_elem h x | None \<Rightarrow> h)"
  have x: "x \<in># hash_elems h" if "hash_find h new = Some x" for x
    using find_iff[OF assms] that by blast
  have h1: "buckets_wf h1" "hash_elems h1 = ?M" "h_less h1 = lessf" "h_hash h1 = hash_f"
    "h_elem_cnt h1 = size ?M" "find_bucket h1 = find_bucket h"
    using b c assms remove_elem_wf[OF b x]
    by (auto simp: h1_def size_Diff_singleton x split: option.splits)
  have n: "\<not> equiv_by lessf y new" if y: "y \<in># ?M" for y
  proof
    assume e: "equiv_by lessf y new"
    have "y \<in># hash_elems h" using y by (auto split: option.splits dest: in_diffD)
    with e have "hash_find h new = Some y" using find_iff[OF assms] by blast
    with y have "y \<in># hash_elems h - {#y#}" by simp
    then have "2 \<le> count (hash_elems h) y" by (auto simp: in_diff_count)
    then have "2 \<le> count (filter_mset (equiv_by lessf y) (hash_elems h)) y" using equiv_refl by simp
    then have "2 \<le> size (filter_mset (equiv_by lessf y) (hash_elems h))"
      using count_le_size[of "filter_mset (equiv_by lessf y) (hash_elems h)" y] by linarith
    with u \<open>y \<in># hash_elems h\<close> show False by (simp add: uniq_elems_def)
  qed
  have "uniq_elems lessf ?M" using u uniq_remove[OF u] by (auto split: option.splits)
  from uniq_add[OF this n] have u1: "uniq_elems lessf (add_mset new ?M)" by blast
  let ?h2 = "insert_elem h1 (find_bucket h new) new"
  have h2: "buckets_wf ?h2" "hash_elems ?h2 = add_mset new ?M" "h_less ?h2 = lessf"
    "h_hash ?h2 = hash_f" "h_elem_cnt ?h2 = size (add_mset new ?M)"
    using insert_elem_wf[OF h1(1), of new] h1 by simp_all
  obtain h' where h': "rehash mem ?h2 = Some h'" "hash_wf h'" "hash_elems h' = hash_elems ?h2"
    "h_less h' = lessf" "h_hash h' = hash_f"
    by (rule rehash_keeps[of ?h2 mem]) (use h2 u1 in simp_all)
  have "hash_replace mem h new = Some (h', hash_find h new)"
    using h'(1) by (simp add: hash_replace_def hash_find_def Let_def h1_def)
  with h' h2 show thesis by (intro that[of h']) simp_all
qed

lemma find_cong:
  assumes "hash_wf h" and "h_less h = lessf" and "h_hash h = hash_f" and "equiv_by lessf k e"
  shows "hash_find h e = hash_find h k"
proof (rule find_eqI[OF assms(1-3)])
  fix x
  have "equiv_by lessf x e \<longleftrightarrow> equiv_by lessf x k" using assms(4) equiv_sym equiv_trans by blast
  with find_iff[OF assms(1-3), of k x]
  show "x \<in># hash_elems h \<and> equiv_by lessf x e \<longleftrightarrow> hash_find h k = Some x" by simp
qed

text \<open>Searches after the three operations.\<close>

lemma find_same_elems:
  assumes "hash_wf h" and "h_less h = lessf" and "h_hash h = hash_f"
    and "hash_wf h'" and "h_less h' = lessf" and "h_hash h' = hash_f"
    and "\<And>x. equiv_by lessf x e \<Longrightarrow> x \<in># hash_elems h' \<longleftrightarrow> x \<in># hash_elems h"
  shows "hash_find h' e = hash_find h e"
  by (rule find_eqI[OF assms(4-6)]) (use find_iff[OF assms(1-3), of e] assms(7) in blast)

lemma find_added:
  assumes "hash_wf h" and "h_less h = lessf" and "h_hash h = hash_f"
    and "hash_wf h'" and "h_less h' = lessf" and "h_hash h' = hash_f"
    and "hash_elems h' = add_mset new M"
    and "\<And>x. \<not> equiv_by lessf x new \<Longrightarrow> x \<in># M \<longleftrightarrow> x \<in># hash_elems h"
  shows "hash_find h' e = (if equiv_by lessf new e then Some new else hash_find h e)"
proof (cases "equiv_by lessf new e")
  case True
  then show ?thesis using find_iff[OF assms(4-6), of e new] assms(7) by simp
next
  case False
  have "x \<in># hash_elems h' \<longleftrightarrow> x \<in># hash_elems h" if "equiv_by lessf x e" for x
  proof -
    have "\<not> equiv_by lessf x new" using that False equiv_sym equiv_trans by blast
    moreover from this have "x \<noteq> new" using equiv_refl by blast
    ultimately show ?thesis using assms(7,8) by simp
  qed
  with find_same_elems[OF assms(1-6)] False show ?thesis by simp
qed

lemma find_removed:
  assumes "hash_wf h" and "h_less h = lessf" and "h_hash h = hash_f"
    and "hash_wf h'" and "h_less h' = lessf" and "h_hash h' = hash_f"
    and "hash_find h k = Some y" and "hash_elems h' = hash_elems h - {#y#}"
  shows "hash_find h' e = (if equiv_by lessf k e then None else hash_find h e)"
proof -
  have y: "y \<in># hash_elems h" "equiv_by lessf y k" using find_iff[OF assms(1-3)] assms(7) by auto
  have "x \<in># hash_elems h' \<longleftrightarrow> x \<in># hash_elems h \<and> x \<noteq> y" for x
  proof -
    have "uniq_elems lessf (hash_elems h)" using assms(1,2) by (simp add: hash_wf_def)
    with y(1) have "size (filter_mset (equiv_by lessf y) (hash_elems h)) = 1"
      by (simp add: uniq_elems_def)
    moreover have "count (filter_mset (equiv_by lessf y) (hash_elems h)) y = count (hash_elems h) y"
      using equiv_refl by simp
    ultimately have "count (hash_elems h) y \<le> 1" by (metis count_le_size)
    then show ?thesis unfolding assms(8) by (auto simp: in_diff_count)
  qed
  note el = this
  show ?thesis
  proof (cases "equiv_by lessf k e")
    case True
    have "\<not> equiv_by lessf x e" if "x \<in># hash_elems h'" for x
    proof
      assume "equiv_by lessf x e"
      then have "equiv_by lessf x k" using True equiv_sym equiv_trans by blast
      with that el[of x] find_iff[OF assms(1-3), of k x] assms(7) show False by simp
    qed
    with find_None_iff[OF assms(4-6), of e] True show ?thesis by auto
  next
    case False
    have "x \<in># hash_elems h' \<longleftrightarrow> x \<in># hash_elems h" if "equiv_by lessf x e" for x
      using el[of x] y(2) that False equiv_sym equiv_trans by blast
    with find_same_elems[OF assms(1-6)] False show ?thesis by simp
  qed
qed

end

subsection \<open>Iteration\<close>

text \<open>Calling \<open>hash_next\<close> until it returns the null pointer.\<close>

partial_function (option) hash_iterate :: "'a hash \<Rightarrow> hash_iterator \<Rightarrow> 'a list option" where
  "hash_iterate h i = do {
     (i, r) \<leftarrow> hash_next h i;
     (case r of None \<Rightarrow> Some []
      | Some x \<Rightarrow> do { xs \<leftarrow> hash_iterate h i; Some (x # xs) })
   }"

lemma hash_next_loop_step:
  "b < h_bucket_cnt h \<Longrightarrow> p \<le> length (h_buckets h ! b) \<Longrightarrow>
     hash_next_loop h b p = \<lparr>i_bucket = b, i_elem = Some p\<rparr>"
  by (subst hash_next_loop.simps) simp

text \<open>From position \<open>p\<close> of bucket \<open>b\<close>, the elements behind it in that bucket and those of the later
  buckets are still to come.\<close>

definition iter_rest :: "'a hash \<Rightarrow> nat \<Rightarrow> nat \<Rightarrow> 'a list" where
  "iter_rest h b p = drop p (h_buckets h ! b) @ concat (drop (b + 1) (h_buckets h))"

lemma hash_next_rest:
  assumes "length (h_buckets h) = h_bucket_cnt h" and "b < h_bucket_cnt h"
    and "p \<le> length (h_buckets h ! b)"
  shows "case iter_rest h b p of
           [] \<Rightarrow> \<exists>i. hash_next h \<lparr>i_bucket = b, i_elem = Some p\<rparr> = Some (i, None)
         | x # xs \<Rightarrow> \<exists>b' p'. hash_next h \<lparr>i_bucket = b, i_elem = Some p\<rparr> =
               Some (\<lparr>i_bucket = b', i_elem = Some p'\<rparr>, Some x) \<and> b' < h_bucket_cnt h \<and>
               p' \<le> length (h_buckets h ! b') \<and> iter_rest h b' p' = xs"
  using assms
proof (induction "h_bucket_cnt h - b" arbitrary: b p rule: less_induct)
  case less
  show ?case
  proof (cases "p < length (h_buckets h ! b)")
    case True
    then have "iter_rest h b p = h_buckets h ! b ! p # iter_rest h b (p + 1)"
      by (simp add: iter_rest_def Cons_nth_drop_Suc)
    with True less.prems show ?thesis
      by (simp add: hash_next_def hash_next_loop_step hash_cur_def)
  next
    case False
    with less.prems(3) have p: "p = length (h_buckets h ! b)" by simp
    show ?thesis
    proof (cases "b + 1 < h_bucket_cnt h")
      case True
      then have r: "iter_rest h b p = iter_rest h (b + 1) 0"
        using less.prems(1) by (simp add: iter_rest_def p Cons_nth_drop_Suc[symmetric])
      have "hash_next_loop h b (p + 1) = hash_next_loop h (b + 1) 1"
        using True p by (subst hash_next_loop.simps) simp
      then have n: "hash_next h \<lparr>i_bucket = b, i_elem = Some p\<rparr> =
          hash_next h \<lparr>i_bucket = b + 1, i_elem = Some 0\<rparr>"
        using p by (simp add: hash_next_def)
      show ?thesis unfolding r n by (rule less.hyps) (use True less.prems in auto)
    next
      case False
      then have "iter_rest h b p = []" using less.prems by (simp add: iter_rest_def p)
      moreover have "hash_next_loop h b (p + 1) = \<lparr>i_bucket = b + 1, i_elem = None\<rparr>"
        using False p by (subst hash_next_loop.simps) simp
      ultimately show ?thesis using p by (simp add: hash_next_def hash_cur_def)
    qed
  qed
qed

lemma hash_iterate_rest:
  assumes "length (h_buckets h) = h_bucket_cnt h" and "b < h_bucket_cnt h"
    and "p \<le> length (h_buckets h ! b)"
  shows "hash_iterate h \<lparr>i_bucket = b, i_elem = Some p\<rparr> = Some (iter_rest h b p)"
  using assms
proof (induction "iter_rest h b p" arbitrary: b p)
  case Nil
  with hash_next_rest[OF Nil.prems] show ?case by (subst hash_iterate.simps) (auto simp flip: Nil.hyps)
next
  case (Cons x xs)
  from hash_next_rest[OF Cons.prems] Cons.hyps(2)[symmetric] obtain b' p' where
    n: "hash_next h \<lparr>i_bucket = b, i_elem = Some p\<rparr> =
      Some (\<lparr>i_bucket = b', i_elem = Some p'\<rparr>, Some x)" "b' < h_bucket_cnt h"
      "p' \<le> length (h_buckets h ! b')" "iter_rest h b' p' = xs" by auto
  with Cons.hyps(1)[OF n(4)[symmetric] Cons.prems(1) n(2,3)] Cons.hyps(2)[symmetric]
  show ?case by (subst hash_iterate.simps) simp
qed

subsection \<open>Properties\<close>

text \<open>C16. \<open>hash_insert\<close> returns, and its answer is what a search for the new element would have
  found. If that is nothing, the table afterwards finds the new element for every key equal to
  its key; all other searches, and all searches when an equal element was present, give what
  they gave before. The table stays well formed whether or not the bucket array could be
  reallocated.\<close>

theorem hash_insert_spec:
  assumes "hash_contract (h_less h) (h_hash h)" and "hash_wf h"
  shows "\<exists>h'. hash_insert mem h new = Some (h', hash_find h new) \<and> hash_wf h' \<and>
           h_less h' = h_less h \<and> h_hash h' = h_hash h \<and>
           hash_size h' = (if hash_find h new = None then hash_size h + 1 else hash_size h) \<and>
           (\<forall>e. hash_find h' e = (if hash_find h new = None \<and> equiv_by (h_less h) new e
                                   then Some new else hash_find h e))"
proof -
  obtain h' where h': "hash_insert mem h new = Some (h', hash_find h new)" "hash_wf h'"
    "h_less h' = h_less h" "h_hash h' = h_hash h"
    "hash_elems h' = (if hash_find h new = None then add_mset new (hash_elems h) else hash_elems h)"
    using hash_contract.insert_keeps[OF assms refl refl] by metis
  have "hash_find h' e = (if hash_find h new = None \<and> equiv_by (h_less h) new e
      then Some new else hash_find h e)" for e
  proof (cases "hash_find h new")
    case None
    with h'(5) have "hash_elems h' = add_mset new (hash_elems h)" by simp
    from hash_contract.find_added[OF assms refl refl h'(2-4) this] None show ?thesis by simp
  next
    case (Some y)
    with hash_contract.find_same_elems[OF assms refl refl h'(2-4), of e] h'(5) show ?thesis by simp
  qed
  with h' assms(2) show ?thesis by (auto simp: hash_size_def hash_wf_def)
qed

text \<open>C17. \<open>hash_delete\<close> returns the element a search would have found, and afterwards searches for
  keys equal to it find nothing while all other searches are unchanged.\<close>

theorem hash_delete_spec:
  assumes "hash_contract (h_less h) (h_hash h)" and "hash_wf h"
  shows "\<exists>h'. hash_delete mem h k = Some (h', hash_find h k) \<and> hash_wf h' \<and>
           h_less h' = h_less h \<and> h_hash h' = h_hash h \<and>
           hash_size h' = (if hash_find h k = None then hash_size h else hash_size h - 1) \<and>
           (\<forall>e. hash_find h' e = (if equiv_by (h_less h) k e then None else hash_find h e))"
proof -
  obtain h' where h': "hash_delete mem h k = Some (h', hash_find h k)" "hash_wf h'"
    "h_less h' = h_less h" "h_hash h' = h_hash h"
    "hash_elems h' = (case hash_find h k of Some x \<Rightarrow> hash_elems h - {#x#} | None \<Rightarrow> hash_elems h)"
    using hash_contract.delete_keeps[OF assms refl refl] by metis
  note iffs = hash_contract.find_iff[OF assms refl refl] hash_contract.find_None_iff[OF assms refl refl]
  show ?thesis
  proof (cases "hash_find h k")
    case None
    have "hash_find h e = None" if "equiv_by (h_less h) k e" for e
      using None that hash_contract.find_cong[OF assms refl refl] by metis
    with None h' hash_contract.find_same_elems[OF assms refl refl h'(2-4)] assms(2) show ?thesis
      by (auto simp: hash_size_def hash_wf_def)
  next
    case (Some y)
    then have "y \<in># hash_elems h" using iffs(1) by blast
    with Some h' hash_contract.find_removed[OF assms refl refl h'(2-4) Some] assms(2) show ?thesis
      by (auto simp: hash_size_def hash_wf_def size_Diff_singleton)
  qed
qed

text \<open>\<open>hash_replace\<close> returns the equal element that was in the table, if any, and afterwards
  searches for that key find the new element while all other searches are unchanged.\<close>

theorem hash_replace_spec:
  assumes "hash_contract (h_less h) (h_hash h)" and "hash_wf h"
  shows "\<exists>h'. hash_replace mem h new = Some (h', hash_find h new) \<and> hash_wf h' \<and>
           h_less h' = h_less h \<and> h_hash h' = h_hash h \<and>
           (\<forall>e. hash_find h' e = (if equiv_by (h_less h) new e then Some new else hash_find h e))"
proof -
  let ?M = "case hash_find h new of Some x \<Rightarrow> hash_elems h - {#x#} | None \<Rightarrow> hash_elems h"
  obtain h' where h': "hash_replace mem h new = Some (h', hash_find h new)" "hash_wf h'"
    "h_less h' = h_less h" "h_hash h' = h_hash h" "hash_elems h' = add_mset new ?M"
    using hash_contract.replace_keeps[OF assms refl refl] by metis
  have "x \<in># ?M \<longleftrightarrow> x \<in># hash_elems h" if "\<not> equiv_by (h_less h) x new" for x
    using that hash_contract.find_iff[OF assms refl refl, of new]
    by (auto simp: in_diff_count split: option.splits dest: in_diffD)
  from hash_contract.find_added[OF assms refl refl h'(2-5) this] h' show ?thesis by blast
qed

text \<open>C25. Iterating from \<open>hash_first\<close> with \<open>hash_next\<close> ends and yields every element of the table
  exactly once.\<close>

theorem hash_iterate_complete:
  assumes "hash_wf h"
  shows "\<exists>xs. hash_iterate h (hash_first h) = Some xs \<and> mset xs = hash_elems h \<and>
           length xs = hash_size h"
proof -
  have l: "length (h_buckets h) = h_bucket_cnt h" and p: "is_power_of_2 (h_bucket_cnt h)"
    using assms by (auto simp: hash_wf_def buckets_wf_def)
  from p have "0 < h_bucket_cnt h" by (simp add: is_power_of_2_def)
  with l have "iter_rest h 0 0 = concat (h_buckets h)"
    by (cases "h_buckets h") (auto simp: iter_rest_def)
  with hash_iterate_rest[OF l, of 0 0] \<open>0 < h_bucket_cnt h\<close> assms show ?thesis
    by (auto simp: hash_first_def hash_elems_def hash_size_def hash_wf_def simp flip: size_mset)
qed

subsection \<open>A concrete table\<close>

definition ex_hash :: "nat hash" where
  "ex_hash = \<lparr>h_elem_cnt = 3, h_bucket_cnt = 4, h_buckets = [[8, 4], [1], [], []],
     h_hash = (\<lambda>a. word_of_nat a), h_less = (\<lambda>a b. a < b)\<rparr>"

lemma ex_hash_contract: "hash_contract (h_less ex_hash) (h_hash ex_hash)"
  using hash_contract_key[of "\<lambda>a. a" word_of_nat] by (simp add: ex_hash_def)

lemma ex_hash_wf: "hash_wf ex_hash"
proof -
  have "find_bucket ex_hash 8 = 0" "find_bucket ex_hash 4 = 0" "find_bucket ex_hash 1 = 1"
    by (simp_all add: ex_hash_def find_bucket_def unat_of_nat)
  moreover have "h_bucket_cnt ex_hash = 4" "h_buckets ex_hash = [[8, 4], [1], [], []]"
    by (simp_all add: ex_hash_def)
  moreover have "is_power_of_2 4" by (simp add: is_power_of_2_def turn_off_least_1bit_def)
  moreover have "i = 0 \<or> i = 1 \<or> i = 2 \<or> i = 3" if "i < 4" for i :: nat using that by auto
  ultimately have "buckets_wf ex_hash" unfolding buckets_wf_def by fastforce
  moreover have "uniq_elems (h_less ex_hash) (hash_elems ex_hash)"
    by (simp add: uniq_elems_def hash_elems_def ex_hash_def equiv_by_def)
  ultimately show ?thesis by (simp add: hash_wf_def) (simp add: hash_elems_def ex_hash_def)
qed

theorem hash_insert_spec_witness:
  "\<exists>h'. hash_insert True ex_hash 5 = Some (h', None) \<and> hash_wf h' \<and> hash_find h' 5 = Some 5"
proof -
  have "hash_find ex_hash 5 = None"
    by (simp add: hash_find_def find_bucket_def ex_hash_def unat_of_nat)
  with hash_insert_spec[OF ex_hash_contract ex_hash_wf, of True 5] show ?thesis
    by (auto simp: equiv_by_def ex_hash_def)
qed

theorem hash_delete_spec_witness:
  "\<exists>h'. hash_delete True ex_hash 4 = Some (h', Some 4) \<and> hash_wf h' \<and> hash_find h' 4 = None"
proof -
  have "hash_find ex_hash 4 = Some 4"
    by (simp add: hash_find_def find_bucket_def ex_hash_def unat_of_nat)
  with hash_delete_spec[OF ex_hash_contract ex_hash_wf, of True 4] show ?thesis
    by (auto simp: equiv_by_def ex_hash_def)
qed

theorem hash_replace_spec_witness:
  "\<exists>h'. hash_replace True ex_hash 8 = Some (h', Some 8) \<and> hash_wf h' \<and> hash_find h' 8 = Some 8"
proof -
  have "hash_find ex_hash 8 = Some 8"
    by (simp add: hash_find_def find_bucket_def ex_hash_def unat_of_nat)
  with hash_replace_spec[OF ex_hash_contract ex_hash_wf, of True 8] show ?thesis
    by (auto simp: equiv_by_def ex_hash_def)
qed

theorem hash_iterate_complete_witness:
  "\<exists>xs. hash_iterate ex_hash (hash_first ex_hash) = Some xs \<and> mset xs = {#8, 4, 1#}"
  using hash_iterate_complete[OF ex_hash_wf] by (auto simp: hash_elems_def ex_hash_def)

end
