(* ===== verification/Pintos_Arith64.thy ===== *)
theory Pintos_Arith64
  imports Pintos_Prelude "HOL-Library.Signed_Division"
begin

section \<open>64-bit division (lib/arithmetic.c)\<close>

text \<open>
  The compiler calls these routines for 64-bit division on a 32-bit machine. They are built on the
  \<open>divl\<close> instruction, which divides 64 by 32 bits and traps when the quotient does not fit; a trap
  is \<open>None\<close>. The theorems show that the routines never trap for a nonzero divisor and compute the
  quotient, and say what the remainder routines return.
\<close>

subsection \<open>Operations\<close>

definition divl :: "u64 \<Rightarrow> u32 \<Rightarrow> u32 option" where
  "divl n d =
     (if d = 0 \<or> 2 ^ 32 \<le> unat n div unat d then None
      else Some (word_of_nat (unat n div unat d)))"

definition nlz :: "u32 \<Rightarrow> nat" where
  "nlz x =
     (let n = 0;
          (n, x) = (if x \<le> 0x0000FFFF then (n + 16, push_bit 16 x) else (n, x));
          (n, x) = (if x \<le> 0x00FFFFFF then (n + 8, push_bit 8 x) else (n, x));
          (n, x) = (if x \<le> 0x0FFFFFFF then (n + 4, push_bit 4 x) else (n, x));
          (n, x) = (if x \<le> 0x3FFFFFFF then (n + 2, push_bit 2 x) else (n, x))
      in if x \<le> 0x7FFFFFFF then n + 1 else n)"

definition udiv64 :: "u64 \<Rightarrow> u64 \<Rightarrow> u64 option" where
  "udiv64 n d =
     (if drop_bit 32 d = 0 then do {
        let b = push_bit 32 1;
        let n1 = (ucast (drop_bit 32 n) :: u32);
        let n0 = (ucast n :: u32);
        let d0 = (ucast d :: u32);
        q \<leftarrow> divl (b * ucast (n1 mod d0) + ucast n0) d0;
        Some (ucast q + b * ucast (n1 div d0))
      } else if n < d then Some 0
      else do {
        let d1 = (ucast (drop_bit 32 d) :: u32);
        let s = nlz d1;
        q \<leftarrow> divl (drop_bit 1 n) (ucast (drop_bit 32 (push_bit s d)));
        let q = (ucast (drop_bit (31 - s) q) :: u64);
        Some (if n - (q - 1) * d < d then q - 1 else q)
      })"


definition sdiv64 :: "u64 \<Rightarrow> u64 \<Rightarrow> u64 option" where
  "sdiv64 n d = do {
     let n_abs = (if 0 \<le> sint n then n else - n);
     let d_abs = (if 0 \<le> sint d then d else - d);
     q_abs \<leftarrow> udiv64 n_abs d_abs;
     Some (if (sint n < 0) = (sint d < 0) then q_abs else - q_abs)
   }"

definition smod64 :: "u64 \<Rightarrow> u64 \<Rightarrow> u32 option" where
  "smod64 n d = do { q \<leftarrow> sdiv64 n d; Some (ucast (n - d * q)) }"

definition divdi3 :: "u64 \<Rightarrow> u64 \<Rightarrow> u64 option" where
  "divdi3 n d = sdiv64 n d"

definition moddi3 :: "u64 \<Rightarrow> u64 \<Rightarrow> u64 option" where
  "moddi3 n d = map_option scast (smod64 n d)"

definition udivdi3 :: "u64 \<Rightarrow> u64 \<Rightarrow> u64 option" where
  "udivdi3 n d = udiv64 n d"


subsection \<open>Leading zeros\<close>

lemma unat_push_bit:
  fixes x :: "'a :: len word"
  assumes "unat x * 2 ^ k < 2 ^ LENGTH('a)"
  shows "unat (push_bit k x) = unat x * 2 ^ k"
  using assms
  by (simp only: unsigned_push_bit_eq[where 'a=nat] push_bit_eq_mult[of k "unat x"] take_bit_nat_eq_self)

lemma nlz_step:
  fixes x :: u32
  assumes "unat x \<le> 2 ^ (32 - k) - 1" and "2 ^ (32 - 2 * k) \<le> unat x" and "2 * k \<le> 32"
  shows "unat (push_bit k x) = unat x * 2 ^ k" and "2 ^ (32 - k) \<le> unat (push_bit k x)"
proof -
  have "unat x < 2 ^ (32 - k)"
    using assms(1) by (metis Suc_pred' less_Suc_eq_le zero_less_numeral zero_less_power)
  then have "unat x * 2 ^ k < 2 ^ (32 - k) * 2 ^ k" by simp
  also have "(2::nat) ^ (32 - k) * 2 ^ k = 2 ^ 32" using assms(3) by (simp flip: power_add)
  finally show p: "unat (push_bit k x) = unat x * 2 ^ k" by (intro unat_push_bit) simp
  have "(2::nat) ^ (32 - k) = 2 ^ (32 - 2 * k) * 2 ^ k" using assms(3) by (simp flip: power_add)
  also have "\<dots> \<le> unat x * 2 ^ k" using assms(2) by simp
  finally show "2 ^ (32 - k) \<le> unat (push_bit k x)" using p by simp
qed

lemma nlz_if:
  fixes x x' :: u32
  assumes "(n', x') = (if x \<le> word_of_nat (2 ^ (32 - k) - 1) then (n + k, push_bit k x) else (n, x))"
    and "2 ^ (32 - 2 * k) \<le> unat x" and "2 * k \<le> 32" and "0 < k"
    and "unat x = unat a * 2 ^ n"
  shows "2 ^ (32 - k) \<le> unat x'" and "unat x' = unat a * 2 ^ n'"
proof -
  have "(2::nat) ^ (32 - k) \<le> 2 ^ 32" by (rule power_increasing) simp_all
  then have "(2::nat) ^ (32 - k) - 1 < 2 ^ LENGTH(32)" by simp
  then have u: "unat (word_of_nat (2 ^ (32 - k) - 1) :: u32) = 2 ^ (32 - k) - 1"
    by (simp only: unat_of_nat mod_less)
  have le: "x \<le> word_of_nat (2 ^ (32 - k) - 1) \<longleftrightarrow> unat x \<le> 2 ^ (32 - k) - 1"
    unfolding word_le_nat_alt u ..
  show "2 ^ (32 - k) \<le> unat x'" "unat x' = unat a * 2 ^ n'"
    using assms nlz_step[OF _ assms(2,3)] unfolding le
    by (auto split: if_splits simp: power_add)
qed

lemma nlz_spec:
  assumes "x \<noteq> 0"
  shows "2 ^ 31 \<le> unat x * 2 ^ nlz x" and "unat x * 2 ^ nlz x < 2 ^ 32" and "nlz x \<le> 31"
proof -
  obtain n1 :: nat and x1 where 1: "(n1, x1) = (if x \<le> 0x0000FFFF then (0 + 16, push_bit 16 x) else (0, x))"
    by (metis surj_pair)
  obtain n2 :: nat and x2 where 2: "(n2, x2) = (if x1 \<le> 0x00FFFFFF then (n1 + 8, push_bit 8 x1) else (n1, x1))"
    by (metis surj_pair)
  obtain n3 :: nat and x3 where 3: "(n3, x3) = (if x2 \<le> 0x0FFFFFFF then (n2 + 4, push_bit 4 x2) else (n2, x2))"
    by (metis surj_pair)
  obtain n4 :: nat and x4 where 4: "(n4, x4) = (if x3 \<le> 0x3FFFFFFF then (n3 + 2, push_bit 2 x3) else (n3, x3))"
    by (metis surj_pair)
  obtain n5 :: nat and x5 where 5: "(n5, x5) = (if x4 \<le> 0x7FFFFFFF then (n4 + 1, push_bit 1 x4) else (n4, x4))"
    by (metis surj_pair)
  have n: "nlz x = n5"
    unfolding nlz_def Let_def by (simp flip: 1 2 3 4) (use 5 in \<open>auto split: if_splits\<close>)
  have "0 < unat x" using assms by (simp add: unat_gt_0)
  then have s1: "2 ^ 16 \<le> unat x1" "unat x1 = unat x * 2 ^ n1"
    using nlz_if[of n1 x1 x 16 0 x] 1 by simp_all
  have s2: "2 ^ 24 \<le> unat x2" "unat x2 = unat x * 2 ^ n2"
    using nlz_if[of n2 x2 x1 8 n1 x] 2 s1 by simp_all
  have s3: "2 ^ 28 \<le> unat x3" "unat x3 = unat x * 2 ^ n3"
    using nlz_if[of n3 x3 x2 4 n2 x] 3 s2 by simp_all
  have s4: "2 ^ 30 \<le> unat x4" "unat x4 = unat x * 2 ^ n4"
    using nlz_if[of n4 x4 x3 2 n3 x] 4 s3 by simp_all
  have s5: "2 ^ 31 \<le> unat x5" "unat x5 = unat x * 2 ^ n5"
    using nlz_if[of n5 x5 x4 1 n4 x] 5 s4 by simp_all
  show "2 ^ 31 \<le> unat x * 2 ^ nlz x" using s5 n by simp
  have "unat x5 < 2 ^ 32" by (rule unat_u32)
  then show lt: "unat x * 2 ^ nlz x < 2 ^ 32" using s5 n by simp
  have "(2::nat) ^ nlz x \<le> unat x * 2 ^ nlz x" using \<open>0 < unat x\<close> by simp
  with lt have "(2::nat) ^ nlz x < 2 ^ 32" by linarith
  then have "nlz x < 32" using power_less_imp_less_exp[of 2 "nlz x" 32] by simp
  then show "nlz x \<le> 31" by simp
qed

subsection \<open>Unsigned division\<close>

text \<open>The estimate of the quotient from the leading 32 bits of the divisor is off by at most one.\<close>

lemma quotient_estimate:
  fixes n d v s :: nat
  assumes "n < 2 ^ 64" and "s \<le> 31" and "2 ^ 31 \<le> v"
    and "v * 2 ^ 32 \<le> d * 2 ^ s" and "d * 2 ^ s < (v + 1) * 2 ^ 32"
  shows "n div d \<le> n div (v * 2 ^ (32 - s))" and "n div (v * 2 ^ (32 - s)) \<le> n div d + 1"
proof -
  let ?k = "(2::nat) ^ (32 - s)" and ?E = "v * 2 ^ (32 - s)"
  have p: "(2::nat) ^ 32 = ?k * 2 ^ s" using assms(2) by (simp flip: power_add)
  have E: "?E \<le> d" "d < ?E + ?k"
  proof -
    have "?E * 2 ^ s \<le> d * 2 ^ s" using assms(4) unfolding p mult.assoc .
    then show "?E \<le> d" by simp
    have "d * 2 ^ s < (?E + ?k) * 2 ^ s" using assms(5) by (simp only: p) (simp add: algebra_simps)
    then show "d < ?E + ?k" by simp
  qed
  have v0: "0 < v" using assms(3) by (cases v) simp_all
  then have E0: "0 < ?E" by simp
  with E(1) show "n div d \<le> n div ?E" by (intro div_le_mono2) simp_all
  define q where "q = n div ?E"
  have qE: "q * ?E \<le> n" unfolding q_def by (metis div_times_less_eq_dividend)
  show "n div ?E \<le> n div d + 1"
  proof (cases q)
    case (Suc r)
    have low: "2 ^ 31 * ?k \<le> ?E" using assms(3) by simp
    have "(q * 2 ^ 31 * ?k) \<le> q * ?E" using low by (simp add: mult.assoc)
    then have "q * 2 ^ 31 * ?k < 2 ^ 64" using qE assms(1) by linarith
    moreover have "(2::nat) ^ 64 = 2 ^ (s + 1) * 2 ^ 31 * ?k"
      using assms(2) by (simp flip: power_add)
    ultimately have "q * (2 ^ 31 * ?k) < 2 ^ (s + 1) * (2 ^ 31 * ?k)" by (simp only: mult.assoc)
    then have "q < 2 ^ (s + 1)" by (simp only: mult_less_cancel2)
    then have "r * (?k - 1) \<le> (2 ^ (s + 1) - 1 - 1) * (?k - 1)" using Suc by (intro mult_right_mono) simp_all
    also have "\<dots> \<le> 2 ^ 31 * ?k"
    proof (cases "s = 31")
      case False
      have "(2 ^ (s + 1) - 1 - 1) * (?k - 1) \<le> 2 ^ (s + 1) * ?k" by (intro mult_mono) simp_all
      also have "\<dots> = 2 ^ 33" using assms(2) by (simp flip: power_add)
      also have "\<dots> \<le> 2 ^ 31 * ?k"
      proof -
        have "(2::nat) ^ 2 \<le> ?k" using False assms(2) by (intro power_increasing) simp_all
        then show ?thesis by simp
      qed
      finally show ?thesis .
    qed simp
    also have "\<dots> \<le> ?E" by (rule low)
    finally have rE: "r * (?k - 1) \<le> ?E" .
    have "r * d \<le> r * (?E + (?k - 1))" using E(2) by (intro mult_left_mono) simp_all
    also have "\<dots> = r * ?E + r * (?k - 1)" by (simp add: algebra_simps)
    also have "\<dots> \<le> q * ?E" using rE Suc by simp
    finally have "r * d \<le> n" using qE by simp
    then have "r * d div d \<le> n div d" by (rule div_le_mono)
    then have "r \<le> n div d" using E(1) E0 by simp
    then show ?thesis using Suc q_def by simp
  qed (simp add: q_def)
qed

lemma divl_eq: "0 < unat d \<Longrightarrow> unat n div unat d < 2 ^ 32 \<Longrightarrow>
    divl n d = Some (word_of_nat (unat n div unat d))"
  by (auto simp: divl_def)

lemma unat_ucast_u32: "unat (ucast (w :: u64) :: u32) = unat w mod 2 ^ 32"
  by (simp add: unsigned_ucast_eq take_bit_eq_mod)

lemma unat_ucast_u64: "unat (ucast (w :: u32) :: u64) = unat w"
  using unat_u32[of w] by (simp add: unsigned_ucast_eq take_bit_nat_eq_self)

lemma unat_shift32: "unat (drop_bit 32 (w :: u64)) < 2 ^ 32"
  using unat_u64[of w] by (simp add: unat_drop_bit div_less_iff_less_mult)

lemma unat_of_nat_u64: "a < 2 ^ 64 \<Longrightarrow> unat (word_of_nat a :: u64) = a"
  by (simp add: unat_of_nat)

lemma ucast_of_nat_u64:
  assumes "a < 2 ^ 32"
  shows "ucast (word_of_nat a :: u32) = (word_of_nat a :: u64)"
  using assms by (simp only: word_unat_eq_iff unat_ucast_u64 unat_of_nat_u32) (simp add: unat_of_nat)

lemma udiv64_small:
  assumes "d \<noteq> 0" and "drop_bit 32 d = 0"
  shows "udiv64 n d = Some (word_of_nat (unat n div unat d))"
proof -
  let ?N1 = "unat n div 2 ^ 32" and ?N0 = "unat n mod 2 ^ 32" and ?D = "unat d"
  have D: "?D < 2 ^ 32"
    using assms(2) unat_drop_bit[of 32 d] by (simp add: div_eq_0_iff)
  have D0: "0 < ?D" using assms(1) by (simp add: unat_gt_0)
  define n1 n0 d0 where "n1 = (ucast (drop_bit 32 n) :: u32)" and "n0 = (ucast n :: u32)"
    and "d0 = (ucast d :: u32)"
  have u: "unat n1 = ?N1" "unat n0 = ?N0" "unat d0 = ?D"
    using unat_shift32[of n] D
    by (simp_all only: n1_def n0_def d0_def unat_ucast_u32 unat_drop_bit mod_less)
  define m where "m = 2 ^ 32 * (?N1 mod ?D) + ?N0"
  have m: "m < ?D * 2 ^ 32"
  proof -
    have "?N1 mod ?D + 1 \<le> ?D" using D0 by (simp add: Suc_leI)
    then have "2 ^ 32 * (?N1 mod ?D + 1) \<le> 2 ^ 32 * ?D" by (rule mult_left_mono) simp
    moreover have "?N0 < 2 ^ 32" by simp
    ultimately show ?thesis unfolding m_def by (simp add: algebra_simps)
  qed
  have um: "unat (push_bit 32 1 * ucast (n1 mod d0) + ucast n0 :: u64) = m"
  proof -
    have "m < 2 ^ 64" using m D by simp
    then show ?thesis
      by (simp add: unat_word_ariths unat_ucast_u64 unat_mod_distrib u m_def)
  qed
  have q: "m div ?D < 2 ^ 32" using m D0 by (simp add: div_less_iff_less_mult mult.commute)
  have "divl (push_bit 32 1 * ucast (n1 mod d0) + ucast n0) d0 = Some (word_of_nat (m div ?D))"
    using divl_eq[of d0] q D0 by (simp only: um u)
  moreover have "unat n div ?D = m div ?D + 2 ^ 32 * (?N1 div ?D)"
  proof -
    have "unat n = 2 ^ 32 * ?N1 + ?N0" by simp
    also have "2 ^ 32 * ?N1 = 2 ^ 32 * (?N1 mod ?D + ?N1 div ?D * ?D)" by simp
    also have "2 ^ 32 * (?N1 mod ?D + ?N1 div ?D * ?D) + ?N0 = m + 2 ^ 32 * (?N1 div ?D) * ?D"
      by (simp only: m_def algebra_simps)
    finally have "unat n = m + 2 ^ 32 * (?N1 div ?D) * ?D" .
    then have "unat n div ?D = (m + 2 ^ 32 * (?N1 div ?D) * ?D) div ?D" by (rule arg_cong)
    with D0 show ?thesis by simp
  qed
  moreover have "ucast (word_of_nat (m div ?D) :: u32) = (word_of_nat (m div ?D) :: u64)"
    by (rule ucast_of_nat_u64[OF q])
  moreover have "(ucast (n1 div d0) :: u64) = word_of_nat (?N1 div ?D)"
    by (simp only: word_unat_eq_iff unat_ucast_u64 unat_div_distrib u)
      (rule unat_of_nat_u64[symmetric], rule le_less_trans[OF div_le_dividend],
       use unat_u64[of n] in simp)
  ultimately show ?thesis
    using assms(2) by (simp add: udiv64_def Let_def flip: n1_def n0_def d0_def)
qed

text \<open>Shifting the divisor left by the leading zeros of its upper half does not overflow and makes
  its leading bit the highest of its upper half.\<close>

lemma shifted_divisor:
  fixes D s :: nat
  assumes "2 ^ 31 \<le> D div 2 ^ 32 * 2 ^ s" and "D div 2 ^ 32 * 2 ^ s < 2 ^ 32" and "s \<le> 31"
  shows "D * 2 ^ s < 2 ^ 64" and "2 ^ 31 \<le> D * 2 ^ s div 2 ^ 32"
proof -
  let ?D1 = "D div 2 ^ 32"
  have k: "(2::nat) ^ (32 - s) * 2 ^ s = 2 ^ 32" using assms(3) by (simp flip: power_add)
  have "?D1 * 2 ^ s < 2 ^ (32 - s) * 2 ^ s" using assms(2) k by linarith
  then have "?D1 + 1 \<le> 2 ^ (32 - s)" by (simp only: mult_less_cancel2) simp
  then have "(?D1 + 1) * 2 ^ s \<le> 2 ^ 32" using mult_right_mono[of "?D1 + 1" "2 ^ (32 - s)" "2 ^ s"] k by simp
  then have A: "2 ^ 32 * ((?D1 + 1) * 2 ^ s) \<le> 2 ^ 32 * 2 ^ 32" by (rule mult_left_mono) simp
  have "D = 2 ^ 32 * ?D1 + D mod 2 ^ 32" "D mod 2 ^ 32 < 2 ^ 32" by simp_all
  then have "D < 2 ^ 32 * (?D1 + 1)" by (metis add_less_cancel_left distrib_left mult.right_neutral)
  then have "D * 2 ^ s < 2 ^ 32 * (?D1 + 1) * 2 ^ s" by simp
  with A have "D * 2 ^ s < 2 ^ 32 * 2 ^ 32" by (simp only: mult.assoc)
  then show "D * 2 ^ s < 2 ^ 64" by simp
  have "2 ^ 32 * ?D1 \<le> D" by simp
  then have "2 ^ 32 * ?D1 * 2 ^ s \<le> D * 2 ^ s" by (rule mult_right_mono) simp
  then have "2 ^ 32 * (?D1 * 2 ^ s) div 2 ^ 32 \<le> D * 2 ^ s div 2 ^ 32"
    by (intro div_le_mono) (simp only: mult.assoc)
  then have "?D1 * 2 ^ s \<le> D * 2 ^ s div 2 ^ 32" by simp
  with assms(1) show "2 ^ 31 \<le> D * 2 ^ s div 2 ^ 32" by (rule le_trans)
qed

text \<open>The final correction turns an estimate that is at most one too large into the quotient.\<close>

lemma quotient_correction:
  fixes n d q :: u64
  assumes "0 < unat n div unat d" and "unat q = unat n div unat d \<or> unat q = unat n div unat d + 1"
  shows "(if n - (q - 1) * d < d then q - 1 else q) = word_of_nat (unat n div unat d)"
proof -
  let ?N = "unat n" and ?D = "unat d" and ?Q = "unat n div unat d"
  have D0: "0 < ?D" using assms(1) by (cases "?D = 0") simp_all
  have q1: "unat (q - 1) = unat q - 1" using assms by (intro unat_minus_one) auto
  have le: "unat (q - 1) * ?D \<le> ?N"
  proof -
    have "unat (q - 1) \<le> ?Q" using q1 assms(2) by auto
    then have "unat (q - 1) * ?D \<le> ?Q * ?D" by simp
    then show ?thesis using div_times_less_eq_dividend[of ?N ?D] by linarith
  qed
  have um: "unat ((q - 1) * d) = unat (q - 1) * ?D"
    using le unat_u64[of n] by (simp add: unat_word_ariths)
  then have sub: "unat (n - (q - 1) * d) = ?N - unat (q - 1) * ?D"
    using le by (subst unat_sub) (simp_all add: word_le_nat_alt)
  have N: "?N = ?Q * ?D + ?N mod ?D" "?N mod ?D < ?D" using D0 by simp_all
  show ?thesis
  proof (cases "unat q = ?Q")
    case True
    then have "?N - unat (q - 1) * ?D = ?D + ?N mod ?D"
      using N(1) assms(1) q1 by (cases ?Q) auto
    then have "\<not> n - (q - 1) * d < d" unfolding word_less_nat_alt sub by simp
    then show ?thesis by (simp flip: True)
  next
    case False
    then have "unat (q - 1) = ?Q" using assms(2) q1 by auto
    then have "n - (q - 1) * d < d"
      unfolding word_less_nat_alt sub using N(2) by (simp add: minus_div_mult_eq_mod)
    then show ?thesis by (simp flip: \<open>unat (q - 1) = ?Q\<close>)
  qed
qed

lemma udiv64_large:
  assumes "drop_bit 32 d \<noteq> 0" and "d \<le> n"
  shows "udiv64 n d = Some (word_of_nat (unat n div unat d))"
proof -
  let ?N = "unat n" and ?D = "unat d"
  define d1 where "d1 = (ucast (drop_bit 32 d) :: u32)"
  define s where "s = nlz d1"
  have d1: "unat d1 = ?D div 2 ^ 32"
    using unat_shift32[of d] by (simp only: d1_def unat_ucast_u32 unat_drop_bit mod_less)
  have "unat d1 \<noteq> 0" using assms(1) unat_drop_bit[of 32 d] d1 by (metis unat_eq_zero)
  then have "d1 \<noteq> 0" by auto
  note nz = nlz_spec[OF this, folded s_def, unfolded d1]
  note sd = shifted_divisor[OF nz]
  have us: "unat (push_bit s d) = ?D * 2 ^ s" using sd(1) by (intro unat_push_bit) simp
  define v where "v = (ucast (drop_bit 32 (push_bit s d)) :: u32)"
  have v: "unat v = ?D * 2 ^ s div 2 ^ 32"
    using unat_shift32[of "push_bit s d"] by (simp only: v_def unat_ucast_u32 unat_drop_bit mod_less us)
  have v31: "2 ^ 31 \<le> unat v" using sd(2) v by simp
  have vb: "unat v * 2 ^ 32 \<le> ?D * 2 ^ s" "?D * 2 ^ s < (unat v + 1) * 2 ^ 32"
    unfolding v by (simp, simp add: dividend_less_times_div algebra_simps)
  note est = quotient_estimate[OF unat_u64[of n] nz(3) v31 vb]
  define q1 where "q1 = ?N div 2 div unat v"
  have q1: "q1 < 2 ^ 32"
  proof -
    have "?N div 2 < 2 ^ 32 * 2 ^ 31" using unat_u64[of n] by simp
    also have "\<dots> \<le> 2 ^ 32 * unat v" using v31 by simp
    finally show ?thesis unfolding q1_def by (rule less_mult_imp_div_less)
  qed
  have "unat (drop_bit 1 n) div unat v = q1" by (simp only: unat_drop_bit q1_def power_one_right)
  then have dv: "divl (drop_bit 1 n) v = Some (word_of_nat q1)"
    using divl_eq[of v "drop_bit 1 n"] v31 q1 by (metis less_le_trans zero_less_numeral zero_less_power)
  define q where "q = (ucast (drop_bit (31 - s) (word_of_nat q1 :: u32)) :: u64)"
  have "unat q = q1 div 2 ^ (31 - s)"
    by (simp only: q_def unat_ucast_u64 unat_drop_bit unat_of_nat_u32[OF q1])
  also have "\<dots> = ?N div (2 * unat v * 2 ^ (31 - s))" by (simp only: q1_def div_mult2_eq)
  also have "2 * unat v * 2 ^ (31 - s) = unat v * 2 ^ (32 - s)"
    using nz(3) by (auto simp flip: power_Suc)
  finally have q: "unat q = ?N div (unat v * 2 ^ (32 - s))" .
  have "?D \<le> ?N" using assms(2) by (simp add: word_le_nat_alt)
  moreover have "?D \<noteq> 0" using assms(1) by (metis drop_bit_of_0 unat_eq_zero)
  ultimately have "0 < ?N div ?D" by (simp add: div_greater_zero_iff)
  from quotient_correction[OF this, of q] est q
  have "(if n - (q - 1) * d < d then q - 1 else q) = word_of_nat (?N div ?D)" by linarith
  moreover have "udiv64 n d = Some (if n - (q - 1) * d < d then q - 1 else q)"
    unfolding udiv64_def Let_def d1_def[symmetric] s_def[symmetric] v_def[symmetric]
    using assms by (simp only: dv if_False option.simps q_def[symmetric] not_less[symmetric] bind.simps)
  ultimately show ?thesis by simp
qed

lemma udiv64_eq:
  assumes "d \<noteq> 0"
  shows "udiv64 n d = Some (word_of_nat (unat n div unat d))"
proof (cases "drop_bit 32 d = 0")
  case True
  with assms show ?thesis by (rule udiv64_small)
next
  case False
  show ?thesis
  proof (cases "d \<le> n")
    case True
    with False show ?thesis by (rule udiv64_large)
  next
    case le: False
    then have "n < d" by simp
    then have "unat n div unat d = 0" by (simp add: word_less_nat_alt)
    with False \<open>n < d\<close> show ?thesis unfolding udiv64_def by (simp only: if_False if_True) simp
  qed
qed

lemma udiv64_0: "udiv64 n 0 = None"
  by (simp add: udiv64_def divl_def)


subsection \<open>Signed division\<close>

lemma sint_range_u64: "- (2 ^ 63) \<le> sint (n :: u64)" "sint (n :: u64) < 2 ^ 63"
  using sint_greater_eq[of n] sint_less[of n] by simp_all

lemma unat_abs:
  fixes n :: u64
  shows "int (unat (if 0 \<le> sint n then n else - n)) = \<bar>sint n\<bar>"
proof -
  have "(if 0 \<le> sint n then n else - n) = word_of_int \<bar>sint n\<bar>" by simp
  moreover have "uint (word_of_int \<bar>sint n\<bar> :: u64) = \<bar>sint n\<bar>"
    using sint_range_u64[of n] by (simp add: uint_word_of_int_eq take_bit_int_eq_self)
  ultimately show ?thesis by simp
qed

lemma sdiv64_eq:
  assumes "d \<noteq> 0"
  shows "sdiv64 n d = Some (word_of_int (sint n sdiv sint d))"
proof -
  define na da where "na = (if 0 \<le> sint n then n else - n)" and "da = (if 0 \<le> sint d then d else - d)"
  have a: "int (unat na) = \<bar>sint n\<bar>" "int (unat da) = \<bar>sint d\<bar>"
    unfolding na_def da_def by (rule unat_abs)+
  have "da \<noteq> 0" using assms by (simp add: da_def)
  from udiv64_eq[OF this, of na]
  have u: "udiv64 na da = Some (word_of_int (\<bar>sint n\<bar> div \<bar>sint d\<bar>))"
    by (simp only: a[symmetric] zdiv_int[symmetric] of_int_of_nat_eq)
  have "word_of_int (sint d) = d" by simp
  then have "sint d \<noteq> 0" using assms by (metis of_int_0)
  then have "sint n sdiv sint d = (if (sint n < 0) = (sint d < 0) then \<bar>sint n\<bar> div \<bar>sint d\<bar>
      else - (\<bar>sint n\<bar> div \<bar>sint d\<bar>))"
    by (cases "sint n = 0") (auto simp: signed_divide_int_def sgn_if)
  with u show ?thesis
    by (simp add: sdiv64_def flip: na_def da_def)
qed

text \<open>The only quotient that is not representable is that of the least number by \<open>- 1\<close>.\<close>

lemma sdiv_range:
  fixes n d :: u64
  assumes "\<not> (sint n = - (2 ^ 63) \<and> sint d = - 1)"
  shows "sint (word_of_int (sint n sdiv sint d) :: u64) = sint n sdiv sint d"
proof -
  have r: "\<bar>sint n sdiv sint d\<bar> \<le> \<bar>sint n\<bar>" using sdiv_int_range[of "sint n" "sint d"] by auto
  have "sint n sdiv sint d \<noteq> 2 ^ 63"
  proof
    assume q: "sint n sdiv sint d = 2 ^ 63"
    with r sint_range_u64[of n] have n: "sint n = - (2 ^ 63)" by linarith
    with q have "sint n sdiv sint d = - sint n" by simp
    then have "sint d = - 1" using int_sdiv_negated_is_minus1[of "sint n" "sint d"] n by simp
    with n assms show False by simp
  qed
  with r sint_range_u64[of n] have "- (2 ^ 63) \<le> sint n sdiv sint d" "sint n sdiv sint d < 2 ^ 63"
    by linarith+
  then show ?thesis by (simp add: sint_sbintrunc' signed_take_bit_int_eq_self)
qed

lemma smod64_eq:
  assumes "d \<noteq> 0"
  shows "smod64 n d = Some (word_of_int (sint n smod sint d))"
proof -
  have "n - d * word_of_int (sint n sdiv sint d) = word_of_int (sint n - sint d * (sint n sdiv sint d))"
    by simp
  also have "\<dots> = (word_of_int (sint n smod sint d) :: u64)"
    by (simp only: minus_mult_sdiv_eq_smod)
  finally have "(ucast (n - d * word_of_int (sint n sdiv sint d)) :: u32) =
      ucast (word_of_int (sint n smod sint d) :: u64)" by (rule arg_cong)
  also have "\<dots> = word_of_int (sint n smod sint d)" by (simp add: ucast_down_wi is_down)
  finally show ?thesis using sdiv64_eq[OF assms, of n] by (simp add: smod64_def)
qed

subsection \<open>Properties\<close>

text \<open>C22. Unsigned 64-bit division returns exactly when the divisor is nonzero, and then the result
  is the quotient: the inner \<open>divl\<close> never traps and the estimate is corrected.\<close>

theorem udivdi3_correct:
  "if d = 0 then udivdi3 n d = None
   else \<exists>q. udivdi3 n d = Some q \<and> unat q = unat n div unat d"
proof -
  have "unat (word_of_nat (unat n div unat d) :: u64) = unat n div unat d"
    using unat_u64[of n] div_le_dividend[of "unat n" "unat d"] by (intro unat_of_nat_u64) linarith
  then show ?thesis using udiv64_eq[of d n] udiv64_0 by (simp add: udivdi3_def)
qed

text \<open>C26. Signed 64-bit division truncates towards zero for every nonzero divisor and every
  representable quotient.\<close>

theorem divdi3_correct:
  assumes "d \<noteq> 0" and "\<not> (sint n = - (2 ^ 63) \<and> sint d = - 1)"
  shows "\<exists>q. divdi3 n d = Some q \<and> sint q = sint n sdiv sint d"
  using sdiv64_eq[OF assms(1), of n] sdiv_range[OF assms(2)] by (simp add: divdi3_def)


theorem divdi3_correct_witness:
  "\<exists>q. divdi3 (- 7) 2 = Some q \<and> sint q = - 3"
  using divdi3_correct[of 2 "- 7"] by (simp add: signed_divide_int_def)


end
