(* ===== verification/Pintos_Stdlib.thy ===== *)
theory Pintos_Stdlib
  imports Pintos_Prelude
begin

section \<open>Sorting, searching and number parsing (lib/stdlib.c, lib/ctype.h)\<close>

text \<open>
  An array is a list of elements; the byte loop of \<open>do_swap\<close> exchanges two whole elements. Heap
  indices are 1-based as in the code. Strings are lists of bytes that hold the terminating zero;
  running past the end of the list is \<open>None\<close>. The value of \<open>atoi\<close> is computed in 32-bit
  arithmetic.
\<close>

subsection \<open>Operations\<close>

definition do_swap :: "'a list \<Rightarrow> nat \<Rightarrow> nat \<Rightarrow> 'a list" where
  "do_swap array a_idx b_idx =
     array[a_idx - 1 := array ! (b_idx - 1), b_idx - 1 := array ! (a_idx - 1)]"

definition do_compare :: "('a \<Rightarrow> 'a \<Rightarrow> int) \<Rightarrow> 'a list \<Rightarrow> nat \<Rightarrow> nat \<Rightarrow> int" where
  "do_compare compare array a_idx b_idx = compare (array ! (a_idx - 1)) (array ! (b_idx - 1))"

definition heapify_max :: "('a \<Rightarrow> 'a \<Rightarrow> int) \<Rightarrow> 'a list \<Rightarrow> nat \<Rightarrow> nat \<Rightarrow> nat" where
  "heapify_max compare array i cnt =
     (let left = 2 * i;
          right = 2 * i + 1;
          m = i;
          m = (if left \<le> cnt \<and> do_compare compare array left m > 0 then left else m)
      in if right \<le> cnt \<and> do_compare compare array right m > 0 then right else m)"

lemma heapify_max_grows:
  "heapify_max compare array i cnt \<noteq> i \<Longrightarrow> i < heapify_max compare array i cnt \<and>
     heapify_max compare array i cnt \<le> cnt"
  by (auto simp: heapify_max_def Let_def split: if_splits)

function heapify :: "('a \<Rightarrow> 'a \<Rightarrow> int) \<Rightarrow> 'a list \<Rightarrow> nat \<Rightarrow> nat \<Rightarrow> 'a list" where
  "heapify compare array i cnt =
     (let m = heapify_max compare array i cnt
      in if m = i then array else heapify compare (do_swap array i m) m cnt)"
  by pat_completeness auto
termination
  by (relation "measure (\<lambda>(c, a, i, cnt). cnt - i)")
    (use heapify_max_grows in \<open>fastforce+\<close>)

fun sort_build :: "('a \<Rightarrow> 'a \<Rightarrow> int) \<Rightarrow> 'a list \<Rightarrow> nat \<Rightarrow> nat \<Rightarrow> 'a list" where
  "sort_build compare array 0 cnt = array"
| "sort_build compare array (Suc i) cnt =
     sort_build compare (heapify compare array (Suc i) cnt) i cnt"

function sort_heap :: "('a \<Rightarrow> 'a \<Rightarrow> int) \<Rightarrow> 'a list \<Rightarrow> nat \<Rightarrow> 'a list" where
  "sort_heap compare array i =
     (if i > 1 then sort_heap compare (heapify compare (do_swap array 1 i) 1 (i - 1)) (i - 1)
      else array)"
  by pat_completeness auto
termination by (relation "measure (\<lambda>(c, a, i). i)") auto

definition sort_array :: "('a \<Rightarrow> 'a \<Rightarrow> int) \<Rightarrow> 'a list \<Rightarrow> 'a list" where
  "sort_array compare array =
     (let cnt = length array in sort_heap compare (sort_build compare array (cnt div 2) cnt) cnt)"

definition qsort_array :: "('a \<Rightarrow> 'a \<Rightarrow> int) \<Rightarrow> 'a list \<Rightarrow> 'a list" where
  "qsort_array compare array = sort_array compare array"

function binary_search_loop :: "('k \<Rightarrow> 'a \<Rightarrow> int) \<Rightarrow> 'k \<Rightarrow> 'a list \<Rightarrow> nat \<Rightarrow> nat \<Rightarrow> nat option" where
  "binary_search_loop compare key array first_i last_i =
     (if first_i < last_i then
        let range = last_i - first_i;
            middle = first_i + range div 2;
            cmp = compare key (array ! middle)
        in if cmp < 0 then binary_search_loop compare key array first_i middle
           else if cmp > 0 then binary_search_loop compare key array (middle + 1) last_i
           else Some middle
      else None)"
  by pat_completeness auto
termination
  by (relation "measure (\<lambda>(c, k, a, f, l). l - f)") auto

definition binary_search :: "('k \<Rightarrow> 'a \<Rightarrow> int) \<Rightarrow> 'k \<Rightarrow> 'a list \<Rightarrow> nat option" where
  "binary_search compare key array = binary_search_loop compare key array 0 (length array)"

definition bsearch :: "('k \<Rightarrow> 'a \<Rightarrow> int) \<Rightarrow> 'k \<Rightarrow> 'a list \<Rightarrow> nat option" where
  "bsearch compare key array = binary_search compare key array"






declare heapify.simps [simp del] sort_heap.simps [simp del] binary_search_loop.simps [simp del]

subsection \<open>The contract of a comparison function\<close>

text \<open>Sorting and searching rely on a function with a result like that of \<open>strcmp\<close>.\<close>

locale comparator =
  fixes compare :: "'a \<Rightarrow> 'a \<Rightarrow> int"
  assumes order: "strict_weak_order (\<lambda>a b. compare a b < 0)"
    and antisym: "compare a b > 0 \<longleftrightarrow> compare b a < 0"
begin

lemma le_refl: "compare a a \<le> 0"
  using antisym[of a a] strict_weak_order.irrefl[OF order, of a] by simp

lemma le_trans: "compare a b \<le> 0 \<Longrightarrow> compare b c \<le> 0 \<Longrightarrow> compare a c \<le> 0"
  using strict_weak_order.le_trans[OF order, of b a c] antisym by (meson linorder_not_le)

lemma not_le: "0 < compare a b \<Longrightarrow> compare b a \<le> 0"
  using antisym[of a b] by simp

end

subsection \<open>Heaps\<close>

text \<open>\<open>elem_at xs k\<close> is the element with the 1-based index \<open>k\<close>.\<close>

definition elem_at :: "'a list \<Rightarrow> nat \<Rightarrow> 'a" where
  "elem_at xs k = xs ! (k - 1)"

text \<open>Every element up to \<open>cnt\<close> whose parent is at \<open>i\<close> or behind it is at most its parent.\<close>

definition heap_from :: "('a \<Rightarrow> 'a \<Rightarrow> int) \<Rightarrow> 'a list \<Rightarrow> nat \<Rightarrow> nat \<Rightarrow> bool" where
  "heap_from compare xs i cnt \<longleftrightarrow>
     (\<forall>j \<in> {2 .. cnt}. i \<le> j div 2 \<longrightarrow> compare (elem_at xs j) (elem_at xs (j div 2)) \<le> 0)"

text \<open>The same except at the children of \<open>i\<close>, which are at most the parent of \<open>i\<close>.\<close>

definition heap_but :: "('a \<Rightarrow> 'a \<Rightarrow> int) \<Rightarrow> 'a list \<Rightarrow> nat \<Rightarrow> nat \<Rightarrow> nat \<Rightarrow> bool" where
  "heap_but compare xs i0 i cnt \<longleftrightarrow>
     (\<forall>j \<in> {2 .. cnt}. i0 \<le> j div 2 \<and> j div 2 \<noteq> i \<longrightarrow>
        compare (elem_at xs j) (elem_at xs (j div 2)) \<le> 0) \<and>
     (\<forall>j \<in> {2 .. cnt}. j div 2 = i \<and> i0 \<le> i div 2 \<longrightarrow>
        compare (elem_at xs j) (elem_at xs (i div 2)) \<le> 0)"

lemma length_do_swap [simp]: "length (do_swap xs a b) = length xs"
  by (simp add: do_swap_def)

lemma elem_at_do_swap:
  assumes "1 \<le> a" "a \<le> length xs" "1 \<le> b" "b \<le> length xs" "1 \<le> k" "k \<le> length xs"
  shows "elem_at (do_swap xs a b) k = (if k = b then elem_at xs a else if k = a then elem_at xs b
     else elem_at xs k)"
  using assms by (auto simp: elem_at_def do_swap_def nth_list_update)

lemma mset_do_swap:
  assumes "1 \<le> a" "a \<le> length xs" "1 \<le> b" "b \<le> length xs"
  shows "mset (do_swap xs a b) = mset xs"
  using assms unfolding do_swap_def by (intro mset_swap) simp_all

context comparator
begin

lemma heapify_max_cases:
  assumes "1 \<le> i" and m: "m = heapify_max compare xs i cnt"
  shows "m = i \<or> m div 2 = i \<and> m \<le> cnt \<and> 2 \<le> m"
    and "\<And>j. j \<in> {2 .. cnt} \<Longrightarrow> j div 2 = i \<Longrightarrow> compare (elem_at xs j) (elem_at xs m) \<le> 0"
    and "compare (elem_at xs i) (elem_at xs m) \<le> 0"
proof -
  show "m = i \<or> m div 2 = i \<and> m \<le> cnt \<and> 2 \<le> m"
    using assms(1) unfolding m heapify_max_def Let_def by auto
  define l where "l = (if 2 * i \<le> cnt \<and> 0 < compare (elem_at xs (2 * i)) (elem_at xs i) then 2 * i else i)"
  have ml: "m = (if 2 * i + 1 \<le> cnt \<and> 0 < compare (elem_at xs (2 * i + 1)) (elem_at xs l)
      then 2 * i + 1 else l)"
    unfolding m heapify_max_def do_compare_def l_def elem_at_def Let_def by simp
  have l: "compare (elem_at xs i) (elem_at xs l) \<le> 0"
    "2 * i \<le> cnt \<Longrightarrow> compare (elem_at xs (2 * i)) (elem_at xs l) \<le> 0"
    using le_refl not_le unfolding l_def by auto
  have lm: "compare (elem_at xs l) (elem_at xs m) \<le> 0"
    using le_refl not_le unfolding ml by auto
  show "compare (elem_at xs i) (elem_at xs m) \<le> 0" using l(1) lm le_trans by blast
  fix j assume j: "j \<in> {2 .. cnt}" "j div 2 = i"
  then have "j = 2 * i \<or> j = 2 * i + 1" by auto
  then show "compare (elem_at xs j) (elem_at xs m) \<le> 0"
  proof
    assume "j = 2 * i"
    with l(2) lm j le_trans show ?thesis by auto
  next
    assume "j = 2 * i + 1"
    with j le_refl show ?thesis unfolding ml by auto
  qed
qed

lemma heap_but_swap:
  assumes "heap_but compare xs i0 i cnt" and "1 \<le> i0" and "i0 \<le> i" and "cnt \<le> length xs"
    and "m = heapify_max compare xs i cnt" and "m \<noteq> i"
  shows "heap_but compare (do_swap xs i m) i0 m cnt"
proof -
  have i: "1 \<le> i" using assms(2,3) by simp
  have m: "m div 2 = i" "m \<le> cnt" "2 \<le> m" using heapify_max_cases(1)[OF i assms(5)] assms(6) by auto
  note mx = heapify_max_cases(2,3)[OF i assms(5)]
  have im: "i < m" using heapify_max_grows[of compare xs i cnt] assms(5,6) by auto
  define f where "f = elem_at (do_swap xs i m)"
  have f: "f i = elem_at xs m" "f m = elem_at xs i"
    using elem_at_do_swap[of i xs m i] elem_at_do_swap[of i xs m m] i m assms(4) im
    by (simp_all add: f_def)
  have f': "f k = elem_at xs k" if "1 \<le> k" "k \<le> cnt" "k \<noteq> i" "k \<noteq> m" for k
    using elem_at_do_swap[of i xs m k] that i m assms(4) im by (simp add: f_def)
  note b1 = assms(1)[unfolded heap_but_def, THEN conjunct1, rule_format]
    and b2 = assms(1)[unfolded heap_but_def, THEN conjunct2, rule_format]
  have "compare (f j) (f (j div 2)) \<le> 0" if j: "j \<in> {2 .. cnt}" "i0 \<le> j div 2" "j div 2 \<noteq> m" for j
  proof (cases "j div 2 = i")
    case True
    then have "j \<noteq> i" using j(1) by auto
    then show ?thesis
      using mx(1)[OF j(1) True] mx(2) f f'[of j] j(1) True by (cases "j = m") simp_all
  next
    case False
    then have "j \<noteq> m" using m(1) by auto
    have p: "f (j div 2) = elem_at xs (j div 2)" using f'[of "j div 2"] j False by auto
    show ?thesis
    proof (cases "j = i")
      case True
      with b2[of m] m j p f(1) show ?thesis by simp
    next
      case ji: False
      with b1[OF j(1)] j False f'[of j] \<open>j \<noteq> m\<close> p show ?thesis by simp
    qed
  qed
  moreover have "compare (f j) (f (m div 2)) \<le> 0" if j: "j \<in> {2 .. cnt}" "j div 2 = m" for j
  proof -
    have "j \<noteq> m" "j \<noteq> i" "i0 \<le> j div 2" "j div 2 \<noteq> i" using j im m(1,3) assms(3) by auto
    with b1[OF j(1)] f'[of j] j f(1) m(1) show ?thesis by simp
  qed
  ultimately show ?thesis unfolding heap_but_def f_def[symmetric] by blast
qed

lemma heapify_heap:
  assumes "heap_but compare xs i0 i cnt" and "1 \<le> i0" and "i0 \<le> i" and "cnt \<le> length xs"
  shows "heap_from compare (heapify compare xs i cnt) i0 cnt \<and>
    mset (heapify compare xs i cnt) = mset xs \<and>
    (\<forall>k. cnt \<le> k \<longrightarrow> heapify compare xs i cnt ! k = xs ! k)"
  using assms
proof (induction "cnt - i" arbitrary: xs i rule: less_induct)
  case less
  define m where "m = heapify_max compare xs i cnt"
  have i: "1 \<le> i" using less.prems by simp
  show ?case
  proof (cases "m = i")
    case True
    have "heap_from compare xs i0 cnt"
      using less.prems(1) heapify_max_cases(2)[OF i m_def] True
      unfolding heap_from_def heap_but_def by metis
    moreover have "heapify compare xs i cnt = xs"
      using True by (subst heapify.simps) (simp add: m_def Let_def)
    ultimately show ?thesis by simp
  next
    case False
    have m: "m div 2 = i" "m \<le> cnt" "i < m"
      using heapify_max_cases(1)[OF i m_def] heapify_max_grows[of compare xs i cnt] False
      by (auto simp: m_def)
    have h: "heapify compare xs i cnt = heapify compare (do_swap xs i m) m cnt"
      using False by (subst heapify.simps) (simp add: m_def Let_def)
    have "mset (do_swap xs i m) = mset xs" using i m less.prems(4) by (intro mset_do_swap) auto
    moreover have "\<forall>k. cnt \<le> k \<longrightarrow> do_swap xs i m ! k = xs ! k" using m i by (simp add: do_swap_def)
    moreover have "heap_but compare (do_swap xs i m) i0 m cnt"
      using heap_but_swap[OF less.prems m_def False] .
    ultimately show ?thesis
      using less.hyps[of m "do_swap xs i m"] m less.prems unfolding h by simp
  qed
qed

lemma heapify_from:
  assumes "heap_from compare xs (i + 1) cnt" and "1 \<le> i" and "cnt \<le> length xs"
  shows "heap_from compare (heapify compare xs i cnt) i cnt"
    and "mset (heapify compare xs i cnt) = mset xs"
    and "\<And>k. cnt \<le> k \<Longrightarrow> heapify compare xs i cnt ! k = xs ! k"
proof -
  have "heap_but compare xs i i cnt"
    using assms(1,2) unfolding heap_from_def heap_but_def by auto
  from heapify_heap[OF this assms(2) order_refl assms(3)]
  show "heap_from compare (heapify compare xs i cnt) i cnt"
    "mset (heapify compare xs i cnt) = mset xs"
    "\<And>k. cnt \<le> k \<Longrightarrow> heapify compare xs i cnt ! k = xs ! k" by auto
qed

lemma sort_build_heap:
  assumes "heap_from compare xs (i + 1) (length xs)"
  shows "heap_from compare (sort_build compare xs i (length xs)) 1 (length xs) \<and>
    mset (sort_build compare xs i (length xs)) = mset xs"
  using assms
proof (induction i arbitrary: xs)
  case (Suc i)
  note h = heapify_from[of xs "Suc i" "length xs"]
  have "length (heapify compare xs (Suc i) (length xs)) = length xs"
    using h(2) Suc.prems by (simp flip: size_mset)
  with Suc.IH[of "heapify compare xs (Suc i) (length xs)"] h(1,2) Suc.prems show ?case by simp
qed simp

text \<open>The root of a heap is a greatest element.\<close>

lemma heap_root:
  assumes "heap_from compare xs 1 n" and "1 \<le> k" and "k \<le> n"
  shows "compare (elem_at xs k) (elem_at xs 1) \<le> 0"
  using assms(2,3)
proof (induction k rule: less_induct)
  case (less k)
  show ?case
  proof (cases "k = 1")
    case False
    with less.prems have k: "2 \<le> k" "1 \<le> k div 2" "k div 2 < k" "k div 2 \<le> n" by auto
    have "compare (elem_at xs k) (elem_at xs (k div 2)) \<le> 0"
      using assms(1) k less.prems unfolding heap_from_def by simp
    with less.IH[OF k(3,2,4)] le_trans show ?thesis by blast
  qed (simp add: le_refl)
qed

text \<open>Between two rounds of the second phase the first \<open>i\<close> elements are a heap, the rest is sorted and
  no element of the heap exceeds it.\<close>

definition sort_inv :: "'a list \<Rightarrow> nat \<Rightarrow> bool" where
  "sort_inv xs i \<longleftrightarrow> i \<le> length xs \<and> heap_from compare xs 1 i \<and>
     sorted_wrt (\<lambda>a b. compare a b \<le> 0) (drop i xs) \<and>
     (\<forall>a \<in> set (take i xs). \<forall>b \<in> set (drop i xs). compare a b \<le> 0)"

lemma sort_inv_step:
  assumes "sort_inv xs i" and "1 < i"
  defines "ys \<equiv> heapify compare (do_swap xs 1 i) 1 (i - 1)"
  shows "sort_inv ys (i - 1)" and "mset ys = mset xs"
proof -
  have i: "i \<le> length xs" using assms(1) by (simp add: sort_inv_def)
  have heap: "heap_from compare xs 1 i" using assms(1) by (simp add: sort_inv_def)
  let ?zs = "do_swap xs 1 i"
  have at: "elem_at ?zs k = (if k = i then elem_at xs 1 else if k = 1 then elem_at xs i else elem_at xs k)"
    if "1 \<le> k" "k \<le> length xs" for k
    using that assms(2) i by (intro elem_at_do_swap) auto
  have "heap_from compare ?zs (1 + 1) (i - 1)"
    unfolding heap_from_def
  proof (intro ballI impI)
    fix j assume j: "j \<in> {2 .. i - 1}" "1 + 1 \<le> j div 2"
    then have "1 \<le> j" "j \<le> length xs" "1 \<le> j div 2" "j div 2 \<le> length xs" "j \<noteq> i" "j \<noteq> 1"
      "j div 2 \<noteq> i" "j div 2 \<noteq> 1" "j \<in> {2 .. i}" using i by auto
    moreover from this have "elem_at ?zs j = elem_at xs j" "elem_at ?zs (j div 2) = elem_at xs (j div 2)"
      using at[of j] at[of "j div 2"] by simp_all
    ultimately show "compare (elem_at ?zs j) (elem_at ?zs (j div 2)) \<le> 0"
      using heap unfolding heap_from_def by simp
  qed
  note h = heapify_from[OF this, folded ys_def]
  have zs: "mset ?zs = mset xs" using assms(2) i by (intro mset_do_swap) auto
  have ys: "mset ys = mset ?zs" "heap_from compare ys 1 (i - 1)"
    "\<And>k. i - 1 \<le> k \<Longrightarrow> ys ! k = ?zs ! k" using h i by auto
  show "mset ys = mset xs" using ys(1) zs by simp
  have len: "length ys = length xs" using ys(1) zs by (metis size_mset)
  have dr: "drop (i - 1) ys = elem_at xs 1 # drop i xs"
  proof (rule nth_equalityI)
    show "length (drop (i - 1) ys) = length (elem_at xs 1 # drop i xs)" using len i assms(2) by simp
    fix k assume "k < length (drop (i - 1) ys)"
    then have k: "i - 1 + k < length xs" using len by simp
    have "drop (i - 1) ys ! k = ?zs ! (i - 1 + k)" using ys(3)[of "i - 1 + k"] k len by simp
    also have "\<dots> = elem_at ?zs (i + k)" using assms(2) by (simp add: elem_at_def)
    also have "\<dots> = (elem_at xs 1 # drop i xs) ! k"
      using at[of "i + k"] k assms(2) i by (cases k) (auto simp: elem_at_def)
    finally show "drop (i - 1) ys ! k = (elem_at xs 1 # drop i xs) ! k" .
  qed
  have "mset (take (i - 1) ys) + mset (drop (i - 1) ys) = mset (take i xs) + mset (drop i xs)"
    using ys(1) zs by (simp flip: mset_append)
  then have tk: "add_mset (elem_at xs 1) (mset (take (i - 1) ys)) = mset (take i xs)"
    unfolding dr by simp
  have root: "compare a (elem_at xs 1) \<le> 0" if "a \<in> set (take i xs)" for a
  proof -
    from that obtain k where "k < i" "a = xs ! k" by (auto simp: in_set_conv_nth)
    with heap_root[OF heap, of "k + 1"] show ?thesis by (simp add: elem_at_def)
  qed
  have sub: "set (take (i - 1) ys) \<subseteq> set (take i xs)" "elem_at xs 1 \<in> set (take i xs)"
    using arg_cong[OF tk, of set_mset] by auto
  show "sort_inv ys (i - 1)"
    using assms(1) ys(2) len i root sub unfolding sort_inv_def dr by auto
qed

lemma sort_heap_sorted:
  assumes "sort_inv xs i"
  shows "sorted_wrt (\<lambda>a b. compare a b \<le> 0) (sort_heap compare xs i)"
    and "mset (sort_heap compare xs i) = mset xs"
  using assms
proof (induction i arbitrary: xs rule: less_induct)
  case (less i)
  {
    case 1
    show ?case
    proof (cases "1 < i")
      case True
      with less(1)[OF _ sort_inv_step(1)[OF 1 True]] show ?thesis by (subst sort_heap.simps) simp
    next
      case False
      then have "length (take i xs) \<le> 1" by simp
      then have "sorted_wrt (\<lambda>a b. compare a b \<le> 0) (take i xs)"
        by (cases "take i xs") auto
      then have "sorted_wrt (\<lambda>a b. compare a b \<le> 0) (take i xs @ drop i xs)"
        using 1 unfolding sort_inv_def sorted_wrt_append by blast
      then have "sorted_wrt (\<lambda>a b. compare a b \<le> 0) xs" by (simp only: append_take_drop_id)
      with False show ?thesis by (subst sort_heap.simps) simp
    qed
  next
    case 2
    show ?case
    proof (cases "1 < i")
      case True
      with less(2)[OF _ sort_inv_step(1)[OF 2 True]] sort_inv_step(2)[OF 2 True] show ?thesis
        by (subst sort_heap.simps) simp
    next
      case False
      then show ?thesis by (subst sort_heap.simps) simp
    qed
  }
qed

lemma sort_array_sorted:
  "sorted_wrt (\<lambda>a b. compare a b \<le> 0) (sort_array compare xs)" "mset (sort_array compare xs) = mset xs"
proof -
  have "heap_from compare xs (length xs div 2 + 1) (length xs)"
    unfolding heap_from_def by (auto dest: div_le_mono[of _ _ 2])
  note b = sort_build_heap[OF this]
  let ?ys = "sort_build compare xs (length xs div 2) (length xs)"
  have "length ?ys = length xs" using b by (metis size_mset)
  with b have "sort_inv ?ys (length xs)" by (simp add: sort_inv_def)
  from sort_heap_sorted[OF this] b
  show "sorted_wrt (\<lambda>a b. compare a b \<le> 0) (sort_array compare xs)" "mset (sort_array compare xs) = mset xs"
    by (simp_all add: sort_array_def Let_def)
qed

end

subsection \<open>Binary search\<close>

lemma binary_search_loop_found:
  assumes "binary_search_loop compare key xs f l = Some m"
  shows "f \<le> m \<and> m < l \<and> compare key (xs ! m) = 0"
  using assms
proof (induction compare key xs f l rule: binary_search_loop.induct)
  case (1 compare key xs f l)
  define k where "k = f + (l - f) div 2"
  have fl: "f < l" using 1(3) by (subst (asm) binary_search_loop.simps) (auto split: if_splits)
  then have k: "f \<le> k" "k < l" by (auto simp: k_def)
  consider "compare key (xs ! k) < 0" | "compare key (xs ! k) > 0" | "compare key (xs ! k) = 0" by linarith
  then show ?case
  proof cases
    case 1
    with "1.IH"(1)[OF fl refl k_def refl] "1.prems" fl k show ?thesis
      by (subst (asm) (2) binary_search_loop.simps) (auto simp: k_def Let_def)
  next
    case 2
    with "1.IH"(2)[OF fl refl k_def refl] "1.prems" fl k show ?thesis
      by (subst (asm) (2) binary_search_loop.simps) (auto simp: k_def Let_def)
  next
    case 3
    with "1.prems" fl k show ?thesis
      by (subst (asm) binary_search_loop.simps) (auto simp: k_def Let_def)
  qed
qed

lemma binary_search_loop_missing:
  assumes "binary_search_loop compare key xs f l = None" and "l \<le> length xs"
    and "\<And>i j. i < j \<Longrightarrow> j < length xs \<Longrightarrow> compare key (xs ! i) < 0 \<Longrightarrow> compare key (xs ! j) < 0"
    and "\<And>i j. i < j \<Longrightarrow> j < length xs \<Longrightarrow> compare key (xs ! j) > 0 \<Longrightarrow> compare key (xs ! i) > 0"
  shows "\<forall>i. f \<le> i \<and> i < l \<longrightarrow> compare key (xs ! i) \<noteq> 0"
  using assms
proof (induction compare key xs f l rule: binary_search_loop.induct)
  case (1 compare key xs f l)
  show ?case
  proof (cases "f < l")
    case True
    define k where "k = f + (l - f) div 2"
    have k: "f \<le> k" "k < l" using True by (auto simp: k_def)
    consider "compare key (xs ! k) < 0" | "compare key (xs ! k) > 0" | "compare key (xs ! k) = 0" by linarith
    then show ?thesis
    proof cases
      case c: 1
      have n: "binary_search_loop compare key xs f k = None"
        using "1.prems"(1) True c by (subst (asm) binary_search_loop.simps) (simp add: k_def Let_def)
      have "\<forall>i. f \<le> i \<and> i < k \<longrightarrow> compare key (xs ! i) \<noteq> 0"
        using "1.IH"(1)[OF True refl k_def refl c n] "1.prems"(2-4) k by auto
      moreover have "compare key (xs ! i) \<noteq> 0" if "k \<le> i" "i < l" for i
        using "1.prems"(3)[of k i] c that "1.prems"(2) by (cases "i = k") auto
      ultimately show ?thesis by (metis not_le)
    next
      case c: 2
      have n: "binary_search_loop compare key xs (k + 1) l = None"
        using "1.prems"(1) True c by (subst (asm) binary_search_loop.simps) (simp add: k_def Let_def)
      have "\<forall>i. k + 1 \<le> i \<and> i < l \<longrightarrow> compare key (xs ! i) \<noteq> 0"
        using "1.IH"(2)[OF True refl k_def refl _ c n] c "1.prems"(2-4) by auto
      moreover have "compare key (xs ! i) \<noteq> 0" if "i \<le> k" for i
        using "1.prems"(4)[of i k] c that "1.prems"(2) k by (cases "i = k") auto
      ultimately show ?thesis by (metis Suc_eq_plus1 not_less_eq_eq)
    next
      case 3
      with "1.prems"(1) True show ?thesis
        by (subst (asm) binary_search_loop.simps) (simp add: k_def Let_def)
    qed
  qed simp
qed

subsection \<open>Decimal numbers\<close>











subsection \<open>Properties\<close>

text \<open>C28. \<open>sort\<close> (heapsort) turns an array into a sorted permutation of it, for every comparison
  function with the contract of \<open>strcmp\<close>.\<close>

theorem sort_correct:
  assumes "comparator compare"
  shows "sorted_wrt (\<lambda>a b. compare a b \<le> 0) (sort_array compare xs) \<and>
         mset (sort_array compare xs) = mset xs"
  using comparator.sort_array_sorted[OF assms] by blast

text \<open>C29. \<open>binary_search\<close> returns an index whose element matches the key if there is one, and nothing
  otherwise, for an array on which the comparison with the key changes sign once.\<close>

theorem binary_search_correct:
  assumes "\<And>i j. i < j \<Longrightarrow> j < length xs \<Longrightarrow> compare key (xs ! i) < 0 \<Longrightarrow> compare key (xs ! j) < 0"
    and "\<And>i j. i < j \<Longrightarrow> j < length xs \<Longrightarrow> compare key (xs ! j) > 0 \<Longrightarrow> compare key (xs ! i) > 0"
  shows "case binary_search compare key xs of
           Some m \<Rightarrow> m < length xs \<and> compare key (xs ! m) = 0
         | None \<Rightarrow> (\<forall>x \<in> set xs. compare key x \<noteq> 0)"
proof (cases "binary_search compare key xs")
  case None
  then have "binary_search_loop compare key xs 0 (length xs) = None" by (simp add: binary_search_def)
  from binary_search_loop_missing[OF this order_refl assms] None show ?thesis
    by (auto simp: in_set_conv_nth)
next
  case (Some m)
  then show ?thesis using binary_search_loop_found[of compare key xs 0 "length xs" m]
    by (simp add: binary_search_def)
qed


lemma int_comparator: "comparator (\<lambda>a b. a - (b::int))"
proof (rule comparator.intro)
  show "strict_weak_order (\<lambda>a b. a - (b::int) < 0)"
    using strict_weak_order_key[of "\<lambda>a :: int. a"] by simp
qed simp

theorem sort_correct_witness:
  "mset (sort_array (\<lambda>a b. a - b) [3, 1, 2 :: int]) = mset [3, 1, 2] \<and>
   sorted_wrt (\<lambda>a b. a - b \<le> 0) (sort_array (\<lambda>a b. a - b) [3, 1, 2 :: int])"
  using sort_correct[OF int_comparator, of "[3, 1, 2]"] by blast

theorem binary_search_correct_witness:
  "case binary_search (\<lambda>a b. a - b) 5 [2, 3, 5 :: int] of
     Some m \<Rightarrow> m < 3 \<and> [2, 3, 5] ! m = (5 :: int) | None \<Rightarrow> False"
proof -
  have "[2, 3, 5 :: int] ! i \<le> [2, 3, 5] ! j" if "i < j" "j < 3" for i j
  proof -
    have "j = 1 \<or> j = 2" using that by auto
    then show ?thesis using that(1) by (auto simp: less_Suc_eq numeral_2_eq_2)
  qed
  then show ?thesis
    using binary_search_correct[of "[2, 3, 5]" "\<lambda>a b. a - b" 5]
    by (fastforce split: option.splits)
qed


end
