(* ===== verification/Pintos_String.thy ===== *)
theory Pintos_String
  imports Pintos_Stdlib "HOL-Library.List_Lexorder"
begin

section \<open>Memory blocks and strings (lib/string.c)\<close>

text \<open>
  A pointer argument that is only read, or that is written from its address on, is the list of the
  bytes from that address to the end of the object it points into. Reading or writing behind the
  end is \<open>None\<close>, so a result other than \<open>None\<close> also says that no buffer was overrun. A pointer result is an
  offset. \<open>memmove\<close>, whose two blocks may overlap, works on a byte memory and addresses.
\<close>

subsection \<open>Operations\<close>

fun memcpy_loop :: "u8 list \<Rightarrow> u8 list \<Rightarrow> nat \<Rightarrow> u8 list option" where
  "memcpy_loop dst src 0 = Some dst"
| "memcpy_loop (d # dst) (s # src) (Suc sz) = map_option (Cons s) (memcpy_loop dst src sz)"
| "memcpy_loop _ _ (Suc sz) = None"

definition memcpy :: "u8 list \<Rightarrow> u8 list \<Rightarrow> nat \<Rightarrow> u8 list option" where
  "memcpy dst src sz = memcpy_loop dst src sz"





fun memcmp :: "u8 list \<Rightarrow> u8 list \<Rightarrow> nat \<Rightarrow> int option" where
  "memcmp a b 0 = Some 0"
| "memcmp (x # a) (y # b) (Suc sz) =
     (if x \<noteq> y then Some (if x > y then 1 else - 1) else memcmp a b sz)"
| "memcmp _ _ (Suc sz) = None"

fun strcmp :: "u8 list \<Rightarrow> u8 list \<Rightarrow> int option" where
  "strcmp (x # a) (y # b) =
     (if x \<noteq> 0 \<and> x = y then strcmp a b
      else Some (if x < y then - 1 else if x > y then 1 else 0))"
| "strcmp _ _ = None"

fun memchr :: "u8 list \<Rightarrow> u8 \<Rightarrow> nat \<Rightarrow> nat \<Rightarrow> nat option option" where
  "memchr block ch 0 pos = Some None"
| "memchr (x # block) ch (Suc sz) pos =
     (if x = ch then Some (Some pos) else memchr block ch sz (pos + 1))"
| "memchr [] ch (Suc sz) pos = None"

fun strchr_from :: "u8 list \<Rightarrow> u8 \<Rightarrow> nat \<Rightarrow> nat option option" where
  "strchr_from [] c pos = None"
| "strchr_from (x # string) c pos =
     (if x = c then Some (Some pos) else if x = 0 then Some None
      else strchr_from string c (pos + 1))"

definition strchr :: "u8 list \<Rightarrow> u8 \<Rightarrow> nat option option" where
  "strchr string c = strchr_from string c 0"

fun strcspn :: "u8 list \<Rightarrow> u8 list \<Rightarrow> nat option" where
  "strcspn [] stop = None"
| "strcspn (x # string) stop =
     (if x \<noteq> 0 then do {
        r \<leftarrow> strchr stop x;
        if r \<noteq> None then Some 0 else map_option Suc (strcspn string stop)
      } else Some 0)"

fun strpbrk_from :: "u8 list \<Rightarrow> u8 list \<Rightarrow> nat \<Rightarrow> nat option option" where
  "strpbrk_from [] stop pos = None"
| "strpbrk_from (x # string) stop pos =
     (if x \<noteq> 0 then do {
        r \<leftarrow> strchr stop x;
        if r \<noteq> None then Some (Some pos) else strpbrk_from string stop (pos + 1)
      } else Some None)"

definition strpbrk :: "u8 list \<Rightarrow> u8 list \<Rightarrow> nat option option" where
  "strpbrk string stop = strpbrk_from string stop 0"

fun strrchr_from :: "u8 list \<Rightarrow> u8 \<Rightarrow> nat \<Rightarrow> nat option \<Rightarrow> nat option option" where
  "strrchr_from [] c pos p = None"
| "strrchr_from (x # string) c pos p =
     (if x \<noteq> 0 then strrchr_from string c (pos + 1) (if x = c then Some pos else p)
      else Some p)"

definition strrchr :: "u8 list \<Rightarrow> u8 \<Rightarrow> nat option option" where
  "strrchr string c = strrchr_from string c 0 None"

fun strspn :: "u8 list \<Rightarrow> u8 list \<Rightarrow> nat option" where
  "strspn [] skip = None"
| "strspn (x # string) skip =
     (if x \<noteq> 0 then do {
        r \<leftarrow> strchr skip x;
        if r = None then Some 0 else map_option Suc (strspn string skip)
      } else Some 0)"

fun strlen :: "u8 list \<Rightarrow> nat option" where
  "strlen [] = None"
| "strlen (x # string) = (if x \<noteq> 0 then map_option Suc (strlen string) else Some 0)"

text \<open>The byte at the position is read before the position is compared with \<open>maxlen\<close>.\<close>

fun strnlen :: "u8 list \<Rightarrow> nat \<Rightarrow> nat option" where
  "strnlen [] maxlen = None"
| "strnlen (x # string) maxlen =
     (if x \<noteq> 0 \<and> maxlen > 0 then map_option Suc (strnlen string (maxlen - 1)) else Some 0)"

function strstr_loop :: "u8 list \<Rightarrow> u8 list \<Rightarrow> nat \<Rightarrow> nat \<Rightarrow> nat \<Rightarrow> nat option option" where
  "strstr_loop haystack needle needle_len limit i =
     (if i \<le> limit then do {
        r \<leftarrow> memcmp (drop i haystack) needle needle_len;
        if r = 0 then Some (Some i) else strstr_loop haystack needle needle_len limit (i + 1)
      } else Some None)"
  by pat_completeness auto
termination by (relation "measure (\<lambda>(h, n, l, limit, i). Suc limit - i)") auto

definition strstr :: "u8 list \<Rightarrow> u8 list \<Rightarrow> nat option option" where
  "strstr haystack needle = do {
     haystack_len \<leftarrow> strlen haystack;
     needle_len \<leftarrow> strlen needle;
     if haystack_len \<ge> needle_len
     then strstr_loop haystack needle needle_len (haystack_len - needle_len) 0
     else Some None
   }"

text \<open>\<open>strtok_r\<close> works on a buffer and a position in it; \<open>byte_at\<close> reads the byte at a position.\<close>

definition byte_at :: "u8 list \<Rightarrow> nat \<Rightarrow> u8 option" where
  "byte_at buf s = (if s < length buf then Some (buf ! s) else None)"

function strtok_skip :: "u8 list \<Rightarrow> u8 list \<Rightarrow> nat \<Rightarrow> (nat + nat) option" where
  "strtok_skip delimiters buf s = do {
     c \<leftarrow> byte_at buf s;
     r \<leftarrow> strchr delimiters c;
     if r \<noteq> None then
       if c = 0 then Some (Inl s) else strtok_skip delimiters buf (s + 1)
     else Some (Inr s)
   }"
  by pat_completeness auto
termination
  by (relation "measure (\<lambda>(d, b, s). length b - s)") (auto simp: byte_at_def split: if_splits)

function strtok_scan :: "u8 list \<Rightarrow> u8 list \<Rightarrow> nat \<Rightarrow> nat option" where
  "strtok_scan delimiters buf s = do {
     c \<leftarrow> byte_at buf s;
     r \<leftarrow> strchr delimiters c;
     if r = None then strtok_scan delimiters buf (s + 1) else Some s
   }"
  by pat_completeness auto
termination
  by (relation "measure (\<lambda>(d, b, s). length b - s)") (auto simp: byte_at_def split: if_splits)

definition strtok_r :: "u8 list \<Rightarrow> u8 list \<Rightarrow> nat \<Rightarrow> (u8 list \<times> nat \<times> nat option) option" where
  "strtok_r delimiters buf s = do {
     r \<leftarrow> strtok_skip delimiters buf s;
     (case r of
        Inl s \<Rightarrow> Some (buf, s, None)
      | Inr token \<Rightarrow> do {
          s \<leftarrow> strtok_scan delimiters buf token;
          c \<leftarrow> byte_at buf s;
          if c \<noteq> 0 then Some (buf[s := 0], s + 1, Some token)
          else Some (buf, s, Some token)
        })
   }"

fun memset :: "u8 list \<Rightarrow> u8 \<Rightarrow> nat \<Rightarrow> u8 list option" where
  "memset dst v 0 = Some dst"
| "memset (d # dst) v (Suc sz) = map_option (Cons v) (memset dst v sz)"
| "memset [] v (Suc sz) = None"

definition strlcpy :: "u8 list \<Rightarrow> u8 list \<Rightarrow> nat \<Rightarrow> (u8 list \<times> nat) option" where
  "strlcpy dst src sz = do {
     src_len \<leftarrow> strlen src;
     if sz > 0 then do {
       let dst_len = sz - 1;
       let dst_len = (if src_len < dst_len then src_len else dst_len);
       dst \<leftarrow> memcpy dst src dst_len;
       ASSERT (dst_len < length dst);
       Some (dst[dst_len := 0], src_len)
     } else Some (dst, src_len)
   }"

definition strlcat :: "u8 list \<Rightarrow> u8 list \<Rightarrow> nat \<Rightarrow> (u8 list \<times> nat) option" where
  "strlcat dst src sz = do {
     src_len \<leftarrow> strlen src;
     dst_len \<leftarrow> strlen dst;
     if sz > 0 \<and> dst_len < sz then do {
       let copy_cnt = sz - dst_len - 1;
       let copy_cnt = (if src_len < copy_cnt then src_len else copy_cnt);
       rest \<leftarrow> memcpy (drop dst_len dst) src copy_cnt;
       let dst = take dst_len dst @ rest;
       ASSERT (dst_len + copy_cnt < length dst);
       Some (dst[dst_len + copy_cnt := 0], src_len + dst_len)
     } else Some (dst, src_len + dst_len)
   }"

declare strtok_skip.simps [simp del] strtok_scan.simps [simp del] strstr_loop.simps [simp del]

subsection \<open>Strings\<close>

text \<open>The bytes of a string \<open>s\<close> in a larger object: the characters, none of them zero, the terminator
  and whatever follows.\<close>

definition is_cstr :: "u8 list \<Rightarrow> u8 list \<Rightarrow> bool" where
  "is_cstr p s \<longleftrightarrow> 0 \<notin> set s \<and> (\<exists>rest. p = s @ 0 # rest)"

lemma is_cstr_append [simp]: "0 \<notin> set s \<Longrightarrow> is_cstr (s @ 0 # rest) s"
  by (auto simp: is_cstr_def)

lemma strlen_cstr: "is_cstr p s \<Longrightarrow> strlen p = Some (length s)"
proof -
  have "0 \<notin> set s \<Longrightarrow> strlen (s @ 0 # rest) = Some (length s)" for rest
    by (induction s) auto
  then show "is_cstr p s \<Longrightarrow> strlen p = Some (length s)" by (auto simp: is_cstr_def)
qed

lemma strchr_from_cstr:
  assumes "0 \<notin> set s"
  shows "strchr_from (s @ 0 # rest) c pos =
    Some (if c \<in> set s then Some (pos + length (takeWhile (\<lambda>x. x \<noteq> c) s))
          else if c = 0 then Some (pos + length s) else None)"
  using assms by (induction s arbitrary: pos) auto

lemma strchr_cstr:
  "is_cstr p s \<Longrightarrow> strchr p c =
     Some (if c \<in> set s then Some (length (takeWhile (\<lambda>x. x \<noteq> c) s))
           else if c = 0 then Some (length s) else None)"
  using strchr_from_cstr[of s _ c 0] by (auto simp: is_cstr_def strchr_def)

lemma strcspn_cstr:
  assumes "is_cstr p s" and "is_cstr q stop"
  shows "strcspn p q = Some (length (takeWhile (\<lambda>x. x \<notin> set stop) s))"
proof -
  have "0 \<notin> set s \<Longrightarrow> strcspn (s @ 0 # rest) q = Some (length (takeWhile (\<lambda>x. x \<notin> set stop) s))" for rest
    by (induction s) (auto simp: strchr_cstr[OF assms(2)])
  with assms(1) show ?thesis by (auto simp: is_cstr_def)
qed

lemma strspn_cstr:
  assumes "is_cstr p s" and "is_cstr q skip"
  shows "strspn p q = Some (length (takeWhile (\<lambda>x. x \<in> set skip) s))"
proof -
  have "0 \<notin> set s \<Longrightarrow> strspn (s @ 0 # rest) q = Some (length (takeWhile (\<lambda>x. x \<in> set skip) s))" for rest
    by (induction s) (auto simp: strchr_cstr[OF assms(2)])
  with assms(1) show ?thesis by (auto simp: is_cstr_def)
qed

lemma memcpy_eq:
  "sz \<le> length dst \<Longrightarrow> sz \<le> length src \<Longrightarrow> memcpy dst src sz = Some (take sz src @ drop sz dst)"
proof -
  have "sz \<le> length dst \<Longrightarrow> sz \<le> length src \<Longrightarrow>
      memcpy_loop dst src sz = Some (take sz src @ drop sz dst)"
    by (induction dst src sz rule: memcpy_loop.induct) auto
  then show "sz \<le> length dst \<Longrightarrow> sz \<le> length src \<Longrightarrow>
      memcpy dst src sz = Some (take sz src @ drop sz dst)" by (simp add: memcpy_def)
qed

lemma memcpy_overrun: "length dst < sz \<or> length src < sz \<Longrightarrow> memcpy dst src sz = None"
proof -
  have "length dst < sz \<or> length src < sz \<Longrightarrow> memcpy_loop dst src sz = None"
    by (induction dst src sz rule: memcpy_loop.induct) auto
  then show "length dst < sz \<or> length src < sz \<Longrightarrow> memcpy dst src sz = None"
    by (simp add: memcpy_def)
qed

lemma memset_eq: "sz \<le> length dst \<Longrightarrow> memset dst v sz = Some (replicate sz v @ drop sz dst)"
  by (induction dst v sz rule: memset.induct) auto

lemma memcmp_0_iff:
  "sz \<le> length a \<Longrightarrow> sz \<le> length b \<Longrightarrow> memcmp a b sz = Some 0 \<longleftrightarrow> take sz a = take sz b"
  by (induction a b sz rule: memcmp.induct) auto

lemma memcmp_returns:
  "sz \<le> length a \<Longrightarrow> sz \<le> length b \<Longrightarrow> \<exists>r. memcmp a b sz = Some r"
  by (induction a b sz rule: memcmp.induct) auto

subsection \<open>Substring search\<close>

lemma strstr_loop_cstr:
  assumes "limit + length n \<le> length h"
  shows "\<exists>r. strstr_loop h (n @ rest) (length n) limit i = Some r \<and>
    (case r of
       Some k \<Rightarrow> i \<le> k \<and> k \<le> limit \<and> take (length n) (drop k h) = n \<and>
         (\<forall>j. i \<le> j \<and> j < k \<longrightarrow> take (length n) (drop j h) \<noteq> n)
     | None \<Rightarrow> \<forall>j. i \<le> j \<and> j \<le> limit \<longrightarrow> take (length n) (drop j h) \<noteq> n)"
proof (induction "Suc limit - i" arbitrary: i rule: less_induct)
  case less
  show ?case
  proof (cases "i \<le> limit")
    case True
    have len: "length n \<le> length (drop i h)" "length n \<le> length (n @ rest)" using True assms by auto
    obtain c where c: "memcmp (drop i h) (n @ rest) (length n) = Some c"
      using memcmp_returns[OF len] by blast
    have z: "c = 0 \<longleftrightarrow> take (length n) (drop i h) = n"
      using memcmp_0_iff[OF len] c by simp
    show ?thesis
    proof (cases "c = 0")
      case True
      with c z \<open>i \<le> limit\<close> show ?thesis by (subst strstr_loop.simps) auto
    next
      case False
      have lt: "Suc limit - (i + 1) < Suc limit - i" using True by simp
      obtain r where r: "strstr_loop h (n @ rest) (length n) limit (i + 1) = Some r"
        "case r of Some k \<Rightarrow> i + 1 \<le> k \<and> k \<le> limit \<and> take (length n) (drop k h) = n \<and>
           (\<forall>j. i + 1 \<le> j \<and> j < k \<longrightarrow> take (length n) (drop j h) \<noteq> n)
         | None \<Rightarrow> \<forall>j. i + 1 \<le> j \<and> j \<le> limit \<longrightarrow> take (length n) (drop j h) \<noteq> n"
        using less[OF lt] by blast
      have s: "i \<le> j \<longleftrightarrow> j = i \<or> i + 1 \<le> j" for j by auto
      have "strstr_loop h (n @ rest) (length n) limit i = Some r"
        using r(1) c False True by (subst strstr_loop.simps) simp
      moreover have "case r of
          Some k \<Rightarrow> i \<le> k \<and> k \<le> limit \<and> take (length n) (drop k h) = n \<and>
            (\<forall>j. i \<le> j \<and> j < k \<longrightarrow> take (length n) (drop j h) \<noteq> n)
        | None \<Rightarrow> \<forall>j. i \<le> j \<and> j \<le> limit \<longrightarrow> take (length n) (drop j h) \<noteq> n"
        using r(2) z False by (cases r) (auto simp: s)
      ultimately show ?thesis by blast
    qed
  next
    case False
    then show ?thesis by (subst strstr_loop.simps) auto
  qed
qed

subsection \<open>Comparison\<close>

text \<open>\<open>strcmp\<close> is the lexicographic order of the characters as unsigned numbers, in which a string comes
  after its proper prefixes.\<close>

definition strcmp_str :: "u8 list \<Rightarrow> u8 list \<Rightarrow> int" where
  "strcmp_str a b = the (strcmp (a @ [0]) (b @ [0]))"

definition chars :: "u8 list \<Rightarrow> u8 list" where
  "chars a = takeWhile (\<lambda>c. c \<noteq> 0) a"

lemma word_pos_iff: "(0 :: u8) < c \<longleftrightarrow> c \<noteq> 0"
  by (simp add: word_neq_0_conv)

lemma strcmp_lex:
  "strcmp (a @ 0 # r) (b @ 0 # s) =
     Some (if chars a < chars b then - 1 else if chars b < chars a then 1 else 0)"
proof (induction a arbitrary: b)
  case Nil
  then show ?case by (cases b) (auto simp: chars_def word_pos_iff)
next
  case (Cons x a)
  then show ?case by (cases b) (auto simp: chars_def word_pos_iff)
qed

lemma strcmp_str_lex:
  "strcmp_str a b = (if chars a < chars b then - 1 else if chars b < chars a then 1 else 0)"
  using strcmp_lex[of a "[]" b "[]"] by (simp add: strcmp_str_def)

interpretation str_order: comparator strcmp_str
proof (rule comparator.intro)
  show "strict_weak_order (\<lambda>a b. strcmp_str a b < 0)"
  proof -
    have "strcmp_str a b < 0 \<longleftrightarrow> chars a < chars b" for a b by (auto simp: strcmp_str_lex)
    then show ?thesis using strict_weak_order_key[of chars] by presburger
  qed
qed (auto simp: strcmp_str_lex)

subsection \<open>Overlapping copies\<close>



subsection \<open>Tokens\<close>

text \<open>The maximal runs of characters that are not delimiters.\<close>

function tokens :: "('a \<Rightarrow> bool) \<Rightarrow> 'a list \<Rightarrow> 'a list list" where
  "tokens P cs =
     (case dropWhile P cs of
        [] \<Rightarrow> []
      | x # xs \<Rightarrow> (x # takeWhile (\<lambda>c. \<not> P c) xs) # tokens P (dropWhile (\<lambda>c. \<not> P c) xs))"
  by pat_completeness auto
termination
proof (relation "measure (\<lambda>(P, cs). length cs)")
  fix P :: "'a \<Rightarrow> bool" and cs x xs
  assume "dropWhile P cs = x # xs"
  then have "Suc (length xs) \<le> length cs" by (metis length_Cons length_dropWhile_le)
  moreover have "length (dropWhile (\<lambda>c. \<not> P c) xs) \<le> length xs" by (rule length_dropWhile_le)
  ultimately show "((P, dropWhile (\<lambda>c. \<not> P c) xs), P, cs) \<in> measure (\<lambda>(P, cs). length cs)" by simp
qed simp

declare tokens.simps [simp del]

text \<open>Calling \<open>strtok_r\<close> until it returns the null pointer, and reading each token.\<close>

partial_function (option) strtok_all :: "u8 list \<Rightarrow> u8 list \<Rightarrow> nat \<Rightarrow> u8 list list option" where
  "strtok_all delimiters buf s = do {
     (buf, save, token) \<leftarrow> strtok_r delimiters buf s;
     (case token of
        None \<Rightarrow> Some []
      | Some t \<Rightarrow> do {
          ts \<leftarrow> strtok_all delimiters buf save;
          Some (chars (drop t buf) # ts)
        })
   }"

lemma byte_at_append: "byte_at (pre @ c # rest) (length pre) = Some c"
  by (simp add: byte_at_def)

lemma strchr_delim:
  assumes "is_cstr d ds" and "c \<noteq> 0"
  shows "strchr d c = Some None \<longleftrightarrow> c \<notin> set ds"
    and "\<exists>r. strchr d c = Some r \<and> (r \<noteq> None \<longleftrightarrow> c \<in> set ds)"
  using strchr_cstr[OF assms(1), of c] assms(2) by auto

lemma strtok_skip_eq:
  assumes "is_cstr d ds" and "0 \<notin> set cs"
  shows "strtok_skip d (pre @ cs @ 0 # post) (length pre) =
    Some (let n = length (takeWhile (\<lambda>c. c \<in> set ds) cs) in
          if n = length cs then Inl (length pre + n) else Inr (length pre + n))"
  using assms(2)
proof (induction cs arbitrary: pre)
  case Nil
  then show ?case
    by (subst strtok_skip.simps) (simp add: byte_at_def strchr_cstr[OF assms(1)])
next
  case (Cons c cs)
  have b: "byte_at (pre @ (c # cs) @ 0 # post) (length pre) = Some c" by (simp add: byte_at_def)
  have c0: "c \<noteq> 0" using Cons.prems by auto
  show ?case
  proof (cases "c \<in> set ds")
    case True
    obtain r where r: "strchr d c = Some r" "r \<noteq> None"
      using strchr_delim(2)[OF assms(1) c0] True by auto
    have "strtok_skip d (pre @ (c # cs) @ 0 # post) (length pre) =
        strtok_skip d ((pre @ [c]) @ cs @ 0 # post) (length (pre @ [c]))"
      using b r c0 by (subst strtok_skip.simps) simp
    also have "\<dots> = Some (let n = length (takeWhile (\<lambda>c. c \<in> set ds) cs) in
        if n = length cs then Inl (length (pre @ [c]) + n) else Inr (length (pre @ [c]) + n))"
      by (rule Cons.IH) (use Cons.prems in simp)
    finally show ?thesis using True by (simp add: Let_def)
  next
    case False
    then have "strchr d c = Some None" using strchr_delim(1)[OF assms(1) c0] by simp
    with b False show ?thesis by (subst strtok_skip.simps) simp
  qed
qed

lemma strtok_scan_eq:
  assumes "is_cstr d ds" and "0 \<notin> set cs"
  shows "strtok_scan d (pre @ cs @ 0 # post) (length pre) =
    Some (length pre + length (takeWhile (\<lambda>c. c \<notin> set ds) cs))"
  using assms(2)
proof (induction cs arbitrary: pre)
  case Nil
  then show ?case
    by (subst strtok_scan.simps) (simp add: byte_at_def strchr_cstr[OF assms(1)])
next
  case (Cons c cs)
  have b: "byte_at (pre @ (c # cs) @ 0 # post) (length pre) = Some c" by (simp add: byte_at_def)
  have c0: "c \<noteq> 0" using Cons.prems by auto
  show ?case
  proof (cases "c \<in> set ds")
    case True
    obtain r where r: "strchr d c = Some r" "r \<noteq> None"
      using strchr_delim(2)[OF assms(1) c0] True by auto
    with b True show ?thesis by (subst strtok_scan.simps) auto
  next
    case False
    then have "strchr d c = Some None" using strchr_delim(1)[OF assms(1) c0] by simp
    then have "strtok_scan d (pre @ (c # cs) @ 0 # post) (length pre) =
        strtok_scan d ((pre @ [c]) @ cs @ 0 # post) (length (pre @ [c]))"
      using b by (subst strtok_scan.simps) simp
    also have "\<dots> = Some (length (pre @ [c]) + length (takeWhile (\<lambda>c. c \<notin> set ds) cs))"
      by (rule Cons.IH) (use Cons.prems in simp)
    finally show ?thesis using False by simp
  qed
qed

lemma takeWhile_split:
  "takeWhile P cs @ dropWhile P cs = cs" "length (takeWhile P cs) = length cs \<longleftrightarrow> dropWhile P cs = []"
  by (simp, metis append_Nil2 append_eq_append_conv takeWhile_dropWhile_id)

lemma strtok_r_none:
  assumes "is_cstr d ds" and "0 \<notin> set cs" and "dropWhile (\<lambda>c. c \<in> set ds) cs = []"
  shows "\<exists>s. strtok_r d (pre @ cs @ 0 # post) (length pre) = Some (pre @ cs @ 0 # post, s, None)"
  using strtok_skip_eq[OF assms(1,2), of pre post] assms(3) takeWhile_split(2)[of "\<lambda>c. c \<in> set ds" cs]
  by (simp add: strtok_r_def Let_def)

text \<open>A token is cut out of the buffer: what follows it is scanned by the next call.\<close>

lemma strtok_r_some:
  assumes d: "is_cstr d ds" and cs: "0 \<notin> set cs"
    and split: "cs = us @ ts @ vs" "takeWhile (\<lambda>c. c \<in> set ds) cs = us"
      "takeWhile (\<lambda>c. c \<notin> set ds) (ts @ vs) = ts" "ts \<noteq> []"
  shows "strtok_r d (pre @ cs @ 0 # post) (length pre) =
    Some (case vs of
        [] \<Rightarrow> (pre @ us @ ts @ 0 # post, length (pre @ us @ ts), Some (length (pre @ us)))
      | v # vs' \<Rightarrow> (pre @ us @ ts @ 0 # vs' @ 0 # post, length (pre @ us @ ts) + 1,
                    Some (length (pre @ us))))"
proof -
  have "strtok_skip d (pre @ cs @ 0 # post) (length pre) = Some (Inr (length (pre @ us)))"
    using strtok_skip_eq[OF d cs, of pre post] split by (simp add: Let_def)
  moreover have "strtok_scan d (pre @ cs @ 0 # post) (length (pre @ us)) =
      Some (length (pre @ us @ ts))"
    using strtok_scan_eq[OF d, of "ts @ vs" "pre @ us" post] cs split by simp
  moreover have "byte_at (pre @ cs @ 0 # post) (length (pre @ us @ ts)) = Some (hd (vs @ [0]))"
    using split(1) by (cases vs) (simp_all add: byte_at_def nth_append)
  moreover have "v \<noteq> 0" if "v \<in> set vs" for v using that cs split(1) by auto
  ultimately show ?thesis
    using split(1) by (cases vs) (simp_all add: strtok_r_def list_update_append)
qed

lemma tokens_drop: "P v \<Longrightarrow> tokens P (v # vs) = tokens P vs"
  by (subst (1 2) tokens.simps) simp

lemma chars_append: "0 \<notin> set ts \<Longrightarrow> chars (ts @ 0 # rest) = ts"
  unfolding chars_def by (subst takeWhile_append2) auto

lemma strtok_all_tokens:
  assumes "is_cstr d ds" and "0 \<notin> set cs"
  shows "strtok_all d (pre @ cs @ 0 # post) (length pre) = Some (tokens (\<lambda>c. c \<in> set ds) cs)"
  using assms(2)
proof (induction "length cs" arbitrary: cs pre rule: less_induct)
  case less
  let ?P = "\<lambda>c. c \<in> set ds"
  show ?case
  proof (cases "dropWhile ?P cs")
    case Nil
    have "tokens ?P cs = []" by (subst tokens.simps) (simp only: Nil list.case)
    with strtok_r_none[OF assms(1) less.prems Nil, of pre post] show ?thesis
      by (subst strtok_all.simps) auto
  next
    case (Cons x xs)
    define us ts vs where "us = takeWhile ?P cs" and "ts = x # takeWhile (\<lambda>c. \<not> ?P c) xs"
      and "vs = dropWhile (\<lambda>c. \<not> ?P c) xs"
    have px: "\<not> ?P x" using Cons by (metis hd_dropWhile list.discI list.sel(1))
    have cs: "cs = us @ ts @ vs"
      using takeWhile_split(1)[of ?P cs] Cons by (simp add: us_def ts_def vs_def)
    have tw: "takeWhile (\<lambda>c. c \<notin> set ds) (ts @ vs) = ts"
      using px by (simp add: ts_def vs_def)
    have tk: "tokens ?P cs = ts # tokens ?P vs"
      using Cons by (subst tokens.simps) (simp add: ts_def vs_def)
    have z: "0 \<notin> set ts" "0 \<notin> set vs" using less.prems cs by auto
    note st = strtok_r_some[OF assms(1) less.prems cs us_def[symmetric] tw, of pre post]
    have ne: "ts \<noteq> []" by (simp add: ts_def)
    show ?thesis
    proof (cases vs)
      case Nil
      have "strtok_all d ((pre @ us @ ts) @ [] @ 0 # post) (length (pre @ us @ ts)) = Some (tokens ?P [])"
        by (rule less.hyps) (use cs ne in simp_all)
      with st[OF ne] Nil tk z show ?thesis
        by (subst strtok_all.simps) (simp add: chars_append)
    next
      case (Cons v vs')
      have "?P v" using Cons vs_def by (metis hd_dropWhile list.discI list.sel(1))
      have "strtok_all d ((pre @ us @ ts @ [0]) @ vs' @ 0 # post) (length (pre @ us @ ts @ [0])) =
          Some (tokens ?P vs')"
        by (rule less.hyps) (use cs Cons z in simp_all)
      with st[OF ne] Cons tk z tokens_drop[of ?P v vs', OF \<open>?P v\<close>] show ?thesis
        by (subst strtok_all.simps) (simp add: chars_append)
    qed
  qed
qed

subsection \<open>Bounded copies\<close>

lemma strlcpy_correct_lemma:
  assumes "is_cstr src s" and "0 < sz" and "sz \<le> length dst"
  shows "\<exists>dst'. strlcpy dst src sz = Some (dst', length s) \<and> length dst' = length dst \<and>
           is_cstr dst' (take (sz - 1) s) \<and> drop sz dst' = drop sz dst"
proof -
  let ?n = "min (length s) (sz - 1)"
  obtain rest where src: "src = s @ 0 # rest" "0 \<notin> set s" using assms(1) by (auto simp: is_cstr_def)
  have n: "?n < length dst" "?n \<le> length src" using assms(2,3) src by auto
  have cp: "memcpy dst src ?n = Some (take ?n s @ drop ?n dst)"
    using memcpy_eq[of ?n dst src] n src by simp
  have "strlcpy dst src sz = Some ((take ?n s @ drop ?n dst)[?n := 0], length s)"
  proof -
    have "(if length s < sz - 1 then length s else sz - 1) = ?n" by (simp add: min_def)
    with assms(2) cp n strlen_cstr[OF assms(1)] show ?thesis
      by (simp only: strlcpy_def Let_def bind.simps if_True ASSERT_True length_append length_take
          length_drop) (auto simp: ASSERT_def)
  qed
  also have "(take ?n s @ drop ?n dst)[?n := 0] = take (sz - 1) s @ 0 # drop (Suc ?n) dst"
    using n by (simp add: list_update_append Cons_nth_drop_Suc[symmetric] min_def)
  finally have r: "strlcpy dst src sz = Some (take (sz - 1) s @ 0 # drop (Suc ?n) dst, length s)" .
  have "is_cstr (take (sz - 1) s @ 0 # drop (Suc ?n) dst) (take (sz - 1) s)"
    using src(2) by (intro is_cstr_append) (auto dest: in_set_takeD)
  moreover have "drop sz (take (sz - 1) s @ 0 # drop (Suc ?n) dst) = drop sz dst"
  proof -
    have "drop (sz - Suc ?n) (drop (Suc ?n) dst) = drop sz dst" using assms(2) by simp
    then show ?thesis using assms(2) by (auto simp: drop_Cons' min_def)
  qed
  ultimately show ?thesis using r n(1) assms(2) by auto
qed

subsection \<open>Properties\<close>


text \<open>C32. \<open>strlcpy\<close> never writes outside a destination of at least \<open>sz\<close> bytes, always terminates what it
  writes, keeps as much of the source as fits and returns the length of the source.\<close>

theorem strlcpy_correct:
  assumes "is_cstr src s" and "0 < sz" and "sz \<le> length dst"
  shows "\<exists>dst'. strlcpy dst src sz = Some (dst', length s) \<and> length dst' = length dst \<and>
           is_cstr dst' (take (sz - 1) s) \<and> drop sz dst' = drop sz dst"
  using assms by (rule strlcpy_correct_lemma)

text \<open>C33. Calling \<open>strtok_r\<close> until it returns the null pointer ends, stays inside the buffer and
  yields exactly the maximal runs of non-delimiters, in order and never empty.\<close>

theorem strtok_r_tokens:
  assumes "is_cstr delimiters ds" and "is_cstr buf cs"
  shows "strtok_all delimiters buf 0 = Some (tokens (\<lambda>c. c \<in> set ds) cs)"
proof -
  obtain rest where "buf = cs @ 0 # rest" "0 \<notin> set cs" using assms(2) by (auto simp: is_cstr_def)
  with strtok_all_tokens[OF assms(1), of cs "[]" rest] show ?thesis by simp
qed

text \<open>\<open>strstr\<close> returns the first position at which the needle occurs in the haystack, or the null
  pointer when there is none.\<close>

theorem strstr_correct:
  assumes "is_cstr haystack h" and "is_cstr needle n"
  shows "\<exists>r. strstr haystack needle = Some r \<and>
    (case r of
       Some k \<Rightarrow> k + length n \<le> length h \<and> take (length n) (drop k h) = n \<and>
         (\<forall>j < k. take (length n) (drop j h) \<noteq> n)
     | None \<Rightarrow> \<forall>j. j + length n \<le> length h \<longrightarrow> take (length n) (drop j h) \<noteq> n)"
proof (cases "length n \<le> length h")
  case True
  obtain hr nr where hn: "haystack = h @ 0 # hr" "needle = n @ 0 # nr"
    using assms by (auto simp: is_cstr_def)
  let ?l = "length h - length n"
  have same: "take (length n) (drop j haystack) = take (length n) (drop j h)" if "j \<le> ?l" for j
    using that True hn by simp
  have e: "strstr haystack needle = strstr_loop haystack needle (length n) ?l 0"
    using True strlen_cstr[OF assms(1)] strlen_cstr[OF assms(2)] by (simp add: strstr_def)
  have "?l + length n \<le> length haystack" using True hn by simp
  from strstr_loop_cstr[OF this, of "0 # nr" 0] obtain r where r: "strstr haystack needle = Some r"
    and sp: "case r of Some k \<Rightarrow> 0 \<le> k \<and> k \<le> ?l \<and> take (length n) (drop k haystack) = n \<and>
          (\<forall>j. 0 \<le> j \<and> j < k \<longrightarrow> take (length n) (drop j haystack) \<noteq> n)
        | None \<Rightarrow> \<forall>j. 0 \<le> j \<and> j \<le> ?l \<longrightarrow> take (length n) (drop j haystack) \<noteq> n"
    unfolding hn(2)[symmetric] e[symmetric] by blast
  show ?thesis
  proof (cases r)
    case None
    have "take (length n) (drop j h) \<noteq> n" if "j + length n \<le> length h" for j
    proof -
      have "j \<le> ?l" using that by simp
      with sp None same[of j] show ?thesis by auto
    qed
    with r None show ?thesis by auto
  next
    case (Some k)
    then have k: "k \<le> ?l" "take (length n) (drop k h) = n" using sp same[of k] by simp_all
    moreover have "take (length n) (drop j h) \<noteq> n" if "j < k" for j
    proof -
      have "j \<le> ?l" using that k(1) by simp
      with sp Some same[of j] that show ?thesis by auto
    qed
    ultimately show ?thesis using r Some True by auto
  qed
next
  case False
  then have "strstr haystack needle = Some None"
    using strlen_cstr[OF assms(1)] strlen_cstr[OF assms(2)] by (simp add: strstr_def)
  with False show ?thesis by simp
qed


theorem strlcpy_correct_witness:
  "\<exists>dst'. strlcpy [9, 9, 9] [65, 66, 67, 68, 0] 3 = Some (dst', 4) \<and> is_cstr dst' [65, 66]"
  using strlcpy_correct[of "[65, 66, 67, 68, 0]" "[65, 66, 67, 68]" 3 "[9, 9, 9]"]
  by (auto simp: is_cstr_def)

theorem strtok_r_tokens_witness:
  "strtok_all [32, 0] [32, 65, 66, 32, 32, 67, 0] 0 = Some [[65, 66], [67]]"
  using strtok_r_tokens[of "[32, 0]" "[32]" "[32, 65, 66, 32, 32, 67, 0]" "[32, 65, 66, 32, 32, 67]"]
  by (simp add: is_cstr_def tokens.simps)

theorem strstr_correct_witness:
  "\<exists>r. strstr [65, 66, 67, 0] [66, 67, 0] = Some r \<and> r = Some 1"
proof -
  have c: "is_cstr [65, 66, 67, 0] [65, 66, 67]" "is_cstr [66, 67, 0] [66, 67]"
    by (auto simp: is_cstr_def)
  obtain r where r: "strstr [65, 66, 67, 0] [66, 67, 0] = Some r"
    "case r of Some k \<Rightarrow> k + length [66, 67 :: u8] \<le> length [65, 66, 67 :: u8] \<and>
         take (length [66, 67 :: u8]) (drop k [65, 66, 67 :: u8]) = [66, 67] \<and>
         (\<forall>j < k. take (length [66, 67 :: u8]) (drop j [65, 66, 67 :: u8]) \<noteq> [66, 67])
     | None \<Rightarrow> \<forall>j. j + length [66, 67 :: u8] \<le> length [65, 66, 67 :: u8] \<longrightarrow>
         take (length [66, 67 :: u8]) (drop j [65, 66, 67 :: u8]) \<noteq> [66, 67]"
    using strstr_correct[OF c] by blast
  show ?thesis
  proof (cases r)
    case None
    with r(2) show ?thesis by (auto dest: spec[of _ 1])
  next
    case (Some k)
    with r(2) have "k = 0 \<or> k = 1" "take 2 (drop k [65, 66, 67 :: u8]) = [66, 67]"
      by (auto simp: numeral_2_eq_2)
    with Some r(1) show ?thesis by auto
  qed
qed

end
