(* ===== verification/Pintos_Path.thy ===== *)
theory Pintos_Path
  imports Pintos_String
begin

section \<open>Path names (filesys/path.c)\<close>

text \<open>
  A path is the list of bytes from the pointer on, including the terminating zero; 47 is the slash.
  The entry buffer is the list of its bytes, so that a write behind its end is \<open>None\<close>. The loop of
  \<open>path_split_last\<close> is a partial function; it is shown to return.
\<close>

subsection \<open>Operations\<close>

definition path_is_relative :: "u8 list \<Rightarrow> bool option" where
  "path_is_relative path = do {
     c \<leftarrow> byte_at path 0;
     Some (if c \<noteq> 0 \<and> c \<noteq> 47 then True else c = 0)
   }"

fun skip_slashes :: "u8 list \<Rightarrow> nat \<Rightarrow> (u8 list \<times> nat) option" where
  "skip_slashes [] offset = None"
| "skip_slashes (c # path) offset =
     (if c = 47 then skip_slashes path (offset + 1) else Some (c # path, offset))"

fun copy_entry :: "u8 list \<Rightarrow> u8 list \<Rightarrow> nat \<Rightarrow> nat \<Rightarrow> nat \<Rightarrow> (u8 list \<times> u8 list \<times> nat \<times> nat) option" where
  "copy_entry [] entry max_len len offset = None"
| "copy_entry (c # path) entry max_len len offset =
     (if c \<noteq> 0 \<and> c \<noteq> 47 \<and> len < max_len then
        if len < length entry
        then copy_entry path (entry[len := c]) max_len (len + 1) (offset + 1)
        else None
      else Some (c # path, entry, len, offset))"

definition path_next_entry :: "u8 list \<Rightarrow> u8 list \<Rightarrow> nat \<Rightarrow> nat \<Rightarrow> (u8 list \<times> nat) option" where
  "path_next_entry path entry max_entry_length offset = do {
     (p, offset) \<leftarrow> skip_slashes path offset;
     (p, entry, len, offset) \<leftarrow> copy_entry p entry max_entry_length 0 offset;
     (p, offset) \<leftarrow> skip_slashes p offset;
     ASSERT (len < length entry);
     Some (entry[len := 0], offset)
   }"

partial_function (option) path_split_loop ::
  "u8 list \<Rightarrow> u8 list \<Rightarrow> nat \<Rightarrow> nat \<Rightarrow> nat \<Rightarrow> (u8 list \<times> nat) option" where
  "path_split_loop path entry max_entry_length offset last_offset = do {
     c \<leftarrow> byte_at path offset;
     if c \<noteq> 0 then do {
       let last_offset = offset;
       (entry, offset) \<leftarrow> path_next_entry (drop offset path) entry max_entry_length offset;
       path_split_loop path entry max_entry_length offset last_offset
     } else Some (entry, last_offset)
   }"

text \<open>\<open>m\<close> is the buffer that \<open>malloc\<close> returns, with whatever it holds; the null pointer is
  dereferenced by the assignment that follows.\<close>

definition path_split_last ::
  "(nat \<Rightarrow> u8 list option) \<Rightarrow> u8 list \<Rightarrow> u8 list \<Rightarrow> u8 list \<Rightarrow> nat \<Rightarrow> (u8 list \<times> u8 list) option" where
  "path_split_last m path sub_path last_entry max_entry_length = do {
     entry \<leftarrow> m max_entry_length;
     ASSERT (0 < length entry);
     let entry = entry[0 := 0];
     (entry, last_offset) \<leftarrow> path_split_loop path entry max_entry_length 0 0;
     let last_offset = (if last_offset = 0 then 1 else last_offset);
     (last_entry, _) \<leftarrow> strlcpy last_entry entry max_entry_length;
     (sub_path, _) \<leftarrow> strlcpy sub_path path last_offset;
     ASSERT (last_offset - 1 < length sub_path);
     Some (sub_path[last_offset - 1 := 0], last_entry)
   }"

subsection \<open>One entry\<close>

abbreviation slash :: "u8 \<Rightarrow> bool" where
  "slash c \<equiv> c = 47"

lemma skip_slashes_eq:
  assumes "c \<noteq> 47"
  shows "skip_slashes (replicate n 47 @ c # path) offset = Some (c # path, offset + n)"
  using assms by (induction n arbitrary: offset) auto

lemma copy_entry_eq:
  assumes "\<forall>c \<in> set name. c \<noteq> 0 \<and> c \<noteq> 47" and "c = 0 \<or> c = 47" and "length pre + length name \<le> max_len"
    and "length pre + length name \<le> length (pre @ post)"
  shows "copy_entry (name @ c # path) (pre @ post) max_len (length pre) offset =
    Some (c # path, pre @ name @ drop (length name) post, length pre + length name, offset + length name)"
  using assms
proof (induction name arbitrary: pre post offset)
  case (Cons x name)
  obtain y post' where post: "post = y # post'" using Cons.prems(4) by (cases post) auto
  have "copy_entry ((x # name) @ c # path) (pre @ post) max_len (length pre) offset =
      copy_entry (name @ c # path) ((pre @ [x]) @ post') max_len (length (pre @ [x])) (offset + 1)"
    using Cons.prems by (simp add: post list_update_append)
  also have "\<dots> = Some (c # path, (pre @ [x]) @ name @ drop (length name) post',
      length (pre @ [x]) + length name, offset + 1 + length name)"
    by (rule Cons.IH) (use Cons.prems post in auto)
  finally show ?case by (simp add: post)
qed auto

lemma path_next_entry_eq:
  assumes "\<forall>c \<in> set name. c \<noteq> 0 \<and> c \<noteq> 47" and "c \<noteq> 47" and "name = [] \<or> 0 < k \<or> c = 0"
    and "length name \<le> max_len" and "length name < length entry" and "name = [] \<longrightarrow> k = 0 \<and> c = 0"
  shows "path_next_entry (replicate j 47 @ name @ replicate k 47 @ c # path) entry max_len offset =
    Some (name @ 0 # drop (length name + 1) entry, offset + j + length name + k)"
proof -
  obtain d ds where d: "name @ replicate k 47 @ c # path = d # ds" "d \<noteq> 47"
    using assms(1,2,6) by (cases name) auto
  have s1: "skip_slashes (replicate j 47 @ name @ replicate k 47 @ c # path) offset =
      Some (name @ replicate k 47 @ c # path, offset + j)"
    using skip_slashes_eq[of d j ds offset] d by simp
  obtain e es where e: "replicate k 47 @ c # path = e # es" "e = 0 \<or> e = 47"
    using assms(3,6) by (cases k) auto
  have s2: "copy_entry (name @ replicate k 47 @ c # path) entry max_len 0 (offset + j) =
      Some (replicate k 47 @ c # path, name @ drop (length name) entry, length name,
        offset + j + length name)"
    using copy_entry_eq[of name e "[]" max_len entry es "offset + j"] assms e by simp
  have s3: "skip_slashes (replicate k 47 @ c # path) (offset + j + length name) =
      Some (c # path, offset + j + length name + k)"
    using skip_slashes_eq[OF assms(2), of k path "offset + j + length name"] by simp
  have "(name @ drop (length name) entry)[length name := 0] = name @ 0 # drop (length name + 1) entry"
    using assms(5) by (simp add: list_update_append Cons_nth_drop_Suc[symmetric])
  with s1 s2 s3 assms(5) show ?thesis by (simp add: path_next_entry_def)
qed

subsection \<open>Components of a path\<close>

text \<open>A path is some slashes followed by names, each with the slashes behind it.\<close>

definition build_path :: "(u8 list \<times> nat) list \<Rightarrow> u8 list" where
  "build_path ps = concat (map (\<lambda>(n, k). n @ replicate k 47) ps)"

fun valid_parts :: "(u8 list \<times> nat) list \<Rightarrow> bool" where
  "valid_parts [] = True"
| "valid_parts ((n, k) # ps) \<longleftrightarrow>
     n \<noteq> [] \<and> (\<forall>c \<in> set n. c \<noteq> 0 \<and> c \<noteq> 47) \<and> (ps \<noteq> [] \<longrightarrow> 0 < k) \<and> valid_parts ps"

lemma build_path_simps [simp]:
  "build_path [] = []" "build_path ((n, k) # ps) = n @ replicate k 47 @ build_path ps"
  by (simp_all add: build_path_def)

lemma ex_parts:
  assumes "0 \<notin> set s"
  shows "\<exists>j ps. s = replicate j 47 @ build_path ps \<and> valid_parts ps"
  using assms
proof (induction s)
  case Nil
  show ?case by (intro exI[of _ 0] exI[of _ "[]"]) simp
next
  case (Cons c s)
  then obtain j ps where jp: "s = replicate j 47 @ build_path ps" "valid_parts ps" by auto
  show ?case
  proof (cases "c = 47")
    case True
    with jp show ?thesis by (intro exI[of _ "Suc j"] exI[of _ ps]) simp
  next
    case False
    have c0: "c \<noteq> 0" using Cons.prems by auto
    show ?thesis
    proof (cases "j = 0 \<and> ps \<noteq> []")
      case True
      then obtain n k ps' where "ps = (n, k) # ps'" by (cases ps) auto
      with True jp False c0 show ?thesis
        by (intro exI[of _ 0] exI[of _ "(c # n, k) # ps'"]) auto
    next
      case no: False
      with jp False c0 show ?thesis by (intro exI[of _ 0] exI[of _ "([c], j) # ps"]) auto
    qed
  qed
qed

lemma tokens_parts:
  assumes "valid_parts ps"
  shows "tokens slash (replicate j 47 @ build_path ps) = map fst ps"
  using assms
proof (induction ps arbitrary: j)
  case Nil
  have "dropWhile slash (replicate j 47) = []" by simp
  then show ?case by (subst tokens.simps) (simp only: build_path_simps append_Nil2 list.case list.map)
next
  case (Cons p ps)
  obtain n k where p: "p = (n, k)" by (cases p)
  with Cons.prems obtain x xs where n: "n = x # xs" "x \<noteq> 47" "\<forall>c \<in> set xs. c \<noteq> 47"
    by (cases n) auto
  let ?r = "replicate k 47 @ build_path ps"
  have kp: "?r = [] \<or> hd ?r = 47" using Cons.prems p by (cases k; cases ps) auto
  have d: "dropWhile slash (replicate j 47 @ build_path (p # ps)) = x # xs @ ?r"
    using n p by (simp add: dropWhile_append)
  have t: "takeWhile (\<lambda>c. \<not> slash c) (xs @ ?r) = xs" "dropWhile (\<lambda>c. \<not> slash c) (xs @ ?r) = ?r"
    using n(3) kp by (auto simp: takeWhile_append dropWhile_append) (cases ?r; simp)+
  have "tokens slash (replicate j 47 @ build_path (p # ps)) = (x # xs) # tokens slash ?r"
    by (subst tokens.simps) (simp only: d list.case t)
  with Cons.IH[of k] Cons.prems p n show ?case by simp
qed

text \<open>The last offset is that of the last component, except that it is 0 for a single one.\<close>

lemma path_split_loop_parts:
  assumes "valid_parts ps" and "path = pre @ replicate j 47 @ build_path ps @ 0 # rest"
    and "\<forall>(n, k) \<in> set ps. length n \<le> max_len \<and> length n < length entry" and "ps \<noteq> []"
  shows "\<exists>e. path_split_loop path entry max_len (length pre) l =
      Some (e, length pre + (if length ps = 1 then 0 else j + length (build_path (butlast ps)))) \<and>
      length e = length entry \<and> is_cstr e (fst (last ps))"
  using assms
proof (induction ps arbitrary: pre j entry l)
  case (Cons p ps)
  obtain n k where p: "p = (n, k)" by (cases p)
  have n: "n \<noteq> []" "\<forall>c \<in> set n. c \<noteq> 0 \<and> c \<noteq> 47" "length n \<le> max_len" "length n < length entry"
    and k: "ps \<noteq> [] \<Longrightarrow> 0 < k" and v: "valid_parts ps" using Cons.prems p by auto
  obtain c r where cr: "build_path ps @ 0 # rest = c # r" "c \<noteq> 47" "ps = [] \<Longrightarrow> c = 0"
    using v by (cases ps rule: valid_parts.cases) (auto simp: neq_Nil_conv)
  have path: "drop (length pre) path = replicate j 47 @ n @ replicate k 47 @ c # r"
    using Cons.prems(2) cr by (simp add: p)
  let ?e = "n @ 0 # drop (length n + 1) entry" and ?pre = "pre @ replicate j 47 @ n @ replicate k 47"
  have nx: "path_next_entry (drop (length pre) path) entry max_len (length pre) = Some (?e, length ?pre)"
    unfolding path using n k cr by (subst path_next_entry_eq) auto
  obtain b where b: "byte_at path (length pre) = Some b" "b \<noteq> 0"
    using Cons.prems(2) n p by (cases j; cases n) (auto simp: byte_at_def nth_append)
  have step: "path_split_loop path entry max_len (length pre) l =
      path_split_loop path ?e max_len (length ?pre) (length pre)"
    using b nx by (subst path_split_loop.simps) simp
  have path': "path = ?pre @ replicate 0 47 @ build_path ps @ 0 # rest"
    using Cons.prems(2) p by simp
  have le: "length ?e = length entry" using n(4) by simp
  show ?case
  proof (cases "ps = []")
    case True
    have "byte_at path (length ?pre) = Some 0"
      using path' True byte_at_append[of ?pre 0 rest] by simp
    then have "path_split_loop path ?e max_len (length ?pre) (length pre) = Some (?e, length pre)"
      by (subst path_split_loop.simps) simp
    moreover have "is_cstr ?e n" using n(2) by (intro is_cstr_append) auto
    ultimately show ?thesis using step True p le by simp
  next
    case False
    have "\<exists>e. path_split_loop path ?e max_len (length ?pre) (length pre) =
        Some (e, length ?pre + (if length ps = 1 then 0 else 0 + length (build_path (butlast ps)))) \<and>
        length e = length ?e \<and> is_cstr e (fst (last ps))"
      by (rule Cons.IH[OF v path' _ False]) (use Cons.prems(3) le in auto)
    moreover have "length (build_path (butlast (p # ps))) =
        length n + k + (if length ps = 1 then 0 else length (build_path (butlast ps)))"
      using False p by (cases ps) auto
    moreover have "length (p # ps) \<noteq> 1" using False by simp
    ultimately show ?thesis using step False le p by auto
  qed
qed simp

lemma build_path_append: "build_path (ps @ qs) = build_path ps @ build_path qs"
  by (simp add: build_path_def)

lemma valid_parts_butlast: "valid_parts (ps @ [(n, k)]) \<Longrightarrow> valid_parts ps"
  by (induction ps rule: valid_parts.induct) auto

lemma valid_parts_slashes: "valid_parts (ps @ [(n, k)]) \<longleftrightarrow> valid_parts (ps @ [(n, k')])"
  by (induction ps rule: valid_parts.induct) auto

lemma valid_parts_pos: "valid_parts (ps @ [(n, k), q]) \<Longrightarrow> 0 < k"
  by (induction ps rule: valid_parts.induct) (cases q; auto)+

lemma sub_path_tokens:
  assumes "valid_parts ps" and "2 \<le> length ps"
  shows "0 < length (build_path (butlast ps))"
    and "tokens slash (take (j + length (build_path (butlast ps)) - 1) (replicate j 47 @ build_path ps)) =
      butlast (map fst ps)"
proof -
  have "ps \<noteq> []" "butlast ps \<noteq> []" using assms(2) by (auto simp flip: length_greater_0_conv)
  then obtain qs n k q where ps: "ps = qs @ [(n, k), q]"
    by (metis append_assoc append_Cons append_Nil append_butlast_last_id surj_pair)
  have k: "0 < k" using valid_parts_pos assms(1) ps by blast
  then obtain k' where k': "k = Suc k'" by (cases k) auto
  have v: "valid_parts (qs @ [(n, k)])" using assms(1) valid_parts_butlast[of "qs @ [(n, k)]" "fst q" "snd q"] ps by simp
  then have v': "valid_parts (qs @ [(n, k')])" using valid_parts_slashes by blast
  have bl: "butlast ps = qs @ [(n, k)]" using ps by (simp add: butlast_append)
  show "0 < length (build_path (butlast ps))" unfolding bl by (simp add: build_path_append k)
  have len: "j + length (build_path (butlast ps)) - 1 = length (replicate j 47 @ build_path (qs @ [(n, k')]))"
    unfolding bl by (simp add: build_path_append k')
  have dec: "replicate j 47 @ build_path ps = (replicate j 47 @ build_path (qs @ [(n, k')])) @ 47 # build_path [q]"
    unfolding ps by (cases q) (simp add: build_path_append k' replicate_append_same[symmetric])
  have "take (j + length (build_path (butlast ps)) - 1) (replicate j 47 @ build_path ps) =
      replicate j 47 @ build_path (qs @ [(n, k')])"
    unfolding len dec by (rule append_eq_conv_conj[THEN iffD1, THEN conjunct1, symmetric]) simp
  with tokens_parts[OF v', of j] show "tokens slash (take (j + length (build_path (butlast ps)) - 1)
      (replicate j 47 @ build_path ps)) = butlast (map fst ps)"
    using ps by (simp add: butlast_append)
qed

lemma split_offset:
  assumes "valid_parts ps" and "ps \<noteq> []" and "s = replicate j 47 @ build_path ps"
    and "lo = (if length ps = 1 then 0 else j + length (build_path (butlast ps)))"
    and "lo' = (if lo = 0 then 1 else lo)"
  shows "0 < lo'" and "lo' \<le> length s" and "tokens slash (take (lo' - 1) s) = butlast (map fst ps)"
proof -
  show "0 < lo'" using assms(5) by simp
  have "lo' \<le> length s \<and> tokens slash (take (lo' - 1) s) = butlast (map fst ps)"
  proof (cases "length ps = 1")
    case True
    then obtain n k where ps: "ps = [(n, k)]" by (cases ps) auto
    have "lo' = 1" using assms(4,5) True by simp
    then show ?thesis using assms(1,3) ps by (auto simp: tokens.simps Suc_le_eq)
  next
    case False
    then have l: "2 \<le> length ps" using assms(2) by (cases ps; cases "tl ps") auto
    note st = sub_path_tokens[OF assms(1) l]
    have lo: "lo' = j + length (build_path (butlast ps))" using assms(4,5) False st(1) by simp
    have "length (build_path (butlast ps)) \<le> length (build_path ps)"
      using append_butlast_last_id[OF assms(2)] build_path_append by (metis length_append le_add1)
    with st(2)[of j] show ?thesis unfolding lo assms(3) by simp
  qed
  then show "lo' \<le> length s" "tokens slash (take (lo' - 1) s) = butlast (map fst ps)" by blast+
qed

subsection \<open>Properties\<close>

text \<open>C34. \<open>path_split_last\<close> returns for every path whose components are all shorter than the limit: no
  buffer is overrun, the last entry is the last component, and the sub-path is a prefix of the path
  with exactly the other components.\<close>

theorem path_split_last_correct:
  assumes "is_cstr path s" and "tokens slash s \<noteq> []"
    and "\<forall>t \<in> set (tokens slash s). length t < max_len"
    and "m max_len = Some entry" and "length entry = max_len"
    and "max_len \<le> length last_entry" and "length s \<le> length sub_path"
  shows "\<exists>sub last p. path_split_last m path sub_path last_entry max_len = Some (sub, last) \<and>
           is_cstr last (List.last (tokens slash s)) \<and> is_cstr sub p \<and>
           p = take (length p) s \<and> tokens slash p = butlast (tokens slash s)"
proof -
  obtain rest where path: "path = s @ 0 # rest" "0 \<notin> set s" using assms(1) by (auto simp: is_cstr_def)
  obtain j ps where s: "s = replicate j 47 @ build_path ps" and v: "valid_parts ps"
    using ex_parts[OF path(2)] by blast
  have tk: "tokens slash s = map fst ps" unfolding s by (rule tokens_parts[OF v])
  have ne: "ps \<noteq> []" using assms(2) tk by simp
  have len: "\<forall>(n, k) \<in> set ps. length n \<le> max_len \<and> length n < length (entry[0 := 0])"
    using assms(3,5) tk by (force split: prod.splits)
  define lo lo' where "lo = (if length ps = 1 then 0 else j + length (build_path (butlast ps)))"
    and "lo' = (if lo = 0 then 1 else lo)"
  note off = split_offset[OF v ne s lo_def lo'_def]
  obtain e where e: "path_split_loop path (entry[0 := 0]) max_len 0 0 = Some (e, lo)"
    "length e = max_len" "is_cstr e (fst (last ps))"
    using path_split_loop_parts[OF v _ len ne, of path "[]" j rest 0] path s assms(5)
    by (auto simp: lo_def)
  have last: "fst (last ps) = List.last (tokens slash s)" "length (fst (last ps)) < max_len"
    using tk ne assms(3) by (simp_all add: last_map)
  obtain le where le: "strlcpy last_entry e max_len = Some (le, length (fst (last ps)))"
    "is_cstr le (fst (last ps))"
    using strlcpy_correct_lemma[OF e(3) _ assms(6)] last(2) by fastforce
  have "lo' \<le> length sub_path" using off(2) assms(7) by simp
  then obtain sp where sp: "strlcpy sub_path path lo' = Some (sp, length s)"
    "length sp = length sub_path" "is_cstr sp (take (lo' - 1) s)"
    using strlcpy_correct_lemma[OF assms(1) off(1)] by blast
  obtain q where q: "sp = take (lo' - 1) s @ 0 # q" using sp(3) by (auto simp: is_cstr_def)
  have tl: "length (take (lo' - 1) s) = lo' - 1" using off(1,2) by simp
  then have keep: "sp[lo' - 1 := 0] = sp" unfolding q by (simp add: list_update_append)
  have lt: "lo' - 1 < length sp" using q tl by simp
  have e0: "0 < length entry" using last(2) assms(5) by linarith
  have "path_split_last m path sub_path last_entry max_len = Some (sp, le)"
    unfolding path_split_last_def Let_def assms(4) bind.simps ASSERT_bind[OF e0] e(1) prod.case
      lo'_def[symmetric] le(1) sp(1) ASSERT_bind[OF lt] keep by simp
  with le(2) last(1) sp(3) off(3) tk tl show ?thesis by auto
qed

text \<open>C35. \<open>path_next_entry\<close> writes one byte more than the limit it is given: a component that is
  exactly as long as the limit fills the buffer of that size and the terminator is written behind
  its end.\<close>

theorem path_next_entry_overrun:
  assumes "\<forall>c \<in> set name. c \<noteq> 0 \<and> c \<noteq> 47" and "name \<noteq> []" and "length entry = length name"
  shows "path_next_entry (name @ 0 # rest) entry (length name) offset = None"
proof -
  obtain x xs where n: "name = x # xs" using assms(2) by (cases name) auto
  have "skip_slashes (name @ 0 # rest) offset = Some (name @ 0 # rest, offset)"
    using skip_slashes_eq[of x 0 "xs @ 0 # rest" offset] n assms(1) by simp
  moreover have "copy_entry (name @ 0 # rest) entry (length name) 0 offset =
      Some (0 # rest, name, length name, offset + length name)"
    using copy_entry_eq[of name 0 "[]" "length name" entry rest offset] assms by simp
  ultimately show ?thesis by (simp add: path_next_entry_def)
qed

theorem path_split_last_correct_witness:
  "\<exists>sub last p. path_split_last (\<lambda>n. Some (replicate n 1)) [47, 97, 47, 98, 0] (replicate 4 1) (replicate 17 1) 16
     = Some (sub, last) \<and> is_cstr last [98] \<and> is_cstr sub p \<and> tokens slash p = [[97]]"
  using path_split_last_correct[of "[47, 97, 47, 98, 0]" "[47, 97, 47, 98]" 16 "\<lambda>n. Some (replicate n 1)"
      "replicate 16 1" "replicate 17 1" "replicate 4 1"]
  by (simp add: is_cstr_def tokens.simps) blast

theorem path_next_entry_overrun_witness:
  "path_next_entry [97, 98, 0] [1, 1] 2 0 = None"
  using path_next_entry_overrun[of "[97, 98]" "[1, 1]" "[]" 0] by (simp flip: numeral_2_eq_2)

end
