(* ===== verification/Pintos_Intq.thy ===== *)
theory Pintos_Intq
  imports Pintos_Prelude
begin

section \<open>Interrupt queues (devices/intq.c)\<close>

text \<open>
  A circular buffer of 64 bytes shared by threads and interrupt handlers. An operation either
  completes, in which case it also names the thread it wakes up, or leaves the caller waiting: for
  the lock that admits one waiter, or registered as the waiter of its condition. The argument \<open>off\<close>
  says that interrupts are off and \<open>intr\<close> that the caller is an interrupt handler; a failed assertion is
  \<open>None\<close>. The contract of a bounded queue is a locale, interpreted on these operations.
\<close>

subsection \<open>Data and operations\<close>

definition INTQ_BUFSIZE :: nat where
  "INTQ_BUFSIZE = 64"

record intq =
  q_lock :: "nat option"
  not_full :: "nat option"
  not_empty :: "nat option"
  q_buf :: "u8 list"
  q_head :: nat
  q_tail :: nat

datatype 'r outcome = Done 'r | Wait_lock | Wait_cond

definition intq_init :: "intq \<Rightarrow> intq" where
  "intq_init q = q\<lparr>q_lock := None, not_full := None, not_empty := None, q_head := 0, q_tail := 0\<rparr>"

definition next_pos :: "nat \<Rightarrow> nat" where
  "next_pos pos = (pos + 1) mod INTQ_BUFSIZE"

definition intq_empty :: "bool \<Rightarrow> intq \<Rightarrow> bool option" where
  "intq_empty off q = do { ASSERT off; Some (q_head q = q_tail q) }"

definition intq_full :: "bool \<Rightarrow> intq \<Rightarrow> bool option" where
  "intq_full off q = do { ASSERT off; Some (next_pos (q_head q) = q_tail q) }"

definition signal_not_full :: "bool \<Rightarrow> intq \<Rightarrow> (intq \<times> nat option) option" where
  "signal_not_full off q = do {
     ASSERT off;
     f \<leftarrow> intq_full off q;
     ASSERT (\<not> f);
     Some (q\<lparr>not_full := None\<rparr>, not_full q)
   }"

definition signal_not_empty :: "bool \<Rightarrow> intq \<Rightarrow> (intq \<times> nat option) option" where
  "signal_not_empty off q = do {
     ASSERT off;
     e \<leftarrow> intq_empty off q;
     ASSERT (\<not> e);
     Some (q\<lparr>not_empty := None\<rparr>, not_empty q)
   }"

text \<open>\<open>wait\<close> registers the caller and blocks it.\<close>

definition wait_not_empty :: "bool \<Rightarrow> bool \<Rightarrow> nat \<Rightarrow> intq \<Rightarrow> intq option" where
  "wait_not_empty off intr cur q = do {
     ASSERT (\<not> intr);
     ASSERT off;
     e \<leftarrow> intq_empty off q;
     ASSERT e;
     Some (q\<lparr>not_empty := Some cur\<rparr>)
   }"

definition wait_not_full :: "bool \<Rightarrow> bool \<Rightarrow> nat \<Rightarrow> intq \<Rightarrow> intq option" where
  "wait_not_full off intr cur q = do {
     ASSERT (\<not> intr);
     ASSERT off;
     f \<leftarrow> intq_full off q;
     ASSERT f;
     Some (q\<lparr>not_full := Some cur\<rparr>)
   }"

definition intq_getc ::
  "bool \<Rightarrow> bool \<Rightarrow> nat \<Rightarrow> intq \<Rightarrow> (intq \<times> (u8 \<times> nat option) outcome) option" where
  "intq_getc off intr cur q = do {
     ASSERT off;
     e \<leftarrow> intq_empty off q;
     if e then do {
       ASSERT (\<not> intr);
       if q_lock q \<noteq> None then Some (q, Wait_lock)
       else do {
         q \<leftarrow> wait_not_empty off intr cur (q\<lparr>q_lock := Some cur\<rparr>);
         Some (q, Wait_cond)
       }
     } else do {
       ASSERT (q_tail q < length (q_buf q));
       let byte = q_buf q ! q_tail q;
       let q = q\<lparr>q_tail := next_pos (q_tail q)\<rparr>;
       (q, woken) \<leftarrow> signal_not_full off q;
       Some (q, Done (byte, woken))
     }
   }"

definition intq_putc ::
  "bool \<Rightarrow> bool \<Rightarrow> nat \<Rightarrow> intq \<Rightarrow> u8 \<Rightarrow> (intq \<times> nat option outcome) option" where
  "intq_putc off intr cur q byte = do {
     ASSERT off;
     f \<leftarrow> intq_full off q;
     if f then do {
       ASSERT (\<not> intr);
       if q_lock q \<noteq> None then Some (q, Wait_lock)
       else do {
         q \<leftarrow> wait_not_full off intr cur (q\<lparr>q_lock := Some cur\<rparr>);
         Some (q, Wait_cond)
       }
     } else do {
       ASSERT (q_head q < length (q_buf q));
       let q = q\<lparr>q_buf := (q_buf q)[q_head q := byte], q_head := next_pos (q_head q)\<rparr>;
       (q, woken) \<leftarrow> signal_not_empty off q;
       Some (q, Done woken)
     }
   }"

text \<open>A thread that was woken up releases the lock and tests the condition again.\<close>

definition intq_getc_resume ::
  "bool \<Rightarrow> bool \<Rightarrow> nat \<Rightarrow> intq \<Rightarrow> (intq \<times> (u8 \<times> nat option) outcome) option" where
  "intq_getc_resume off intr cur q = intq_getc off intr cur (q\<lparr>q_lock := None\<rparr>)"

definition intq_putc_resume ::
  "bool \<Rightarrow> bool \<Rightarrow> nat \<Rightarrow> intq \<Rightarrow> u8 \<Rightarrow> (intq \<times> nat option outcome) option" where
  "intq_putc_resume off intr cur q byte = intq_putc off intr cur (q\<lparr>q_lock := None\<rparr>) byte"

subsection \<open>Contents\<close>


definition intq_count :: "intq \<Rightarrow> nat" where
  "intq_count q = (q_head q + INTQ_BUFSIZE - q_tail q) mod INTQ_BUFSIZE"

definition intq_contents :: "intq \<Rightarrow> u8 list" where
  "intq_contents q =
     map (\<lambda>k. q_buf q ! ((q_tail q + k) mod INTQ_BUFSIZE)) [0 ..< intq_count q]"







subsection \<open>The contract of a bounded queue\<close>






lemma length_intq_contents [simp]: "length (intq_contents q) = intq_count q"
  by (simp add: intq_contents_def)



subsection \<open>Properties\<close>




end
