(* ===== verification/Pintos_Random.thy ===== *)
theory Pintos_Random
  imports Pintos_Prelude
begin

section \<open>Pseudo-random numbers (lib/random.c)\<close>

text \<open>
  The generator is RC4: an array of 256 bytes and two indices of type \<open>uint8_t\<close>, whose sums wrap
  around at 256. The invariant is that the array is a permutation of all bytes.
\<close>

record rc4 =
  rc_s :: "u8 list"
  rc_i :: u8
  rc_j :: u8
  rc_inited :: bool

definition swap_byte :: "u8 list \<Rightarrow> nat \<Rightarrow> nat \<Rightarrow> u8 list" where
  "swap_byte s a b = s[a := s ! b, b := s ! a]"

definition seed_byte :: "u32 \<Rightarrow> nat \<Rightarrow> u8" where
  "seed_byte seed k = ucast (drop_bit (8 * (k mod 4)) seed)"

fun random_init_loop :: "u32 \<Rightarrow> nat list \<Rightarrow> u8 list \<Rightarrow> u8 \<Rightarrow> u8 list" where
  "random_init_loop seed [] s j = s"
| "random_init_loop seed (i # is) s j =
     (let j = j + (s ! i + seed_byte seed i) in
      random_init_loop seed is (swap_byte s i (unat j)) j)"

definition random_init :: "u32 \<Rightarrow> rc4" where
  "random_init seed =
     \<lparr>rc_s = random_init_loop seed [0 ..< 256] (map word_of_nat [0 ..< 256]) 0,
      rc_i = 0, rc_j = 0, rc_inited = True\<rparr>"

definition random_step :: "rc4 \<Rightarrow> rc4 \<times> u8" where
  "random_step r =
     (let i = rc_i r + 1;
          j = rc_j r + rc_s r ! unat i;
          s = swap_byte (rc_s r) (unat i) (unat j);
          k = s ! unat i + s ! unat j
      in (r\<lparr>rc_s := s, rc_i := i, rc_j := j\<rparr>, s ! unat k))"

fun random_bytes_loop :: "rc4 \<Rightarrow> nat \<Rightarrow> rc4 \<times> u8 list" where
  "random_bytes_loop r 0 = (r, [])"
| "random_bytes_loop r (Suc n) =
     (let (r, b) = random_step r; (r, bs) = random_bytes_loop r n in (r, b # bs))"

definition random_bytes :: "rc4 \<Rightarrow> nat \<Rightarrow> rc4 \<times> u8 list" where
  "random_bytes r n = random_bytes_loop (if rc_inited r then r else random_init 0) n"

definition random_ulong :: "rc4 \<Rightarrow> rc4 \<times> u32" where
  "random_ulong r =
     (let (r, bs) = random_bytes r 4 in
      (r, foldr (\<lambda>b w. push_bit 8 w + ucast b) bs 0))"

subsection \<open>The permutation\<close>

definition rc4_wf :: "rc4 \<Rightarrow> bool" where
  "rc4_wf r \<longleftrightarrow> mset (rc_s r) = mset (map word_of_nat [0 ..< 256])"

lemma mset_swap_byte: "a < length s \<Longrightarrow> b < length s \<Longrightarrow> mset (swap_byte s a b) = mset s"
  unfolding swap_byte_def by (rule mset_swap)

lemma length_swap_byte [simp]: "length (swap_byte s a b) = length s"
  by (simp add: swap_byte_def)

lemma random_init_loop_mset:
  "length s = 256 \<Longrightarrow> \<forall>i \<in> set is. i < 256 \<Longrightarrow> mset (random_init_loop seed is s j) = mset s"
proof (induction seed "is" s j rule: random_init_loop.induct)
  case (2 seed i "is" s j)
  have "unat j' < 256" for j' :: u8 using unat_u8[of j'] by simp
  with 2 show ?case by (simp add: Let_def mset_swap_byte)
qed simp

lemma random_init_wf: "rc4_wf (random_init seed)"
  by (simp add: rc4_wf_def random_init_def random_init_loop_mset)

lemma rc4_wf_length: "rc4_wf r \<Longrightarrow> length (rc_s r) = 256"
  unfolding rc4_wf_def by (metis length_map length_upt diff_zero size_mset)

lemma random_step_wf:
  assumes "rc4_wf r"
  shows "rc4_wf (fst (random_step r))" and "rc_inited (fst (random_step r)) = rc_inited r"
proof -
  have "unat j < length (rc_s r)" for j :: u8
    using unat_u8[of j] rc4_wf_length[OF assms] by simp
  then show "rc4_wf (fst (random_step r))"
    using assms by (simp add: rc4_wf_def random_step_def Let_def mset_swap_byte)
qed (simp add: random_step_def Let_def)

lemma random_bytes_loop_wf:
  assumes "rc4_wf r"
  shows "rc4_wf (fst (random_bytes_loop r n))" and "length (snd (random_bytes_loop r n)) = n"
    and "rc_inited (fst (random_bytes_loop r n)) = rc_inited r"
  using assms
proof (induction n arbitrary: r)
  case (Suc n)
  {
    case 1
    with Suc(1)[OF random_step_wf(1)] show ?case by (auto simp: split_def Let_def)
  next
    case 2
    with Suc(2)[OF random_step_wf(1)] show ?case by (auto simp: split_def Let_def)
  next
    case 3
    with Suc(3)[OF random_step_wf(1)] random_step_wf(2)[OF 3] show ?case by (auto simp: split_def Let_def)
  }
qed simp_all

text \<open>The state of the generator is a permutation of the 256 bytes after initialisation with any
  seed and stays one: \<open>random_bytes\<close> delivers as many bytes as asked for, never reads outside the
  array, and every byte value stays available.\<close>

theorem random_bytes_permutation:
  assumes "rc_inited r \<longrightarrow> rc4_wf r"
  shows "rc4_wf (fst (random_bytes r n)) \<and> length (snd (random_bytes r n)) = n \<and>
         set (rc_s (fst (random_bytes r n))) = UNIV"
proof -
  have "rc4_wf (if rc_inited r then r else random_init 0)" using assms random_init_wf by simp
  note w = random_bytes_loop_wf[OF this, of n]
  have "set (rc_s (fst (random_bytes r n))) = set (map word_of_nat [0 ..< 256])"
    using w(1) unfolding rc4_wf_def random_bytes_def by (rule mset_eq_setD)
  also have "\<dots> = (UNIV :: u8 set)"
  proof -
    have "x \<in> word_of_nat ` {0 ..< 256}" for x :: u8
      using unat_u8[of x] by (intro image_eqI[of _ _ "unat x"]) simp_all
    then show ?thesis by auto
  qed
  finally show ?thesis using w by (simp add: random_bytes_def)
qed

theorem random_bytes_permutation_witness:
  "length (snd (random_bytes (random_init 42) 10)) = 10"
  using random_bytes_permutation[of "random_init 42" 10] random_init_wf by simp

end
