(* ===== verification/Pintos_Fixed_Point.thy ===== *)
theory Pintos_Fixed_Point
  imports Pintos_Prelude
begin

section \<open>Fixed-point numbers (lib/kernel/fixed_point.c)\<close>

text \<open>
  Numbers with 14 fractional bits in an \<open>int64_t\<close>. Values are integers; \<open>wrap64\<close> and \<open>wrap32\<close> reduce
  every result to the signed range of its type. Division is C's, truncating
  towards zero; division by zero traps.
\<close>

definition fp_f :: int where
  "fp_f = 2 ^ 14"

definition fp_from_int :: "int \<Rightarrow> int" where
  "fp_from_int n = wrap64 (n * fp_f)"

definition fp_to_int_rz :: "int \<Rightarrow> int" where
  "fp_to_int_rz fp = wrap32 (fp sdiv fp_f)"

definition fp_to_int_rn :: "int \<Rightarrow> int" where
  "fp_to_int_rn fp = wrap32 (if fp \<ge> 0 then wrap64 (fp + fp_f sdiv 2) sdiv fp_f
                             else wrap64 (fp - fp_f sdiv 2) sdiv fp_f)"

definition fp_add :: "int \<Rightarrow> int \<Rightarrow> int" where
  "fp_add x y = wrap64 (x + y)"

definition fp_sub :: "int \<Rightarrow> int \<Rightarrow> int" where
  "fp_sub x y = wrap64 (x - y)"

definition fp_mult :: "int \<Rightarrow> int \<Rightarrow> int" where
  "fp_mult x y = wrap64 (x * y) sdiv fp_f"

definition fp_div :: "int \<Rightarrow> int \<Rightarrow> int option" where
  "fp_div x y = do { ASSERT (y \<noteq> 0); Some (wrap64 (wrap64 (x * fp_f) sdiv y)) }"

definition fp_int_add :: "int \<Rightarrow> int \<Rightarrow> int" where
  "fp_int_add fp n = wrap64 (fp + fp_from_int n)"

definition fp_int_subtract :: "int \<Rightarrow> int \<Rightarrow> int" where
  "fp_int_subtract fp n = wrap64 (fp - fp_from_int n)"

definition fp_int_mult :: "int \<Rightarrow> int \<Rightarrow> int" where
  "fp_int_mult fp n = wrap64 (fp * n)"

definition fp_int_div :: "int \<Rightarrow> int \<Rightarrow> int option" where
  "fp_int_div fp n = do { ASSERT (n \<noteq> 0); Some (wrap64 (fp sdiv n)) }"

subsection \<open>Ranges\<close>

lemma from_int_to_int:
  assumes "- (2 ^ 31) \<le> n" and "n < 2 ^ 31"
  shows "fp_to_int_rz (fp_from_int n) = n" and "fp_to_int_rn (fp_from_int n) = n"
proof -
  have f: "fp_from_int n = n * 16384" using assms by (simp add: fp_from_int_def fp_f_def)
  show "fp_to_int_rz (fp_from_int n) = n"
    using assms by (cases "0 \<le> n") (simp_all add: f fp_to_int_rz_def fp_f_def sdiv_nonneg sdiv_neg)
  have h: "(16384 :: int) sdiv 2 = 8192" by (simp add: sdiv_nonneg)
  show "fp_to_int_rn (fp_from_int n) = n"
  proof (cases "0 \<le> n")
    case True
    have "(n * 16384 + 8192) div 16384 = n" by simp
    with True assms show ?thesis by (simp add: f fp_to_int_rn_def fp_f_def h sdiv_nonneg)
  next
    case False
    have "(8192 - n * 16384) div 16384 = - n" by simp
    with False assms show ?thesis by (simp add: f fp_to_int_rn_def fp_f_def h sdiv_neg)
  qed
qed



end
