(* ===== verification/Pintos_Fd.thy ===== *)
theory Pintos_Fd
  imports Pintos_Prelude
begin

section \<open>File descriptors (filesys/fd.c)\<close>

text \<open>
  A process owns a list of links from descriptors to open files or directories, in the order of the
  list of the code. A file and a directory share the storage of the link (a union), here of type
  \<open>'p\<close>: the flag \<open>l_is_directory\<close> says which it is. Descriptors are of type \<open>int\<close>.
\<close>

record 'p fd_list_link =
  l_fd :: int
  l_is_directory :: bool
  l_object :: 'p
  l_mapped :: bool

fun fd_create_loop :: "'p fd_list_link list \<Rightarrow> int \<Rightarrow> int" where
  "fd_create_loop [] max_fd = max_fd"
| "fd_create_loop (e # es) max_fd =
     fd_create_loop es (if l_fd e > max_fd then l_fd e else max_fd)"

definition fd_create :: "'p fd_list_link list \<Rightarrow> int" where
  "fd_create fds = wrap32 (fd_create_loop fds 2 + 1)"

fun fd_close :: "'p fd_list_link list \<Rightarrow> int \<Rightarrow> 'p fd_list_link list" where
  "fd_close [] fd = []"
| "fd_close (link # es) fd = (if l_fd link = fd then es else link # fd_close es fd)"

definition STDIN :: int where "STDIN = 0"
definition STDOUT :: int where "STDOUT = 1"

fun fd_get_link :: "'p fd_list_link list \<Rightarrow> int \<Rightarrow> 'p fd_list_link option" where
  "fd_get_link [] fd = None"
| "fd_get_link (link # es) fd = (if l_fd link = fd then Some link else fd_get_link es fd)"

definition fd_is_valid :: "'p fd_list_link list \<Rightarrow> int \<Rightarrow> bool \<Rightarrow> bool \<Rightarrow> bool" where
  "fd_is_valid fds fd rd wr =
     (if fd = STDOUT \<and> wr then True
      else if fd = STDIN \<and> rd then True
      else \<exists>e \<in> set fds. l_fd e = fd)"

definition fd_get_file :: "'p fd_list_link list \<Rightarrow> int \<Rightarrow> 'p option" where
  "fd_get_file fds fd = map_option l_object (fd_get_link fds fd)"

definition fd_is_directory :: "'p fd_list_link list \<Rightarrow> int \<Rightarrow> bool" where
  "fd_is_directory fds fd =
     (case fd_get_link fds fd of None \<Rightarrow> False | Some entry \<Rightarrow> l_is_directory entry)"

definition fd_get_dir :: "'p fd_list_link list \<Rightarrow> int \<Rightarrow> 'p option" where
  "fd_get_dir fds fd =
     (case fd_get_link fds fd of
        None \<Rightarrow> None
      | Some entry \<Rightarrow> if \<not> l_is_directory entry then None else Some (l_object entry))"

text \<open>The inode numbers of the file and of the directory behind a pointer are arguments.\<close>

definition fd_inode_number ::
  "('p \<Rightarrow> int) \<Rightarrow> ('p \<Rightarrow> int) \<Rightarrow> 'p fd_list_link list \<Rightarrow> int \<Rightarrow> int" where
  "fd_inode_number file_inumber dir_inumber fds fd =
     (case fd_get_link fds fd of
        None \<Rightarrow> - 1
      | Some entry \<Rightarrow> if l_is_directory entry then dir_inumber (l_object entry)
                      else file_inumber (l_object entry))"

subsection \<open>Descriptors of a process\<close>

text \<open>Descriptors are distinct and above those of the console.\<close>

definition fds_wf :: "'p fd_list_link list \<Rightarrow> bool" where
  "fds_wf fds \<longleftrightarrow> distinct (map l_fd fds) \<and> (\<forall>e \<in> set fds. 2 < l_fd e \<and> l_fd e < 2 ^ 31)"

lemma fd_create_loop_ge:
  "max_fd \<le> fd_create_loop es max_fd \<and> (\<forall>e \<in> set es. l_fd e \<le> fd_create_loop es max_fd)"
  by (induction es arbitrary: max_fd) (auto intro: order_trans split: if_splits, (meson le_cases not_less order_trans)+)

lemma fd_create_loop_less:
  "max_fd < m \<Longrightarrow> \<forall>e \<in> set es. l_fd e < m \<Longrightarrow> fd_create_loop es max_fd < m"
  by (induction es arbitrary: max_fd) auto

lemma fd_get_link_append:
  "fd_get_link (fds @ fds') fd =
     (case fd_get_link fds fd of Some e \<Rightarrow> Some e | None \<Rightarrow> fd_get_link fds' fd)"
  by (induction fds) auto

lemma fd_close_append:
  "fd_get_link fds fd = None \<Longrightarrow> fd_close (fds @ fds') fd = fds @ fd_close fds' fd"
  by (induction fds) (auto split: if_splits)

lemma fd_get_link_Some: "fd_get_link fds fd = Some e \<Longrightarrow> e \<in> set fds \<and> l_fd e = fd"
  by (induction fds) (auto split: if_splits)

lemma fd_get_link_None: "fd_get_link fds fd = None \<longleftrightarrow> fd \<notin> l_fd ` set fds"
  by (induction fds) auto

lemma fd_close_set: "distinct (map l_fd fds) \<Longrightarrow> set (fd_close fds fd) = {e \<in> set fds. l_fd e \<noteq> fd}"
  by (induction fds) (auto, metis imageI)

lemma fd_close_distinct: "distinct (map l_fd fds) \<Longrightarrow> distinct (map l_fd (fd_close fds fd))"
  by (induction fds) (auto simp: fd_close_set)

lemma fd_get_link_close:
  "distinct (map l_fd fds) \<Longrightarrow>
     fd_get_link (fd_close fds fd) fd' = (if fd' = fd then None else fd_get_link fds fd')"
  by (induction fds) (auto simp: fd_get_link_None)

text \<open>C38. \<open>fd_create\<close> returns a descriptor that is not in use and not one of the console's: adding a
  link for it at the end of the list keeps all other descriptors, and closing it restores them.\<close>

theorem fd_create_fresh:
  assumes "fds_wf fds" and "\<forall>e \<in> set fds. l_fd e < 2 ^ 31 - 1" and "l_fd link = fd_create fds"
  shows "fds_wf (fds @ [link]) \<and> fd_get_link fds (fd_create fds) = None \<and>
         fd_get_link (fds @ [link]) (fd_create fds) = Some link \<and>
         (\<forall>fd. fd \<noteq> fd_create fds \<longrightarrow> fd_get_link (fds @ [link]) fd = fd_get_link fds fd) \<and>
         fd_close (fds @ [link]) (fd_create fds) = fds"
proof -
  have eq: "fd_create fds = fd_create_loop fds 2 + 1"
    using fd_create_loop_ge[of 2 fds] fd_create_loop_less[of 2 "2 ^ 31 - 1" fds] assms(2)
    by (simp add: fd_create_def)
  have new: "2 < fd_create fds" "fd_create fds < 2 ^ 31" "\<forall>e \<in> set fds. l_fd e < fd_create fds"
    using fd_create_loop_ge[of 2 fds] fd_create_loop_less[of 2 "2 ^ 31 - 1" fds] assms(2)
    by (auto simp: eq)
  have none: "fd_get_link fds (fd_create fds) = None"
    using new(3) by (auto simp: fd_get_link_None)
  have "fds_wf (fds @ [link])" using assms new by (auto simp: fds_wf_def)
  moreover have "fd_close (fds @ [link]) (fd_create fds) = fds"
    using none assms(3) by (simp add: fd_close_append)
  ultimately show ?thesis using none assms(3) by (auto simp: fd_get_link_append split: option.splits)
qed

theorem fd_create_fresh_witness:
  "fd_get_link ([\<lparr>l_fd = 3, l_is_directory = False, l_object = 0::nat, l_mapped = False\<rparr>] @
      [\<lparr>l_fd = 4, l_is_directory = True, l_object = 1, l_mapped = False\<rparr>]) 4 =
     Some \<lparr>l_fd = 4, l_is_directory = True, l_object = 1, l_mapped = False\<rparr>"
  using fd_create_fresh[of "[\<lparr>l_fd = 3, l_is_directory = False, l_object = 0::nat, l_mapped = False\<rparr>]"
      "\<lparr>l_fd = 4, l_is_directory = True, l_object = 1, l_mapped = False\<rparr>"]
  by (simp add: fds_wf_def fd_create_def)

end
