(* ===== verification/Pintos_Vaddr.thy ===== *)
theory Pintos_Vaddr
  imports Pintos_Prelude
begin

section \<open>Virtual addresses (threads/vaddr.h)\<close>

text \<open>Addresses are 32-bit words. A page has 4096 bytes; the kernel's part of the address space
  begins at \<open>PHYS_BASE\<close>, where physical memory is mapped one to one.\<close>

unbundle bit_operations_syntax

definition PGBITS :: nat where "PGBITS = 12"
definition PGSIZE :: nat where "PGSIZE = 2 ^ 12"
definition PGMASK :: u32 where "PGMASK = push_bit 0 (push_bit 12 1 - 1)"
definition PHYS_BASE :: u32 where "PHYS_BASE = 0xc0000000"

definition pg_ofs :: "u32 \<Rightarrow> u32" where
  "pg_ofs va = va AND PGMASK"

definition pg_no :: "u32 \<Rightarrow> u32" where
  "pg_no va = drop_bit PGBITS va"

definition pg_round_up :: "u32 \<Rightarrow> u32" where
  "pg_round_up va = (va + of_nat PGSIZE - 1) AND NOT PGMASK"

definition pg_round_down :: "u32 \<Rightarrow> u32" where
  "pg_round_down va = va AND NOT PGMASK"

definition is_user_vaddr :: "u32 \<Rightarrow> bool" where
  "is_user_vaddr vaddr = (vaddr < PHYS_BASE)"

definition is_kernel_vaddr :: "u32 \<Rightarrow> bool" where
  "is_kernel_vaddr vaddr = (vaddr \<ge> PHYS_BASE)"

definition ptov :: "u32 \<Rightarrow> u32 option" where
  "ptov paddr = do { ASSERT (paddr < PHYS_BASE); Some (paddr + PHYS_BASE) }"

definition vtop :: "u32 \<Rightarrow> u32 option" where
  "vtop vaddr = do { ASSERT (is_kernel_vaddr vaddr); Some (vaddr - PHYS_BASE) }"

subsection \<open>Addresses as numbers\<close>

lemma PGMASK_mask: "PGMASK = mask 12"
  by (simp add: PGMASK_def mask_eq_exp_minus_1)

lemma unat_pg_ofs: "unat (pg_ofs va) = unat va mod PGSIZE"
  by (simp add: pg_ofs_def PGMASK_mask PGSIZE_def unsigned_take_bit_eq flip: take_bit_eq_mask)
    (simp add: take_bit_eq_mod)

lemma unat_pg_no: "unat (pg_no va) = unat va div PGSIZE"
  by (simp add: pg_no_def unat_drop_bit PGBITS_def PGSIZE_def)

lemma unat_pg_no_less: "unat (pg_no va) < 2 ^ 20"
  using unat_u32[of va] by (simp add: unat_pg_no PGSIZE_def div_less_iff_less_mult)

lemma and_not_PGMASK: "va AND NOT PGMASK = va - pg_ofs va"
proof -
  have "(va AND NOT PGMASK) AND (va AND PGMASK) = 0" by (auto simp: bit_eq_iff bit_simps)
  then have "(va AND NOT PGMASK) + (va AND PGMASK) = (va AND NOT PGMASK) OR (va AND PGMASK)"
    by (rule disjunctive_add_eq_or)
  also have "\<dots> = va" by (auto simp: bit_eq_iff bit_simps)
  finally show ?thesis unfolding pg_ofs_def by (metis add_diff_cancel_right')
qed

lemma unat_pg_round_down: "unat (pg_round_down va) = unat va div PGSIZE * PGSIZE"
proof -
  have "pg_ofs va \<le> va" by (simp add: word_le_nat_alt unat_pg_ofs)
  then have "unat (pg_round_down va) = unat va - unat va mod PGSIZE"
    by (simp add: pg_round_down_def and_not_PGMASK unat_sub unat_pg_ofs)
  then show ?thesis by (simp add: minus_mod_eq_div_mult)
qed

lemma vtop_ptov:
  assumes "unat paddr < 2 ^ 30"
  shows "Option.bind (ptov paddr) vtop = Some paddr"
proof -
  have "paddr < PHYS_BASE" using assms by (simp add: word_less_nat_alt PHYS_BASE_def)
  moreover have "unat (paddr + PHYS_BASE) = unat paddr + unat PHYS_BASE"
    using assms by (simp add: unat_plus_if' PHYS_BASE_def)
  ultimately show ?thesis
    by (simp add: ptov_def vtop_def is_kernel_vaddr_def word_le_nat_alt)
qed

end
