(* ===== verification/Pintos_Palloc.thy ===== *)
theory Pintos_Palloc
  imports Pintos_Bitmap Pintos_Vaddr
begin

section \<open>The page allocator (threads/palloc.c)\<close>

text \<open>
  Memory above 1 MB is divided into the kernel pool and the user pool. A pool is a base address
  and a bitmap of the pages in use; the bitmap itself occupies the pages in front of the base.
  Each operation runs as one step: the scan is made under the lock of the pool. The contents of
  memory are a function from addresses to bytes, so that clearing pages is visible.
\<close>

unbundle bit_operations_syntax

record pool =
  used_map :: bitmap
  base :: u32

record palloc_state =
  kernel_pool :: pool
  user_pool :: pool
  memory :: "u32 \<Rightarrow> u8"

definition PAL_ASSERT :: nat where "PAL_ASSERT = 1"
definition PAL_ZERO :: nat where "PAL_ZERO = 2"
definition PAL_USER :: nat where "PAL_USER = 4"


definition fill_memory :: "(u32 \<Rightarrow> u8) \<Rightarrow> u32 \<Rightarrow> u8 \<Rightarrow> nat \<Rightarrow> u32 \<Rightarrow> u8" where
  "fill_memory m dst v n = (\<lambda>a. if unat (a - dst) < n then v else m a)"



definition page_from_pool :: "pool \<Rightarrow> u32 \<Rightarrow> bool" where
  "page_from_pool p page =
     (let page_no = unat (pg_no page);
          start_page = unat (pg_no (base p));
          end_page = size_add start_page (bitmap_size (used_map p))
      in page_no \<ge> start_page \<and> page_no < end_page)"

definition get_pool :: "palloc_state \<Rightarrow> bool \<Rightarrow> pool" where
  "get_pool s user = (if user then user_pool s else kernel_pool s)"

definition set_pool :: "palloc_state \<Rightarrow> bool \<Rightarrow> pool \<Rightarrow> palloc_state" where
  "set_pool s user p = (if user then s\<lparr>user_pool := p\<rparr> else s\<lparr>kernel_pool := p\<rparr>)"

text \<open>The null pointer is address zero.\<close>

definition palloc_get_multiple :: "palloc_state \<Rightarrow> nat \<Rightarrow> nat \<Rightarrow> (palloc_state \<times> u32) option" where
  "palloc_get_multiple s flags page_cnt =
     (let user = (flags AND PAL_USER \<noteq> 0); pool = get_pool s user in
      if page_cnt = 0 then Some (s, 0)
      else do {
        (m, page_idx) \<leftarrow> bitmap_scan_and_flip (used_map pool) 0 page_cnt False;
        let s = set_pool s user (pool\<lparr>used_map := m\<rparr>);
        let pages = (if page_idx \<noteq> BITMAP_ERROR then base pool + of_nat (PGSIZE * page_idx) else 0);
        if pages \<noteq> 0 then
          Some (if flags AND PAL_ZERO \<noteq> 0
                then s\<lparr>memory := fill_memory (memory s) pages 0 (PGSIZE * page_cnt)\<rparr> else s, pages)
        else do {
          ASSERT (flags AND PAL_ASSERT = 0);
          Some (s, pages)
        }
      })"

definition palloc_get_page :: "palloc_state \<Rightarrow> nat \<Rightarrow> (palloc_state \<times> u32) option" where
  "palloc_get_page s flags = palloc_get_multiple s flags 1"

definition palloc_free_multiple :: "palloc_state \<Rightarrow> u32 \<Rightarrow> nat \<Rightarrow> palloc_state option" where
  "palloc_free_multiple s pages page_cnt = do {
     ASSERT (pg_ofs pages = 0);
     if pages = 0 \<or> page_cnt = 0 then Some s
     else do {
       user \<leftarrow> (if page_from_pool (kernel_pool s) pages then Some False
                else if page_from_pool (user_pool s) pages then Some True
                else None);
       let pool = get_pool s user;
       let page_idx = unat (pg_no pages - pg_no (base pool));
       let s = s\<lparr>memory := fill_memory (memory s) pages 0xcc (PGSIZE * page_cnt)\<rparr>;
       all \<leftarrow> bitmap_all (used_map pool) page_idx page_cnt;
       ASSERT all;
       m \<leftarrow> bitmap_set_multiple (used_map pool) page_idx page_cnt False;
       Some (set_pool s user (pool\<lparr>used_map := m\<rparr>))
     }
   }"

definition palloc_free_page :: "palloc_state \<Rightarrow> u32 \<Rightarrow> palloc_state option" where
  "palloc_free_page s page = palloc_free_multiple s page 1"

subsection \<open>Pools\<close>

definition pool_wf :: "pool \<Rightarrow> bool" where
  "pool_wf p \<longleftrightarrow> bitmap_wf (used_map p) \<and> pg_ofs (base p) = 0 \<and> base p \<noteq> 0 \<and>
     unat (base p) + PGSIZE * bit_cnt (used_map p) \<le> 2 ^ 32"

definition palloc_wf :: "palloc_state \<Rightarrow> bool" where
  "palloc_wf s \<longleftrightarrow> pool_wf (kernel_pool s) \<and> pool_wf (user_pool s) \<and>
     unat (base (kernel_pool s)) + PGSIZE * bit_cnt (used_map (kernel_pool s))
       \<le> unat (base (user_pool s))"

definition pool_page :: "pool \<Rightarrow> nat \<Rightarrow> u32" where
  "pool_page p i = base p + of_nat (PGSIZE * i)"

lemma get_set_pool [simp]:
  "get_pool (set_pool s user p) user = p" "get_pool (set_pool s user p) (\<not> user) = get_pool s (\<not> user)"
  "memory (set_pool s user p) = memory s" "get_pool (s\<lparr>memory := m\<rparr>) u = get_pool s u"
  "set_pool s user (get_pool s user) = s"
  by (auto simp: get_pool_def set_pool_def)

lemma palloc_wf_pool: "palloc_wf s \<Longrightarrow> pool_wf (get_pool s user)"
  by (simp add: palloc_wf_def get_pool_def)

lemma palloc_wf_set_pool:
  assumes "palloc_wf s" and "bitmap_wf m" and "bit_cnt m = bit_cnt (used_map (get_pool s user))"
  shows "palloc_wf (set_pool s user ((get_pool s user)\<lparr>used_map := m\<rparr>))"
  using assms by (auto simp: palloc_wf_def pool_wf_def set_pool_def get_pool_def)

lemma palloc_wf_memory [simp]: "palloc_wf (s\<lparr>memory := m\<rparr>) = palloc_wf s"
  by (simp add: palloc_wf_def)

lemma unat_pool_page_mod: "unat (pool_page p i) = (unat (base p) + PGSIZE * i) mod 2 ^ 32"
proof -
  have "unat (base p + of_nat n) = (unat (base p) + n) mod 2 ^ 32" for n
    by (simp add: unat_word_ariths unat_of_nat mod_add_right_eq)
  then show ?thesis unfolding pool_page_def .
qed

lemma unat_pool_page:
  assumes "pool_wf p" and "i < bit_cnt (used_map p)"
  shows "unat (pool_page p i) = unat (base p) + PGSIZE * i"
proof -
  have "PGSIZE * Suc i \<le> PGSIZE * bit_cnt (used_map p)" using assms(2) by (intro mult_le_mono2) simp
  then have "unat (base p) + PGSIZE * i < 2 ^ 32" using assms(1) by (simp add: pool_wf_def PGSIZE_def)
  then show ?thesis by (simp add: unat_pool_page_mod)
qed

lemma pool_page_aligned:
  assumes "pool_wf p"
  shows "pg_ofs (pool_page p i) = 0"
proof -
  have "unat (base p) mod PGSIZE = 0"
    using assms by (simp add: pool_wf_def flip: unat_pg_ofs)
  moreover note unat_pool_page_mod[of p i]
  moreover have "PGSIZE dvd 2 ^ 32" by (simp add: PGSIZE_def)
  ultimately have "unat (pool_page p i) mod PGSIZE = 0" by (simp add: mod_mod_cancel)
  then show ?thesis by (simp add: word_unat_eq_iff unat_pg_ofs)
qed

lemma pool_page_nonzero: "pool_wf p \<Longrightarrow> i < bit_cnt (used_map p) \<Longrightarrow> pool_page p i \<noteq> 0"
  using unat_pool_page[of p i] by (auto simp: pool_wf_def word_unat_eq_iff)

lemma pool_page_no:
  assumes "pool_wf p" and "i < bit_cnt (used_map p)"
  shows "unat (pg_no (pool_page p i)) = unat (pg_no (base p)) + i"
  using unat_pool_page[OF assms] by (simp add: unat_pg_no PGSIZE_def)

lemma pool_page_idx:
  assumes "pool_wf p" and "i < bit_cnt (used_map p)"
  shows "unat (pg_no (pool_page p i) - pg_no (base p)) = i"
  using pool_page_no[OF assms] by (simp add: unat_sub word_le_nat_alt)

lemma page_from_pool_iff:
  assumes "pool_wf p"
  shows "page_from_pool p a \<longleftrightarrow>
     unat (base p) \<le> unat a \<and> unat a < unat (base p) + PGSIZE * bit_cnt (used_map p)"
proof -
  let ?b = "unat (base p)" and ?n = "bit_cnt (used_map p)"
  obtain k where k: "?b = PGSIZE * k"
    using assms by (auto simp: pool_wf_def word_unat_eq_iff unat_pg_ofs)
  have "?b + PGSIZE * ?n \<le> 2 ^ 32" using assms by (simp add: pool_wf_def)
  then have "k + ?n \<le> 2 ^ 20" by (simp add: k PGSIZE_def)
  then have "size_add k ?n = k + ?n" by (simp add: size_add_def)
  moreover have "?b div PGSIZE = k" by (simp add: k PGSIZE_def)
  ultimately have "page_from_pool p a \<longleftrightarrow> k \<le> unat a div PGSIZE \<and> unat a div PGSIZE < k + ?n"
    by (simp add: page_from_pool_def bitmap_size_def unat_pg_no Let_def)
  also have "\<dots> \<longleftrightarrow> k * PGSIZE \<le> unat a \<and> unat a < (k + ?n) * PGSIZE"
    by (simp add: less_eq_div_iff_mult_less_eq div_less_iff_less_mult PGSIZE_def)
  finally show ?thesis by (simp add: k algebra_simps)
qed

lemma page_from_pool_page:
  assumes "palloc_wf s" and "i < bit_cnt (used_map (get_pool s user))"
  shows "page_from_pool (kernel_pool s) (pool_page (get_pool s user) i) = (\<not> user)"
    and "user \<Longrightarrow> page_from_pool (user_pool s) (pool_page (get_pool s user) i)"
proof -
  note w = palloc_wf_pool[OF assms(1)]
  have "PGSIZE * Suc i \<le> PGSIZE * bit_cnt (used_map (get_pool s user))"
    using assms(2) by (intro mult_le_mono2) simp
  moreover note unat_pool_page[OF w assms(2)] page_from_pool_iff[OF w[of False]]
    page_from_pool_iff[OF w[of True]]
  ultimately show "page_from_pool (kernel_pool s) (pool_page (get_pool s user) i) = (\<not> user)"
    "user \<Longrightarrow> page_from_pool (user_pool s) (pool_page (get_pool s user) i)"
    using assms(1) by (cases user; simp add: get_pool_def palloc_wf_def PGSIZE_def)+
qed

text \<open>An allocation that finds a free group of pages, and one that does not.\<close>

lemma palloc_get_multiple_found:
  assumes wf: "palloc_wf s" and n: "0 < n" and u: "user = (flags AND PAL_USER \<noteq> 0)"
    and run: "\<not> no_run (used_map (get_pool s user)) 0 n False"
  obtains m i where "bitmap_wf m" and "bit_cnt m = bit_cnt (used_map (get_pool s user))"
    and "i + n \<le> bit_cnt m" and "bit_run (used_map (get_pool s user)) i n False"
    and "\<forall>j < bit_cnt m. bit_at m j = (bit_at (used_map (get_pool s user)) j \<or> j \<in> {i ..< i + n})"
    and "palloc_get_multiple s flags n = Some ((set_pool s user ((get_pool s user)\<lparr>used_map := m\<rparr>))
           \<lparr>memory := if flags AND PAL_ZERO \<noteq> 0
              then fill_memory (memory s) (pool_page (get_pool s user) i) 0 (PGSIZE * n)
              else memory s\<rparr>, pool_page (get_pool s user) i)"
proof (rule bitmap_scan_and_flip_found[OF _ _ run])
  let ?p = "get_pool s user"
  note w = palloc_wf_pool[OF wf, of user]
  then show "bitmap_wf (used_map ?p)" by (simp add: pool_wf_def)
  fix m i assume m: "bitmap_scan_and_flip (used_map ?p) 0 n False = Some (m, i)" "i \<noteq> BITMAP_ERROR"
    "bitmap_wf m" "bit_cnt m = bit_cnt (used_map ?p)" "i + n \<le> bit_cnt (used_map ?p)"
    "bit_run (used_map ?p) i n False"
    "\<forall>j < bit_cnt (used_map ?p). bit_at m j =
       (if j \<in> {i ..< i + n} then \<not> False else bit_at (used_map ?p) j)"
  have "i < bit_cnt (used_map ?p)" using m(5) n by simp
  from pool_page_nonzero[OF w this] have nz: "pool_page ?p i \<noteq> 0" .
  show thesis
  proof (rule that[of m i])
    show "palloc_get_multiple s flags n = Some ((set_pool s user (?p\<lparr>used_map := m\<rparr>))
           \<lparr>memory := if flags AND PAL_ZERO \<noteq> 0
              then fill_memory (memory s) (pool_page ?p i) 0 (PGSIZE * n) else memory s\<rparr>,
           pool_page ?p i)"
      unfolding palloc_get_multiple_def Let_def u[symmetric] pool_page_def[symmetric]
      using n m(1,2) nz by (auto simp: set_pool_def)
  qed (use m in auto)
qed simp

lemma palloc_get_multiple_none:
  assumes wf: "palloc_wf s" and u: "user = (flags AND PAL_USER \<noteq> 0)"
    and no: "n = 0 \<or> no_run (used_map (get_pool s user)) 0 n False"
  shows "palloc_get_multiple s flags n =
           (if n = 0 \<or> flags AND PAL_ASSERT = 0 then Some (s, 0) else None)"
proof (cases "n = 0")
  case False
  have "bitmap_scan_and_flip (used_map (get_pool s user)) 0 n False =
      Some (used_map (get_pool s user), BITMAP_ERROR)"
    using palloc_wf_pool[OF wf, of user] no False
    by (intro bitmap_scan_and_flip_none) (simp_all add: pool_wf_def)
  with False show ?thesis
    unfolding palloc_get_multiple_def Let_def u[symmetric] by simp
qed (simp add: palloc_get_multiple_def Let_def)

lemma palloc_free_multiple_pages:
  assumes wf: "palloc_wf s" and n: "0 < n" and i: "i + n \<le> bit_cnt (used_map (get_pool s user))"
    and used: "\<forall>j \<in> {i ..< i + n}. bit_at (used_map (get_pool s user)) j"
  obtains m where "bitmap_wf m" and "bit_cnt m = bit_cnt (used_map (get_pool s user))"
    and "\<forall>j < bit_cnt m. bit_at m j = (bit_at (used_map (get_pool s user)) j \<and> j \<notin> {i ..< i + n})"
    and "palloc_free_multiple s (pool_page (get_pool s user) i) n =
           Some (set_pool (s\<lparr>memory := fill_memory (memory s) (pool_page (get_pool s user) i) 0xcc
             (PGSIZE * n)\<rparr>) user ((get_pool s user)\<lparr>used_map := m\<rparr>))"
proof -
  let ?p = "get_pool s user"
  note w = palloc_wf_pool[OF wf, of user]
  then have bw: "bitmap_wf (used_map ?p)" by (simp add: pool_wf_def)
  from bitmap_set_multiple_abs[OF bw i, of False] obtain m where
    m: "bitmap_set_multiple (used_map ?p) i n False = Some m" "bitmap_wf m"
      "bit_cnt m = bit_cnt (used_map ?p)"
      "bitmap_abs m = take i (bitmap_abs (used_map ?p)) @ replicate n False @
         drop (i + n) (bitmap_abs (used_map ?p))" by metis
  have at: "\<forall>j < bit_cnt m. bit_at m j = (bit_at (used_map ?p) j \<and> j \<notin> {i ..< i + n})"
    using bit_at_range[OF m(4) i m(3)] m(3) by auto
  have i': "i < bit_cnt (used_map ?p)" using n i by simp
  have all: "bitmap_all (used_map ?p) i n = Some True"
    using bitmap_all_abs[OF bw i] used by simp
  show thesis
    using page_from_pool_page[OF wf i'] pool_page_nonzero[OF w i'] n m(1) all
      pool_page_aligned[OF w, of i] pool_page_idx[OF w i']
    by (intro that[OF m(2,3) at]) (cases user; simp add: palloc_free_multiple_def Let_def)
qed

subsection \<open>The pools as range allocators\<close>

text \<open>The view of a client of one pool: pages are numbered from the base of the pool.\<close>

definition pool_get :: "bool \<Rightarrow> palloc_state \<Rightarrow> nat \<Rightarrow> (palloc_state \<times> nat option) option" where
  "pool_get user s n = do {
     (s, p) \<leftarrow> palloc_get_multiple s (if user then PAL_USER else 0) n;
     Some (s, if p = 0 then None else Some (unat (pg_no p - pg_no (base (get_pool s user)))))
   }"

definition pool_free :: "bool \<Rightarrow> palloc_state \<Rightarrow> nat \<Rightarrow> nat \<Rightarrow> palloc_state option" where
  "pool_free user s i n = palloc_free_multiple s (pool_page (get_pool s user) i) n"

interpretation pages: range_allocator palloc_wf "\<lambda>s. bit_cnt (used_map (get_pool s user))"
  "\<lambda>s. bit_at (used_map (get_pool s user))" "pool_get user" "pool_free user" for user
proof unfold_locales
  fix s n assume wf: "palloc_wf s"
  let ?p = "get_pool s user" and ?f = "if user then PAL_USER else 0"
  have u: "user = (?f AND PAL_USER \<noteq> 0)" by (simp add: PAL_USER_def)
  show "\<exists>s' r. pool_get user s n = Some (s', r) \<and> palloc_wf s' \<and>
      bit_cnt (used_map (get_pool s' user)) = bit_cnt (used_map ?p) \<and>
      (case r of None \<Rightarrow> (\<forall>j < bit_cnt (used_map ?p).
           bit_at (used_map (get_pool s' user)) j = bit_at (used_map ?p) j)
       | Some i \<Rightarrow> i + n \<le> bit_cnt (used_map ?p) \<and>
           (\<forall>j < bit_cnt (used_map ?p). bit_at (used_map (get_pool s' user)) j =
              (bit_at (used_map ?p) j \<or> j \<in> {i ..< i + n})) \<and>
           (\<forall>j \<in> {i ..< i + n}. \<not> bit_at (used_map ?p) j))"
  proof (cases "n = 0 \<or> no_run (used_map ?p) 0 n False")
    case True
    with palloc_get_multiple_none[OF wf u] wf show ?thesis
      by (simp add: pool_get_def PAL_ASSERT_def PAL_USER_def)
  next
    case False
    then have n: "0 < n" and run: "\<not> no_run (used_map ?p) 0 n False" by auto
    show ?thesis
    proof (rule palloc_get_multiple_found[OF wf n u run])
      fix m i assume m: "bitmap_wf m" "bit_cnt m = bit_cnt (used_map ?p)" "i + n \<le> bit_cnt m"
        "bit_run (used_map ?p) i n False"
        "\<forall>j < bit_cnt m. bit_at m j = (bit_at (used_map ?p) j \<or> j \<in> {i ..< i + n})"
        and g: "palloc_get_multiple s ?f n = Some ((set_pool s user (?p\<lparr>used_map := m\<rparr>))
          \<lparr>memory := if ?f AND PAL_ZERO \<noteq> 0
             then fill_memory (memory s) (pool_page ?p i) 0 (PGSIZE * n) else memory s\<rparr>, pool_page ?p i)"
      have i: "i < bit_cnt (used_map ?p)" using m(2,3) n by simp
      note w = palloc_wf_pool[OF wf, of user]
      show ?thesis
        unfolding pool_get_def g
        using m pool_page_nonzero[OF w i] pool_page_idx[OF w i] palloc_wf_set_pool[OF wf m(1,2)]
        by (auto simp: bit_run_def)
    qed
  qed
next
  fix s i n assume wf: "palloc_wf s" and i: "i + n \<le> bit_cnt (used_map (get_pool s user))"
    and used: "\<forall>j \<in> {i ..< i + n}. bit_at (used_map (get_pool s user)) j"
  show "\<exists>s'. pool_free user s i n = Some s' \<and> palloc_wf s' \<and>
      bit_cnt (used_map (get_pool s' user)) = bit_cnt (used_map (get_pool s user)) \<and>
      (\<forall>j < bit_cnt (used_map (get_pool s user)). bit_at (used_map (get_pool s' user)) j =
         (bit_at (used_map (get_pool s user)) j \<and> j \<notin> {i ..< i + n}))"
  proof (cases "n = 0")
    case True
    with pool_page_aligned[OF palloc_wf_pool[OF wf]] wf show ?thesis
      by (simp add: pool_free_def palloc_free_multiple_def)
  next
    case False
    then have n: "0 < n" by simp
    show ?thesis
    proof (rule palloc_free_multiple_pages[OF wf n i used])
      fix m assume m: "bitmap_wf m" "bit_cnt m = bit_cnt (used_map (get_pool s user))"
        "\<forall>j < bit_cnt m. bit_at m j = (bit_at (used_map (get_pool s user)) j \<and> j \<notin> {i ..< i + n})"
        and f: "palloc_free_multiple s (pool_page (get_pool s user) i) n =
          Some (set_pool (s\<lparr>memory := fill_memory (memory s) (pool_page (get_pool s user) i) 0xcc
             (PGSIZE * n)\<rparr>) user ((get_pool s user)\<lparr>used_map := m\<rparr>))"
      show ?thesis
        unfolding pool_free_def f
        using m palloc_wf_set_pool[of "s\<lparr>memory := fill_memory (memory s) (pool_page (get_pool s user) i) 0xcc
             (PGSIZE * n)\<rparr>" m user] wf
        by auto
    qed
  qed
qed

subsection \<open>Start-up\<close>





text \<open>\<open>no_run m 0 n False\<close> says that the map has no group of \<open>n\<close> free pages.\<close>

text \<open>C13. \<open>palloc_get_multiple\<close> returns the address of \<open>page_cnt\<close> contiguous, page-aligned pages of the
  pool asked for that were all free, and marks exactly these as used; with \<open>PAL_ZERO\<close> their bytes
  become zero, and no other byte of memory changes. It returns the null pointer only when there is no such group (or the
  count is zero), and panics then exactly when \<open>PAL_ASSERT\<close> is set.\<close>

theorem palloc_get_multiple_correct:
  fixes flags :: nat
  assumes "palloc_wf s"
  defines "user \<equiv> flags AND PAL_USER \<noteq> 0"
  shows "if 0 < n \<and> \<not> no_run (used_map (get_pool s user)) 0 n False
         then \<exists>s' i. palloc_get_multiple s flags n = Some (s', pool_page (get_pool s user) i) \<and>
                palloc_wf s' \<and> pg_ofs (pool_page (get_pool s user) i) = 0 \<and>
                i + n \<le> bit_cnt (used_map (get_pool s user)) \<and>
                (\<forall>j \<in> {i ..< i + n}. \<not> bit_at (used_map (get_pool s user)) j) \<and>
                (\<forall>j < bit_cnt (used_map (get_pool s user)). bit_at (used_map (get_pool s' user)) j =
                   (bit_at (used_map (get_pool s user)) j \<or> j \<in> {i ..< i + n})) \<and>
                get_pool s' (\<not> user) = get_pool s (\<not> user) \<and>
                (\<forall>a. memory s' a =
                   (if flags AND PAL_ZERO \<noteq> 0 \<and> unat (a - pool_page (get_pool s user) i) < PGSIZE * n
                    then 0 else memory s a))
         else palloc_get_multiple s flags n =
                (if n = 0 \<or> flags AND PAL_ASSERT = 0 then Some (s, 0) else None)"
proof (cases "0 < n \<and> \<not> no_run (used_map (get_pool s user)) 0 n False")
  case True
  note wf = assms(1) and u = user_def[THEN meta_eq_to_obj_eq]
  let ?p = "get_pool s user"
  obtain m i where m: "bitmap_wf m" "bit_cnt m = bit_cnt (used_map ?p)" "i + n \<le> bit_cnt m"
    "bit_run (used_map ?p) i n False"
    "\<forall>j < bit_cnt m. bit_at m j = (bit_at (used_map ?p) j \<or> j \<in> {i ..< i + n})"
    and g: "palloc_get_multiple s flags n = Some ((set_pool s user (?p\<lparr>used_map := m\<rparr>))
      \<lparr>memory := if flags AND PAL_ZERO \<noteq> 0
         then fill_memory (memory s) (pool_page ?p i) 0 (PGSIZE * n) else memory s\<rparr>, pool_page ?p i)"
    by (rule palloc_get_multiple_found[OF wf _ u]) (use True in auto)
  show ?thesis
    unfolding g using True m pool_page_aligned[OF palloc_wf_pool[OF wf]] palloc_wf_set_pool[OF wf m(1,2)]
    by (auto simp: bit_run_def fill_memory_def)
next
  case False
  then have "n = 0 \<or> no_run (used_map (get_pool s user)) 0 n False" by auto
  from palloc_get_multiple_none[OF assms(1) user_def[THEN meta_eq_to_obj_eq] this] False
  show ?thesis by auto
qed

text \<open>C14. For every sequence of requests to a pool and releases of what was handed out, no call
  panics, the allocator stays well formed, and the groups of pages in the hands of the client are
  in use and never overlap.\<close>

theorem palloc_client_disjoint:
  assumes "palloc_wf s"
  shows "\<exists>s' L. range_client (pool_get user) (pool_free user) s [] ops = Some (s', L) \<and>
           palloc_wf s' \<and> sorted_wrt ranges_disjoint L \<and>
           (\<forall>(i, n) \<in> set L. i + n \<le> bit_cnt (used_map (get_pool s' user)) \<and>
              (\<forall>j \<in> {i ..< i + n}. bit_at (used_map (get_pool s' user)) j))"
  using pages.range_client_owns[OF assms pages.owns_Nil, of user ops] unfolding pages.owns_def by blast

definition ex_palloc :: palloc_state where
  "ex_palloc = \<lparr>kernel_pool = \<lparr>used_map = \<lparr>bit_cnt = 4, bits = [3]\<rparr>, base = 0xc0101000\<rparr>,
     user_pool = \<lparr>used_map = \<lparr>bit_cnt = 4, bits = [0]\<rparr>, base = 0xc0106000\<rparr>, memory = (\<lambda>_. 7)\<rparr>"

lemma ex_palloc_wf: "palloc_wf ex_palloc"
  by (simp add: palloc_wf_def pool_wf_def ex_palloc_def bitmap_wf_def ELEM_BITS_def pg_ofs_def
      PGMASK_def PGSIZE_def)


theorem palloc_get_multiple_correct_witness:
  "\<exists>s' i. palloc_get_multiple ex_palloc PAL_ZERO 2 = Some (s', pool_page (kernel_pool ex_palloc) i) \<and>
     palloc_wf s'"
proof -
  let ?m = "used_map (get_pool ex_palloc False)"
  have "\<not> bit_at ?m 2" "\<not> bit_at ?m 3" by code_simp+
  moreover have "j = 2 \<or> j = 3" if "j \<in> {2 ..< 2 + 2}" for j :: nat using that by auto
  ultimately have r: "bit_run ?m 2 2 False" unfolding bit_run_def by blast
  have "bit_cnt ?m = 4" by code_simp
  with r have "\<not> no_run ?m 0 2 False" unfolding no_run_def by (intro notI) (drule bspec[of _ _ 2], simp_all)
  moreover have "PAL_ZERO AND PAL_USER = 0" by (simp add: PAL_ZERO_def PAL_USER_def)
  moreover have "get_pool ex_palloc False = kernel_pool ex_palloc" by (simp add: get_pool_def)
  ultimately show ?thesis
    using palloc_get_multiple_correct[OF ex_palloc_wf, of 2 PAL_ZERO] by (simp split: if_splits) blast
qed

theorem palloc_client_disjoint_witness:
  "\<exists>s' L. range_client (pool_get True) (pool_free True) ex_palloc [] [Get 2, Get 1, Put 1, Get 3] =
     Some (s', L) \<and> palloc_wf s' \<and> sorted_wrt ranges_disjoint L"
  using palloc_client_disjoint[OF ex_palloc_wf, of True "[Get 2, Get 1, Put 1, Get 3]"] by blast

end
