(* ===== verification/Pintos_Thread.thy ===== *)
theory Pintos_Thread
  imports Pintos_Fixed_Point Pintos_String
begin

section \<open>Threads and the scheduler (threads/thread.c)\<close>

text \<open>
  A thread is known by the number of the page that holds it; \<open>threads\<close> maps the pages that hold a
  valid \<open>struct thread\<close> to its contents. The lists that the member \<open>elem\<close> can be linked in (the 64
  ready lists, the sleep list and the waiters of semaphores and locks) are the queues of the
  kernel; \<open>t_elem\<close> says which of them the links of the thread point into. Linking an element
  that is linked already and removing one that is not would corrupt a list: both are failures.

  A call of \<open>schedule\<close> returns in another thread. What a thread still has to do when it runs
  again is the stack of resume points \<open>t_cont\<close>; it stands for the kernel stack of the thread.
  Interrupts are the flag \<open>intr_on\<close>; \<open>in_external_intr\<close> is set inside an interrupt handler.
\<close>

subsection \<open>State\<close>

datatype thread_status = THREAD_RUNNING | THREAD_READY | THREAD_BLOCKED | THREAD_DYING

datatype qid = Ready nat | Sleep | Sema_waiters nat | Lock_waiters nat

datatype kcall =
    K_intr_set_level bool
  | K_iret
  | K_kernel_thread
  | K_idle nat
  | K_idle_loop
  | K_idle_hlt
  | K_sema_down nat
  | K_sema_down_loop nat bool
  | K_lock_acquire nat
  | K_lock_acquire_loop nat bool
  | K_cond_broadcast nat nat

record thread =
  t_tid :: int
  t_status :: thread_status
  t_name :: "u8 list"
  t_priority :: int
  t_current_priority :: int
  t_wakeup_time :: int
  t_nice :: int
  t_recent_cpu :: int
  t_elem :: "qid option"
  t_owned_locks :: "nat list"
  t_pagedir :: bool
  t_pid :: int
  t_cont :: "kcall list"

record lock =
  holder :: "nat option"
  bounty :: int

record kstate =
  threads :: "nat \<Rightarrow> thread option"
  queues :: "qid \<Rightarrow> nat list"
  all_list :: "nat list"
  idle_thread :: "nat option"
  initial_thread :: nat
  running :: nat
  next_tid :: int
  idle_ticks :: int
  kernel_ticks :: int
  user_ticks :: int
  thread_ticks :: nat
  thread_mlfqs :: bool
  load_avg :: int
  ready_mlfq_size :: int
  intr_on :: bool
  in_external_intr :: bool
  yield_on_return :: bool
  sema_value :: "nat \<Rightarrow> u32"
  locks :: "nat \<Rightarrow> lock"
  cond_waiters :: "nat \<Rightarrow> nat list"
  ticks :: int

definition TID_ERROR :: int where "TID_ERROR = - 1"
definition PRI_MIN :: int where "PRI_MIN = 0"
definition PRI_DEFAULT :: int where "PRI_DEFAULT = 31"
definition PRI_MAX :: int where "PRI_MAX = 63"
definition TIME_SLICE :: nat where "TIME_SLICE = 4"

definition upd_thread :: "nat \<Rightarrow> (thread \<Rightarrow> thread) \<Rightarrow> kstate \<Rightarrow> kstate" where
  "upd_thread t f s = s\<lparr>threads := (threads s)(t := map_option f (threads s t))\<rparr>"

definition push_cont :: "kcall list \<Rightarrow> kstate \<Rightarrow> kstate" where
  "push_cont ks s = upd_thread (running s) (\<lambda>th. th\<lparr>t_cont := ks @ t_cont th\<rparr>) s"

subsection \<open>Queues\<close>

text \<open>The 64 ready lists are an array: a priority outside it is a failure.\<close>

definition ready_list :: "int \<Rightarrow> qid option" where
  "ready_list p = (if 0 \<le> p \<and> p \<le> PRI_MAX then Some (Ready (nat p)) else None)"

definition link_elem :: "qid \<Rightarrow> (nat list \<Rightarrow> nat list) \<Rightarrow> nat \<Rightarrow> kstate \<Rightarrow> kstate option" where
  "link_elem q ins t s = do {
     th \<leftarrow> threads s t;
     ASSERT (t_elem th = None);
     Some (upd_thread t (\<lambda>th. th\<lparr>t_elem := Some q\<rparr>) (s\<lparr>queues := (queues s)(q := ins (queues s q))\<rparr>))
   }"

definition elem_push_back :: "qid \<Rightarrow> nat \<Rightarrow> kstate \<Rightarrow> kstate option" where
  "elem_push_back q t s = link_elem q (\<lambda>ts. ts @ [t]) t s"

definition elem_remove :: "nat \<Rightarrow> kstate \<Rightarrow> kstate option" where
  "elem_remove t s = do {
     th \<leftarrow> threads s t;
     q \<leftarrow> t_elem th;
     Some (upd_thread t (\<lambda>th. th\<lparr>t_elem := None\<rparr>) (s\<lparr>queues := (queues s)(q := remove1 t (queues s q))\<rparr>))
   }"

definition elem_pop_front :: "qid \<Rightarrow> kstate \<Rightarrow> (kstate \<times> nat) option" where
  "elem_pop_front q s =
     (case queues s q of
        [] \<Rightarrow> None
      | t # ts \<Rightarrow> do { s \<leftarrow> elem_remove t s; Some (s, t) })"

definition current_priority_of :: "kstate \<Rightarrow> nat \<Rightarrow> int" where
  "current_priority_of s t = (case threads s t of Some th \<Rightarrow> t_current_priority th | None \<Rightarrow> 0)"

definition wakeup_time_of :: "kstate \<Rightarrow> nat \<Rightarrow> int" where
  "wakeup_time_of s t = (case threads s t of Some th \<Rightarrow> t_wakeup_time th | None \<Rightarrow> 0)"

definition priority_great :: "kstate \<Rightarrow> nat \<Rightarrow> nat \<Rightarrow> bool" where
  "priority_great s a b = (current_priority_of s a > current_priority_of s b)"

definition thread_wakeup_time_comparison :: "kstate \<Rightarrow> nat \<Rightarrow> nat \<Rightarrow> bool" where
  "thread_wakeup_time_comparison s a b = (wakeup_time_of s a < wakeup_time_of s b)"

interpretation by_priority: strict_weak_order "priority_great s" for s
  unfolding priority_great_def[abs_def] by (rule strict_weak_order_key_rev)

interpretation by_wakeup: strict_weak_order "thread_wakeup_time_comparison s" for s
  unfolding thread_wakeup_time_comparison_def[abs_def] by (rule strict_weak_order_key)

text \<open>\<open>list_insert_ordered\<close> and \<open>list_sort\<close> on the sequence of the elements.\<close>

fun insert_ordered :: "('a \<Rightarrow> 'a \<Rightarrow> bool) \<Rightarrow> 'a \<Rightarrow> 'a list \<Rightarrow> 'a list" where
  "insert_ordered lessf e [] = [e]"
| "insert_ordered lessf e (x # xs) = (if lessf e x then e # x # xs else x # insert_ordered lessf e xs)"

definition sort_waiters :: "qid \<Rightarrow> kstate \<Rightarrow> kstate" where
  "sort_waiters q s = s\<lparr>queues := (queues s)(q := sort_by (priority_great s) (queues s q))\<rparr>"

subsection \<open>Interrupt level\<close>

definition intr_enable :: "kstate \<Rightarrow> kstate option" where
  "intr_enable s = do { ASSERT (\<not> in_external_intr s); Some (s\<lparr>intr_on := True\<rparr>) }"

definition intr_disable :: "kstate \<Rightarrow> kstate" where
  "intr_disable s = s\<lparr>intr_on := False\<rparr>"

definition intr_set_level :: "bool \<Rightarrow> kstate \<Rightarrow> kstate option" where
  "intr_set_level level s = (if level then intr_enable s else Some (intr_disable s))"

definition intr_yield_on_return :: "kstate \<Rightarrow> kstate option" where
  "intr_yield_on_return s = do { ASSERT (in_external_intr s); Some (s\<lparr>yield_on_return := True\<rparr>) }"

subsection \<open>Scheduling\<close>

definition is_thread :: "kstate \<Rightarrow> nat option \<Rightarrow> bool" where
  "is_thread s p = (case p of None \<Rightarrow> False | Some t \<Rightarrow> threads s t \<noteq> None)"

definition thread_current :: "kstate \<Rightarrow> nat option" where
  "thread_current s = do {
     th \<leftarrow> threads s (running s);
     ASSERT (t_status th = THREAD_RUNNING);
     Some (running s)
   }"

function next_priority :: "kstate \<Rightarrow> int \<Rightarrow> int" where
  "next_priority s p =
     (if p \<ge> 0 \<and> queues s (Ready (nat p)) = [] then next_priority s (p - 1) else p)"
  by pat_completeness auto
termination by (relation "measure (\<lambda>(s, p). nat (p + 1))") auto

definition next_thread_to_run :: "kstate \<Rightarrow> (kstate \<times> nat option) option" where
  "next_thread_to_run s =
     (let p = next_priority s PRI_MAX in
      if p \<ge> 0 then do { (s, t) \<leftarrow> elem_pop_front (Ready (nat p)) s; Some (s, Some t) }
      else Some (s\<lparr>ready_mlfq_size := wrap32 (ready_mlfq_size s - 1)\<rparr>, idle_thread s))"

definition thread_schedule_tail :: "nat option \<Rightarrow> kstate \<Rightarrow> kstate option" where
  "thread_schedule_tail prev s = do {
     ASSERT (\<not> intr_on s);
     let cur = running s;
     let s = upd_thread cur (\<lambda>th. th\<lparr>t_status := THREAD_RUNNING\<rparr>) s;
     let s = s\<lparr>thread_ticks := 0\<rparr>;
     case prev of
       None \<Rightarrow> Some s
     | Some p \<Rightarrow> do {
         th \<leftarrow> threads s p;
         if t_status th = THREAD_DYING \<and> p \<noteq> initial_thread s then do {
           ASSERT (p \<noteq> cur);
           Some (s\<lparr>threads := (threads s)(p := None)\<rparr>)
         } else Some s
       }
   }"

definition schedule :: "kstate \<Rightarrow> kstate option" where
  "schedule s = do {
     let cur = running s;
     (s, nxt) \<leftarrow> next_thread_to_run s;
     ASSERT (\<not> intr_on s);
     th \<leftarrow> threads s cur;
     ASSERT (t_status th \<noteq> THREAD_RUNNING);
     ASSERT (is_thread s nxt);
     n \<leftarrow> nxt;
     thread_schedule_tail (if cur \<noteq> n then Some cur else None) (s\<lparr>running := n\<rparr>)
   }"

definition thread_block :: "kstate \<Rightarrow> kstate option" where
  "thread_block s = do {
     ASSERT (\<not> in_external_intr s);
     ASSERT (\<not> intr_on s);
     cur \<leftarrow> thread_current s;
     let s = (if Some cur \<noteq> idle_thread s then s\<lparr>ready_mlfq_size := wrap32 (ready_mlfq_size s - 1)\<rparr> else s);
     schedule (upd_thread cur (\<lambda>th. th\<lparr>t_status := THREAD_BLOCKED\<rparr>) s)
   }"

definition thread_yield :: "kstate \<Rightarrow> kstate option" where
  "thread_yield s = do {
     cur \<leftarrow> thread_current s;
     th \<leftarrow> threads s cur;
     ASSERT (\<not> in_external_intr s);
     let old_level = intr_on s;
     let s = intr_disable s;
     s \<leftarrow> (if Some cur \<noteq> idle_thread s
           then do { q \<leftarrow> ready_list (t_current_priority th); elem_push_back q cur s }
           else Some s);
     let s = push_cont [K_intr_set_level old_level] s;
     schedule (upd_thread cur (\<lambda>th. th\<lparr>t_status := THREAD_READY\<rparr>) s)
   }"

definition thread_unblock :: "nat \<Rightarrow> kstate \<Rightarrow> kstate option" where
  "thread_unblock t s = do {
     ASSERT (is_thread s (Some t));
     let old_level = intr_on s;
     let s = intr_disable s;
     th \<leftarrow> threads s t;
     ASSERT (t_status th = THREAD_BLOCKED);
     q \<leftarrow> ready_list (t_current_priority th);
     s \<leftarrow> elem_push_back q t s;
     let s = upd_thread t (\<lambda>th. th\<lparr>t_status := THREAD_READY\<rparr>) s;
     s \<leftarrow> intr_set_level old_level s;
     cur \<leftarrow> thread_current s;
     cth \<leftarrow> threads s cur;
     if \<not> thread_mlfqs s \<and> t_current_priority th > t_current_priority cth \<and> Some cur \<noteq> idle_thread s
     then thread_yield s
     else Some s
   }"

definition thread_exit_tail :: "kstate \<Rightarrow> kstate option" where
  "thread_exit_tail s = do {
     let s = intr_disable s;
     cur \<leftarrow> thread_current s;
     let s = s\<lparr>all_list := remove1 cur (all_list s)\<rparr>;
     let s = (if Some cur \<noteq> idle_thread s then s\<lparr>ready_mlfq_size := wrap32 (ready_mlfq_size s - 1)\<rparr> else s);
     schedule (upd_thread cur (\<lambda>th. th\<lparr>t_status := THREAD_DYING\<rparr>) s)
   }"

definition thread_exit :: "(kstate \<Rightarrow> kstate option) \<Rightarrow> kstate \<Rightarrow> kstate option" where
  "thread_exit process_exit s = do {
     ASSERT (\<not> in_external_intr s);
     s \<leftarrow> process_exit s;
     thread_exit_tail s
   }"

subsection \<open>Priorities\<close>

definition thread_on_priority_change :: "nat \<Rightarrow> int \<Rightarrow> kstate \<Rightarrow> kstate option" where
  "thread_on_priority_change t new_priority s = do {
     th \<leftarrow> threads s t;
     if t_status th = THREAD_READY then do {
       s \<leftarrow> elem_remove t s;
       q \<leftarrow> ready_list new_priority;
       elem_push_back q t s
     } else if t_status th = THREAD_BLOCKED then do {
       s \<leftarrow> elem_remove t s;
       thread_unblock t s
     } else Some s
   }"

definition thread_set_priority :: "int \<Rightarrow> kstate \<Rightarrow> kstate option" where
  "thread_set_priority new_priority s =
     (if thread_mlfqs s then Some s
      else do {
        cur \<leftarrow> thread_current s;
        th \<leftarrow> threads s cur;
        let old_priority = t_priority th;
        let s = upd_thread cur (\<lambda>th. th\<lparr>t_priority := new_priority\<rparr>) s;
        if t_current_priority th = old_priority then do {
          let s = upd_thread cur (\<lambda>th. th\<lparr>t_current_priority := new_priority\<rparr>) s;
          s \<leftarrow> thread_on_priority_change cur new_priority s;
          thread_yield s
        } else Some s
      })"

definition thread_get_priority :: "kstate \<Rightarrow> int option" where
  "thread_get_priority s = do {
     cur \<leftarrow> thread_current s;
     th \<leftarrow> threads s cur;
     Some (t_current_priority th)
   }"

definition thread_promote :: "nat \<Rightarrow> kstate \<Rightarrow> kstate option" where
  "thread_promote t s =
     (if thread_mlfqs s then Some s
      else do {
        th \<leftarrow> threads s t;
        let old_priority = t_current_priority th;
        new_priority \<leftarrow> thread_get_priority s;
        if old_priority < new_priority then
          thread_on_priority_change t new_priority
            (upd_thread t (\<lambda>th. th\<lparr>t_current_priority := new_priority\<rparr>) s)
        else Some s
      })"

fun demote_loop :: "(nat \<Rightarrow> lock) \<Rightarrow> nat list \<Rightarrow> int \<Rightarrow> int" where
  "demote_loop ls [] new_priority = new_priority"
| "demote_loop ls (l # es) new_priority =
     demote_loop ls es (if bounty (ls l) > new_priority then bounty (ls l) else new_priority)"

definition thread_demote :: "kstate \<Rightarrow> kstate option" where
  "thread_demote s =
     (if thread_mlfqs s then Some s
      else do {
        cur \<leftarrow> thread_current s;
        th \<leftarrow> threads s cur;
        let new_priority = demote_loop (locks s) (t_owned_locks th) (t_priority th);
        thread_on_priority_change cur new_priority
          (upd_thread cur (\<lambda>th. th\<lparr>t_current_priority := new_priority\<rparr>) s)
      })"

subsection \<open>The multi-level feedback queue\<close>

definition runnable :: "kstate \<Rightarrow> nat \<Rightarrow> bool" where
  "runnable s t = (case threads s t of None \<Rightarrow> False
     | Some th \<Rightarrow> (t_status th = THREAD_RUNNING \<or> t_status th = THREAD_READY) \<and> Some t \<noteq> idle_thread s)"

fun count_ready :: "kstate \<Rightarrow> nat list \<Rightarrow> int \<Rightarrow> int" where
  "count_ready s [] sz = sz"
| "count_ready s (t # ts) sz = count_ready s ts (if runnable s t then wrap32 (sz + 1) else sz)"

definition thread_get_ready_threads :: "kstate \<Rightarrow> int" where
  "thread_get_ready_threads s = count_ready s (all_list s) 0"

definition thread_recompute_load_avg :: "kstate \<Rightarrow> kstate option" where
  "thread_recompute_load_avg s = do {
     let tcount = thread_get_ready_threads s;
     v \<leftarrow> fp_int_div (fp_int_add (fp_int_mult (load_avg s) 59) tcount) 60;
     Some (s\<lparr>load_avg := v\<rparr>)
   }"

definition decay_recent_cpu :: "int \<Rightarrow> thread \<Rightarrow> int option" where
  "decay_recent_cpu load th = do {
     d \<leftarrow> fp_div (fp_int_mult load 2) (fp_int_add (fp_int_mult load 2) 1);
     Some (fp_int_add (fp_mult d (t_recent_cpu th)) (t_nice th))
   }"

definition mlfqs_priority :: "thread \<Rightarrow> int option" where
  "mlfqs_priority th = do {
     q \<leftarrow> fp_int_div (t_recent_cpu th) 4;
     let newPriority = wrap32 (wrap32 (PRI_MAX - fp_to_int_rn q) - wrap32 (t_nice th * 2));
     Some (if newPriority < 0 then 0 else if newPriority > PRI_MAX then PRI_MAX else newPriority)
   }"

text \<open>\<open>aux\<close> tells whether the auxiliary argument is other than null.\<close>

definition thread_recompute_priority :: "nat \<Rightarrow> bool \<Rightarrow> kstate \<Rightarrow> kstate option" where
  "thread_recompute_priority t aux s =
     (if Some t = idle_thread s then Some s
      else do {
        th \<leftarrow> threads s t;
        rc \<leftarrow> (if \<not> aux then decay_recent_cpu (load_avg s) th else Some (t_recent_cpu th));
        let th = th\<lparr>t_recent_cpu := rc\<rparr>;
        p \<leftarrow> mlfqs_priority th;
        let s = upd_thread t (\<lambda>_. th\<lparr>t_current_priority := p, t_priority := p\<rparr>) s;
        if \<not> aux \<and> t_status th = THREAD_READY then do {
          s \<leftarrow> elem_remove t s;
          q \<leftarrow> ready_list p;
          elem_push_back q t s
        } else Some s
      })"

fun foreach_loop :: "(nat \<Rightarrow> kstate \<Rightarrow> kstate option) \<Rightarrow> nat list \<Rightarrow> kstate \<Rightarrow> kstate option" where
  "foreach_loop func [] s = Some s"
| "foreach_loop func (t # ts) s = do { s \<leftarrow> func t s; foreach_loop func ts s }"

definition thread_foreach :: "(nat \<Rightarrow> kstate \<Rightarrow> kstate option) \<Rightarrow> kstate \<Rightarrow> kstate option" where
  "thread_foreach func s = do { ASSERT (\<not> intr_on s); foreach_loop func (all_list s) s }"

definition thread_set_nice :: "int \<Rightarrow> kstate \<Rightarrow> kstate option" where
  "thread_set_nice nice s = do {
     cur \<leftarrow> thread_current s;
     Some (upd_thread cur (\<lambda>th. th\<lparr>t_nice := nice\<rparr>) s)
   }"

definition thread_get_nice :: "kstate \<Rightarrow> int option" where
  "thread_get_nice s = do { cur \<leftarrow> thread_current s; th \<leftarrow> threads s cur; Some (t_nice th) }"

definition thread_get_load_avg :: "kstate \<Rightarrow> int" where
  "thread_get_load_avg s = fp_to_int_rn (fp_mult (load_avg s) (fp_from_int 100))"

definition thread_get_recent_cpu :: "kstate \<Rightarrow> int option" where
  "thread_get_recent_cpu s = do {
     cur \<leftarrow> thread_current s;
     th \<leftarrow> threads s cur;
     Some (fp_to_int_rn (fp_mult (t_recent_cpu th) (fp_from_int 100)))
   }"

subsection \<open>Ticks and sleeping threads\<close>

definition current_thread_is_idle_thread :: "kstate \<Rightarrow> bool option" where
  "current_thread_is_idle_thread s = do { cur \<leftarrow> thread_current s; Some (Some cur = idle_thread s) }"

definition thread_tick :: "kstate \<Rightarrow> kstate option" where
  "thread_tick s = do {
     t \<leftarrow> thread_current s;
     th \<leftarrow> threads s t;
     let s = (if Some t = idle_thread s then s\<lparr>idle_ticks := idle_ticks s + 1\<rparr>
              else if t_pagedir th then s\<lparr>user_ticks := user_ticks s + 1\<rparr>
              else s\<lparr>kernel_ticks := kernel_ticks s + 1\<rparr>);
     let s = s\<lparr>thread_ticks := thread_ticks s + 1\<rparr>;
     if thread_ticks s \<ge> TIME_SLICE then intr_yield_on_return s else Some s
   }"

definition thread_sleep :: "int \<Rightarrow> kstate \<Rightarrow> kstate option" where
  "thread_sleep wakeup_time s = do {
     cur \<leftarrow> thread_current s;
     let s = upd_thread cur (\<lambda>th. th\<lparr>t_wakeup_time := wakeup_time\<rparr>) s;
     link_elem Sleep (insert_ordered (thread_wakeup_time_comparison s) cur) cur s
   }"

text \<open>The element behind the one removed is read before the thread is made ready. The loop takes the
  elements of the list from the front; \<open>ts\<close> are those from the iterator on.\<close>

fun handle_sleeping_loop :: "int \<Rightarrow> nat list \<Rightarrow> kstate \<Rightarrow> kstate option" where
  "handle_sleeping_loop crt_tick [] s = Some s"
| "handle_sleeping_loop crt_tick (it # nxt) s = do {
     th \<leftarrow> threads s it;
     if t_wakeup_time th \<le> crt_tick then do {
       s \<leftarrow> elem_remove it s;
       s \<leftarrow> thread_unblock it s;
       handle_sleeping_loop crt_tick nxt s
     } else Some s
   }"

definition handle_sleeping_threads :: "int \<Rightarrow> kstate \<Rightarrow> kstate option" where
  "handle_sleeping_threads timer_ticks s = handle_sleeping_loop timer_ticks (queues s Sleep) s"

subsection \<open>Creation\<close>

definition blank_thread :: thread where
  "blank_thread = \<lparr>t_tid = 0, t_status = THREAD_RUNNING, t_name = replicate 16 0, t_priority = 0,
     t_current_priority = 0, t_wakeup_time = 0, t_nice = 0, t_recent_cpu = 0, t_elem = None,
     t_owned_locks = [], t_pagedir = False, t_pid = 0, t_cont = []\<rparr>"

text \<open>The running thread is the one whose stack is in use: in \<open>thread_init\<close> that is the thread being
  initialised, whose members have just been cleared.\<close>

definition init_thread :: "nat \<Rightarrow> u8 list \<Rightarrow> int \<Rightarrow> kstate \<Rightarrow> kstate option" where
  "init_thread t name priority s = do {
     ASSERT (PRI_MIN \<le> priority \<and> priority \<le> PRI_MAX);
     let s = s\<lparr>threads := (threads s)(t \<mapsto> blank_thread\<lparr>t_status := THREAD_BLOCKED\<rparr>)\<rparr>;
     (n, _) \<leftarrow> strlcpy (t_name blank_thread) name 16;
     let s = upd_thread t (\<lambda>th. th\<lparr>t_name := n\<rparr>) s;
     s \<leftarrow> (if thread_mlfqs s then do {
             c \<leftarrow> threads s (running s);
             thread_recompute_priority t True
               (upd_thread t (\<lambda>th. th\<lparr>t_recent_cpu := t_recent_cpu c, t_nice := t_nice c\<rparr>) s)
           } else Some (upd_thread t (\<lambda>th. th\<lparr>t_priority := priority, t_current_priority := priority\<rparr>) s));
     Some (s\<lparr>all_list := all_list s @ [t]\<rparr>)
   }"

text \<open>The increment is made under \<open>tid_lock\<close>, as one step.\<close>

definition allocate_tid :: "kstate \<Rightarrow> kstate \<times> int" where
  "allocate_tid s = (s\<lparr>next_tid := wrap32 (next_tid s + 1)\<rparr>, next_tid s)"

definition thread_init :: "kstate \<Rightarrow> kstate option" where
  "thread_init s = do {
     ASSERT (\<not> intr_on s);
     let s = s\<lparr>load_avg := fp_from_int 0, ready_mlfq_size := 0, all_list := [],
               queues := (\<lambda>q. case q of Ready _ \<Rightarrow> [] | Sleep \<Rightarrow> [] | _ \<Rightarrow> queues s q)\<rparr>;
     let s = s\<lparr>initial_thread := running s\<rparr>;
     s \<leftarrow> init_thread (initial_thread s) (map (\<lambda>c. of_nat (of_char c)) ''main'' @ [0]) PRI_DEFAULT s;
     let s = upd_thread (initial_thread s) (\<lambda>th. th\<lparr>t_status := THREAD_RUNNING\<rparr>) s;
     let (s, tid) = allocate_tid s;
     Some (upd_thread (initial_thread s) (\<lambda>th. th\<lparr>t_tid := tid\<rparr>) s)
   }"

text \<open>\<open>page\<close> is the page that \<open>palloc_get_page\<close> returns; \<open>body\<close> is what the thread function does inside
  this model. The stack frames for \<open>kernel_thread\<close> and \<open>switch_entry\<close> are its resume points.
  \<open>prc_pid\<close> is given by \<open>thread_process_create\<close>.\<close>

definition thread_create_with ::
  "int option \<Rightarrow> nat option \<Rightarrow> u8 list \<Rightarrow> int \<Rightarrow> kcall list \<Rightarrow> kstate \<Rightarrow> (kstate \<times> int) option" where
  "thread_create_with prc_pid page name priority body s =
     (case page of
        None \<Rightarrow> Some (s, TID_ERROR)
      | Some t \<Rightarrow> do {
          s \<leftarrow> init_thread t name priority s;
          let (s, tid) = allocate_tid s;
          let s = upd_thread t (\<lambda>th. th\<lparr>t_tid := tid\<rparr>) s;
          let s = (case prc_pid of None \<Rightarrow> s | Some pid \<Rightarrow> upd_thread t (\<lambda>th. th\<lparr>t_pid := pid\<rparr>) s);
          let s = upd_thread t (\<lambda>th. th\<lparr>t_cont := K_kernel_thread # body\<rparr>) s;
          s \<leftarrow> thread_unblock t s;
          Some (s, tid)
        })"

definition thread_create :: "nat option \<Rightarrow> u8 list \<Rightarrow> int \<Rightarrow> kcall list \<Rightarrow> kstate \<Rightarrow> (kstate \<times> int) option" where
  "thread_create page name priority body s = thread_create_with None page name priority body s"

definition thread_process_create ::
  "int \<Rightarrow> nat option \<Rightarrow> u8 list \<Rightarrow> int \<Rightarrow> kcall list \<Rightarrow> kstate \<Rightarrow> (kstate \<times> int) option" where
  "thread_process_create prc_pid page name priority body s =
     thread_create_with (Some prc_pid) page name priority body s"

definition kernel_thread :: "kstate \<Rightarrow> kstate option" where
  "kernel_thread s = intr_enable s"

end
