(* ===== verification/Pintos_Synch.thy ===== *)
theory Pintos_Synch
  imports Pintos_Thread
begin

section \<open>Synchronisation (threads/synch.c)\<close>

text \<open>
  Semaphores, locks and condition variables are known by their addresses. The waiters of a semaphore
  and of a lock are queues of threads; the waiters of a condition variable are semaphores. A call
  that blocks leaves a resume point on the stack of the calling thread.
\<close>

subsection \<open>Semaphores\<close>

definition sema_init :: "nat \<Rightarrow> u32 \<Rightarrow> kstate \<Rightarrow> kstate" where
  "sema_init sm v s =
     s\<lparr>sema_value := (sema_value s)(sm := v), queues := (queues s)(Sema_waiters sm := [])\<rparr>"

text \<open>One round of the loop of \<open>sema_down\<close>: the thread comes back to it after \<open>thread_block\<close>.\<close>

definition sema_down_loop :: "nat \<Rightarrow> bool \<Rightarrow> kstate \<Rightarrow> kstate option" where
  "sema_down_loop sm old_level s =
     (if sema_value s sm = 0 then do {
        cur \<leftarrow> thread_current s;
        s \<leftarrow> elem_push_back (Sema_waiters sm) cur s;
        thread_block (push_cont [K_sema_down_loop sm old_level] s)
      } else
        intr_set_level old_level (s\<lparr>sema_value := (sema_value s)(sm := sema_value s sm - 1)\<rparr>))"

definition sema_down :: "nat \<Rightarrow> kstate \<Rightarrow> kstate option" where
  "sema_down sm s = do {
     ASSERT (\<not> in_external_intr s);
     sema_down_loop sm (intr_on s) (intr_disable s)
   }"

definition sema_try_down :: "nat \<Rightarrow> kstate \<Rightarrow> (kstate \<times> bool) option" where
  "sema_try_down sm s = do {
     let old_level = intr_on s;
     let s = intr_disable s;
     let (s, success) = (if sema_value s sm > 0
        then (s\<lparr>sema_value := (sema_value s)(sm := sema_value s sm - 1)\<rparr>, True) else (s, False));
     s \<leftarrow> intr_set_level old_level s;
     Some (s, success)
   }"

definition sema_up :: "nat \<Rightarrow> kstate \<Rightarrow> kstate option" where
  "sema_up sm s = do {
     let old_level = intr_on s;
     let s = intr_disable s;
     let s = s\<lparr>sema_value := (sema_value s)(sm := sema_value s sm + 1)\<rparr>;
     if queues s (Sema_waiters sm) \<noteq> [] then do {
       let s = sort_waiters (Sema_waiters sm) s;
       (s, waiter) \<leftarrow> elem_pop_front (Sema_waiters sm) s;
       thread_unblock waiter (push_cont [K_intr_set_level old_level] s)
     } else intr_set_level old_level s
   }"

subsection \<open>Locks\<close>

definition upd_lock :: "nat \<Rightarrow> (lock \<Rightarrow> lock) \<Rightarrow> kstate \<Rightarrow> kstate" where
  "upd_lock l f s = s\<lparr>locks := (locks s)(l := f (locks s l))\<rparr>"

definition lock_init :: "nat \<Rightarrow> kstate \<Rightarrow> kstate" where
  "lock_init l s =
     s\<lparr>locks := (locks s)(l := \<lparr>holder = None, bounty = 0\<rparr>), queues := (queues s)(Lock_waiters l := [])\<rparr>"

definition lock_held_by_current_thread :: "nat \<Rightarrow> kstate \<Rightarrow> bool option" where
  "lock_held_by_current_thread l s = do { cur \<leftarrow> thread_current s; Some (holder (locks s l) = Some cur) }"

definition lock_take :: "nat \<Rightarrow> kstate \<Rightarrow> kstate option" where
  "lock_take l s = do {
     cur \<leftarrow> thread_current s;
     let s = upd_thread cur (\<lambda>th. th\<lparr>t_owned_locks := t_owned_locks th @ [l]\<rparr>) s;
     Some (upd_lock l (\<lambda>k. k\<lparr>holder := Some cur\<rparr>) s)
   }"

text \<open>One round of the loop of \<open>lock_acquire\<close>.\<close>

definition lock_acquire_loop :: "nat \<Rightarrow> bool \<Rightarrow> kstate \<Rightarrow> kstate option" where
  "lock_acquire_loop l old_level s =
     (case holder (locks s l) of
        Some h \<Rightarrow> do {
          hth \<leftarrow> threads s h;
          cur \<leftarrow> thread_current s;
          cth \<leftarrow> threads s cur;
          s \<leftarrow> (if \<not> thread_mlfqs s \<and> t_current_priority hth < t_current_priority cth
                then thread_promote h (upd_lock l (\<lambda>k. k\<lparr>bounty := t_current_priority cth\<rparr>) s)
                else Some s);
          s \<leftarrow> elem_push_back (Lock_waiters l) cur s;
          thread_block (push_cont [K_lock_acquire_loop l old_level] s)
        }
      | None \<Rightarrow> do { s \<leftarrow> lock_take l s; intr_set_level old_level s })"

definition lock_acquire :: "nat \<Rightarrow> kstate \<Rightarrow> kstate option" where
  "lock_acquire l s = do {
     ASSERT (\<not> in_external_intr s);
     held \<leftarrow> lock_held_by_current_thread l s;
     ASSERT (\<not> held);
     lock_acquire_loop l (intr_on s) (intr_disable s)
   }"

definition lock_try_acquire :: "nat \<Rightarrow> kstate \<Rightarrow> (kstate \<times> bool) option" where
  "lock_try_acquire l s = do {
     held \<leftarrow> lock_held_by_current_thread l s;
     ASSERT (\<not> held);
     let old_level = intr_on s;
     let s = intr_disable s;
     (s, success) \<leftarrow> (if holder (locks s l) = None
        then do { s \<leftarrow> lock_take l s; Some (s, True) } else Some (s, False));
     s \<leftarrow> intr_set_level old_level s;
     Some (s, success)
   }"

definition lock_release :: "nat \<Rightarrow> kstate \<Rightarrow> kstate option" where
  "lock_release l s = do {
     held \<leftarrow> lock_held_by_current_thread l s;
     ASSERT held;
     let old_level = intr_on s;
     let s = intr_disable s;
     let s = upd_lock l (\<lambda>k. k\<lparr>holder := None\<rparr>) s;
     cur \<leftarrow> thread_current s;
     let s = upd_thread cur (\<lambda>th. th\<lparr>t_owned_locks := remove1 l (t_owned_locks th)\<rparr>) s;
     p \<leftarrow> thread_get_priority s;
     s \<leftarrow> (if \<not> thread_mlfqs s \<and> p = bounty (locks s l) then thread_demote s else Some s);
     let s = upd_lock l (\<lambda>k. k\<lparr>bounty := 0\<rparr>) s;
     if queues s (Lock_waiters l) \<noteq> [] then do {
       let s = sort_waiters (Lock_waiters l) s;
       (s, waiter) \<leftarrow> elem_pop_front (Lock_waiters l) s;
       thread_unblock waiter (push_cont [K_intr_set_level old_level] s)
     } else intr_set_level old_level s
   }"

subsection \<open>Condition variables\<close>

definition cond_init :: "nat \<Rightarrow> kstate \<Rightarrow> kstate" where
  "cond_init c s = s\<lparr>cond_waiters := (cond_waiters s)(c := [])\<rparr>"

text \<open>\<open>waiter\<close> is the semaphore on the stack of the caller.\<close>

definition cond_wait :: "nat \<Rightarrow> nat \<Rightarrow> nat \<Rightarrow> kstate \<Rightarrow> kstate option" where
  "cond_wait c l waiter s = do {
     ASSERT (\<not> in_external_intr s);
     held \<leftarrow> lock_held_by_current_thread l s;
     ASSERT held;
     let s = sema_init waiter 0 s;
     let s = s\<lparr>cond_waiters := (cond_waiters s)(c := cond_waiters s c @ [waiter])\<rparr>;
     lock_release l (push_cont [K_sema_down waiter, K_lock_acquire l] s)
   }"

fun sema_bounty :: "kstate \<Rightarrow> nat list \<Rightarrow> int \<Rightarrow> int" where
  "sema_bounty s [] b = b"
| "sema_bounty s (t # ts) b =
     sema_bounty s ts (if current_priority_of s t > b then current_priority_of s t else b)"

definition sema_priority_great :: "kstate \<Rightarrow> nat \<Rightarrow> nat \<Rightarrow> bool" where
  "sema_priority_great s a b =
     (sema_bounty s (queues s (Sema_waiters a)) 0 > sema_bounty s (queues s (Sema_waiters b)) 0)"

definition cond_signal :: "nat \<Rightarrow> nat \<Rightarrow> kstate \<Rightarrow> kstate option" where
  "cond_signal c l s = do {
     ASSERT (\<not> in_external_intr s);
     held \<leftarrow> lock_held_by_current_thread l s;
     ASSERT held;
     (case sort_by (sema_priority_great s) (cond_waiters s c) of
        [] \<Rightarrow> Some s
      | w # ws \<Rightarrow> sema_up w (s\<lparr>cond_waiters := (cond_waiters s)(c := ws)\<rparr>))
   }"

text \<open>One round of the loop of \<open>cond_broadcast\<close>; the wakened thread may run before the next.\<close>

definition cond_broadcast :: "nat \<Rightarrow> nat \<Rightarrow> kstate \<Rightarrow> kstate option" where
  "cond_broadcast c l s =
     (if cond_waiters s c \<noteq> [] then cond_signal c l (push_cont [K_cond_broadcast c l] s) else Some s)"

subsection \<open>The idle thread and the start of scheduling\<close>

definition idle :: "nat \<Rightarrow> kstate \<Rightarrow> kstate option" where
  "idle idle_started s = do {
     cur \<leftarrow> thread_current s;
     sema_up idle_started (push_cont [K_idle_loop] (s\<lparr>idle_thread := Some cur\<rparr>))
   }"

definition idle_loop :: "kstate \<Rightarrow> kstate option" where
  "idle_loop s = thread_block (push_cont [K_idle_hlt] (intr_disable s))"

definition idle_hlt :: "kstate \<Rightarrow> kstate" where
  "idle_hlt s = push_cont [K_idle_loop] (s\<lparr>intr_on := True\<rparr>)"

definition thread_start :: "nat option \<Rightarrow> nat \<Rightarrow> kstate \<Rightarrow> kstate option" where
  "thread_start page idle_started s = do {
     let s = sema_init idle_started 0 s;
     (s, _) \<leftarrow> thread_create page (map (\<lambda>c. of_nat (of_char c)) ''idle'' @ [0]) PRI_MIN [K_idle idle_started] s;
     s \<leftarrow> intr_enable s;
     sema_down idle_started s
   }"

subsection \<open>Resuming a thread\<close>

fun exec_kcall :: "kcall \<Rightarrow> kstate \<Rightarrow> kstate option" where
  "exec_kcall (K_intr_set_level level) s = intr_set_level level s"
| "exec_kcall K_iret s = Some (s\<lparr>intr_on := True\<rparr>)"
| "exec_kcall K_kernel_thread s = kernel_thread s"
| "exec_kcall (K_idle sm) s = idle sm s"
| "exec_kcall K_idle_loop s = idle_loop s"
| "exec_kcall K_idle_hlt s = Some (idle_hlt s)"
| "exec_kcall (K_sema_down sm) s = sema_down sm s"
| "exec_kcall (K_sema_down_loop sm old_level) s = sema_down_loop sm old_level s"
| "exec_kcall (K_lock_acquire l) s = lock_acquire l s"
| "exec_kcall (K_lock_acquire_loop l old_level) s = lock_acquire_loop l old_level s"
| "exec_kcall (K_cond_broadcast c l) s = cond_broadcast c l s"

definition kresume :: "kstate \<Rightarrow> kstate option" where
  "kresume s = do {
     th \<leftarrow> threads s (running s);
     (case t_cont th of
        [] \<Rightarrow> None
      | k # ks \<Rightarrow> exec_kcall k (upd_thread (running s) (\<lambda>th. th\<lparr>t_cont := ks\<rparr>) s))
   }"

end
