(* ===== verification/Pintos_Sched_Inv.thy ===== *)
theory Pintos_Sched_Inv
  imports Pintos_Synch
begin

section \<open>The invariant of the scheduler\<close>

text \<open>
  The queues and the threads agree: a thread is in a queue exactly when its element says so. The
  running thread is in no queue, a ready thread is in the ready list of its current priority, a
  blocked one waits in some other queue; the idle thread is in none. The lemmas below show what
  \<open>schedule\<close>, \<open>thread_block\<close>, \<open>thread_yield\<close> and \<open>thread_unblock\<close> do to states with this invariant:
  they succeed, and their results are given as explicit updates of the state.
\<close>

lemma threads_upd_thread [simp]:
  "threads (upd_thread t f s) u = (if u = t then map_option f (threads s t) else threads s u)"
  by (simp add: upd_thread_def)

lemma upd_thread_frame [simp]:
  "queues (upd_thread t f s) = queues s" "all_list (upd_thread t f s) = all_list s"
  "idle_thread (upd_thread t f s) = idle_thread s" "initial_thread (upd_thread t f s) = initial_thread s"
  "running (upd_thread t f s) = running s" "next_tid (upd_thread t f s) = next_tid s"
  "thread_ticks (upd_thread t f s) = thread_ticks s" "thread_mlfqs (upd_thread t f s) = thread_mlfqs s"
  "load_avg (upd_thread t f s) = load_avg s" "ready_mlfq_size (upd_thread t f s) = ready_mlfq_size s"
  "intr_on (upd_thread t f s) = intr_on s" "in_external_intr (upd_thread t f s) = in_external_intr s"
  "yield_on_return (upd_thread t f s) = yield_on_return s" "sema_value (upd_thread t f s) = sema_value s"
  "locks (upd_thread t f s) = locks s" "cond_waiters (upd_thread t f s) = cond_waiters s"
  "ticks (upd_thread t f s) = ticks s"
  by (simp_all add: upd_thread_def)

lemma intr_disable_frame [simp]:
  "threads (intr_disable s) = threads s" "queues (intr_disable s) = queues s"
  "running (intr_disable s) = running s" "idle_thread (intr_disable s) = idle_thread s"
  "locks (intr_disable s) = locks s" "all_list (intr_disable s) = all_list s"
  "load_avg (intr_disable s) = load_avg s" "intr_on (intr_disable s) = False"
  "in_external_intr (intr_disable s) = in_external_intr s" "thread_mlfqs (intr_disable s) = thread_mlfqs s"
  "sema_value (intr_disable s) = sema_value s" "cond_waiters (intr_disable s) = cond_waiters s"
  "ticks (intr_disable s) = ticks s" "initial_thread (intr_disable s) = initial_thread s"
  by (simp_all add: intr_disable_def)

lemma intr_disable_set_level:
  "\<not> in_external_intr s \<Longrightarrow> intr_set_level lvl s = Some (s\<lparr>intr_on := lvl\<rparr>)"
  by (simp add: intr_set_level_def intr_enable_def intr_disable_def)

lemma thread_current_eq [simp]:
  "threads s (running s) = Some th \<Longrightarrow> t_status th = THREAD_RUNNING \<Longrightarrow> thread_current s = Some (running s)"
  by (simp add: thread_current_def)

subsection \<open>Invariant\<close>

definition queues_ok :: "kstate \<Rightarrow> bool" where
  "queues_ok s \<longleftrightarrow> (\<forall>q. distinct (queues s q)) \<and>
     (\<forall>q t. t \<in> set (queues s q) \<longleftrightarrow> (\<exists>th. threads s t = Some th \<and> t_elem th = Some q))"

definition sched_ok :: "nat \<Rightarrow> nat option \<Rightarrow> nat \<Rightarrow> thread \<Rightarrow> bool" where
  "sched_ok run idl t th \<longleftrightarrow>
     0 \<le> t_current_priority th \<and> t_current_priority th \<le> PRI_MAX \<and>
     0 \<le> t_priority th \<and> t_priority th \<le> PRI_MAX \<and>
     (case t_status th of
        THREAD_RUNNING \<Rightarrow> t = run \<and> t_elem th = None
      | THREAD_READY \<Rightarrow>
          t_elem th = (if Some t = idl then None else Some (Ready (nat (t_current_priority th))))
      | THREAD_BLOCKED \<Rightarrow>
          if Some t = idl then t_elem th = None else (\<exists>q. t_elem th = Some q \<and> (\<forall>p. q \<noteq> Ready p))
      | THREAD_DYING \<Rightarrow> t_elem th = None)"

text \<open>\<open>inv_but A s\<close>: the invariant, except for the threads in \<open>A\<close>.\<close>

definition inv_but :: "nat set \<Rightarrow> kstate \<Rightarrow> bool" where
  "inv_but A s \<longleftrightarrow> queues_ok s \<and>
     (\<forall>t th. threads s t = Some th \<longrightarrow> t \<notin> A \<longrightarrow> sched_ok (running s) (idle_thread s) t th) \<and>
     (\<exists>i th. idle_thread s = Some i \<and> threads s i = Some th \<and> t_status th \<noteq> THREAD_DYING)"

abbreviation inv_sched :: "kstate \<Rightarrow> bool" where
  "inv_sched s \<equiv> inv_but {} s"

definition cur_running :: "kstate \<Rightarrow> bool" where
  "cur_running s \<longleftrightarrow> (\<exists>th. threads s (running s) = Some th \<and> t_status th = THREAD_RUNNING)"

lemma inv_butI:
  assumes "queues_ok s"
    and "\<And>t th. threads s t = Some th \<Longrightarrow> t \<notin> A \<Longrightarrow> sched_ok (running s) (idle_thread s) t th"
    and "idle_thread s = Some i" "threads s i = Some th" "t_status th \<noteq> THREAD_DYING"
  shows "inv_but A s"
  using assms unfolding inv_but_def by blast

lemma inv_but_sched_ok:
  "inv_but A s \<Longrightarrow> threads s t = Some th \<Longrightarrow> t \<notin> A \<Longrightarrow> sched_ok (running s) (idle_thread s) t th"
  unfolding inv_but_def by blast

lemma inv_but_weaken: "inv_but A s \<Longrightarrow> A \<subseteq> B \<Longrightarrow> inv_but B s"
  unfolding inv_but_def by blast

lemma inv_but_restore:
  assumes "inv_but (insert t A) s"
    and "\<And>th. threads s t = Some th \<Longrightarrow> sched_ok (running s) (idle_thread s) t th"
  shows "inv_but A s"
  using assms unfolding inv_but_def by blast

lemma queues_ok_in:
  "queues_ok s \<Longrightarrow> t \<in> set (queues s q) \<longleftrightarrow> (\<exists>th. threads s t = Some th \<and> t_elem th = Some q)"
  unfolding queues_ok_def by blast

lemma queues_ok_remove1:
  assumes "queues_ok s" and "threads s t = Some th" and "t_elem th = Some q"
  shows "(queues s)(q := remove1 t (queues s q)) = (\<lambda>q. remove1 t (queues s q))"
proof
  fix q'
  have "t \<notin> set (queues s q')" if "q' \<noteq> q"
    using that queues_ok_in[OF assms(1), of t q'] assms(2,3) by auto
  then show "((queues s)(q := remove1 t (queues s q))) q' = remove1 t (queues s q')"
    by (simp add: remove1_idem)
qed

lemma queues_ok_cong:
  assumes "queues_ok s" and "queues s' = queues s"
    and "\<And>t. map_option t_elem (threads s' t) = map_option t_elem (threads s t)"
  shows "queues_ok s'"
proof -
  have "(\<exists>th. threads s' t = Some th \<and> t_elem th = Some q) \<longleftrightarrow>
        (\<exists>th. threads s t = Some th \<and> t_elem th = Some q)" for t q
    using assms(3)[of t] by (cases "threads s' t"; cases "threads s t") auto
  with assms(1,2) show ?thesis unfolding queues_ok_def by simp
qed

subsection \<open>Linking and unlinking\<close>

definition unlink :: "nat \<Rightarrow> kstate \<Rightarrow> kstate" where
  "unlink t s = upd_thread t (\<lambda>th. th\<lparr>t_elem := None\<rparr>) (s\<lparr>queues := (\<lambda>q. remove1 t (queues s q))\<rparr>)"

lemma unlink_frame [simp]:
  "threads (unlink t s) u = (if u = t then map_option (\<lambda>th. th\<lparr>t_elem := None\<rparr>) (threads s t) else threads s u)"
  "queues (unlink t s) q = remove1 t (queues s q)" "running (unlink t s) = running s"
  "idle_thread (unlink t s) = idle_thread s" "initial_thread (unlink t s) = initial_thread s"
  "intr_on (unlink t s) = intr_on s" "in_external_intr (unlink t s) = in_external_intr s"
  "thread_mlfqs (unlink t s) = thread_mlfqs s" "locks (unlink t s) = locks s"
  "all_list (unlink t s) = all_list s" "load_avg (unlink t s) = load_avg s" "ticks (unlink t s) = ticks s"
  "yield_on_return (unlink t s) = yield_on_return s" "sema_value (unlink t s) = sema_value s"
  "cond_waiters (unlink t s) = cond_waiters s" "thread_ticks (unlink t s) = thread_ticks s"
  "next_tid (unlink t s) = next_tid s"
  by (simp_all add: unlink_def)

lemma elem_remove_eq:
  assumes "queues_ok s" and "threads s t = Some th" and "t_elem th = Some q"
  shows "elem_remove t s = Some (unlink t s)"
  using assms queues_ok_remove1[OF assms] by (simp add: elem_remove_def unlink_def)

lemma queues_ok_unlink:
  assumes "queues_ok s"
  shows "queues_ok (unlink t s)"
  using assms unfolding queues_ok_def by (auto simp: split: if_splits)

lemma inv_but_unlink:
  assumes "inv_but A s" and "t \<in> A"
  shows "inv_but A (unlink t s)"
  using assms queues_ok_unlink[of s t] unfolding inv_but_def by (auto split: if_splits)

lemma link_elem_eq:
  assumes "threads s t = Some th" and "t_elem th = None"
  shows "link_elem q ins t s = Some (upd_thread t (\<lambda>th. th\<lparr>t_elem := Some q\<rparr>)
           (s\<lparr>queues := (queues s)(q := ins (queues s q))\<rparr>))"
  using assms by (simp add: link_elem_def)

lemma queues_ok_link:
  assumes "queues_ok s" and "threads s t = Some th" and "t_elem th = None"
    and "distinct (ins (queues s q))" and "set (ins (queues s q)) = insert t (set (queues s q))"
  shows "queues_ok (upd_thread t (\<lambda>th. th\<lparr>t_elem := Some q\<rparr>)
           (s\<lparr>queues := (queues s)(q := ins (queues s q))\<rparr>))"
  using assms unfolding queues_ok_def by auto

definition link :: "nat \<Rightarrow> qid \<Rightarrow> kstate \<Rightarrow> kstate" where
  "link t q s = upd_thread t (\<lambda>th. th\<lparr>t_elem := Some q\<rparr>) (s\<lparr>queues := (queues s)(q := queues s q @ [t])\<rparr>)"

lemma link_frame [simp]:
  "threads (link t q s) u = (if u = t then map_option (\<lambda>th. th\<lparr>t_elem := Some q\<rparr>) (threads s t) else threads s u)"
  "queues (link t q s) = (queues s)(q := queues s q @ [t])" "running (link t q s) = running s"
  "idle_thread (link t q s) = idle_thread s" "initial_thread (link t q s) = initial_thread s"
  "intr_on (link t q s) = intr_on s" "in_external_intr (link t q s) = in_external_intr s"
  "thread_mlfqs (link t q s) = thread_mlfqs s" "locks (link t q s) = locks s"
  "all_list (link t q s) = all_list s" "load_avg (link t q s) = load_avg s" "ticks (link t q s) = ticks s"
  "yield_on_return (link t q s) = yield_on_return s" "sema_value (link t q s) = sema_value s"
  "cond_waiters (link t q s) = cond_waiters s" "thread_ticks (link t q s) = thread_ticks s"
  "next_tid (link t q s) = next_tid s"
  by (simp_all add: link_def)

lemma elem_push_back_eq:
  "threads s t = Some th \<Longrightarrow> t_elem th = None \<Longrightarrow> elem_push_back q t s = Some (link t q s)"
  by (simp add: elem_push_back_def link_elem_eq link_def)

lemma queues_ok_push_back:
  assumes "queues_ok s" and "threads s t = Some th" and "t_elem th = None"
  shows "queues_ok (link t q s)"
proof -
  have "t \<notin> set (queues s q)" using queues_ok_in[OF assms(1)] assms(2,3) by auto
  then show ?thesis
    unfolding link_def using assms
    by (intro queues_ok_link[where ins = "\<lambda>ts. ts @ [t]"]) (auto simp: queues_ok_def)
qed

lemma inv_but_link:
  assumes "inv_but A s" and "t \<in> A" and "threads s t = Some th" and "t_elem th = None"
  shows "inv_but A (link t q s)"
  using assms queues_ok_push_back[of s t th q] unfolding inv_but_def by (auto split: if_splits)

text \<open>Updates of one thread that leave its element alone.\<close>

lemma inv_but_upd:
  assumes "inv_but A s" and "t \<in> A" and "\<And>th. threads s t = Some th \<Longrightarrow> t_elem (f th) = t_elem th"
    and "\<And>th. threads s t = Some th \<Longrightarrow> idle_thread s = Some t \<Longrightarrow> t_status (f th) \<noteq> THREAD_DYING"
  shows "inv_but A (upd_thread t f s)"
proof -
  have "queues_ok (upd_thread t f s)"
  proof (rule queues_ok_cong[of s])
    show "map_option t_elem (threads (upd_thread t f s) u) = map_option t_elem (threads s u)" for u
      using assms(3) by (cases "threads s t") simp_all
  qed (use assms(1) in \<open>simp_all add: inv_but_def\<close>)
  moreover obtain i th where "idle_thread s = Some i" "threads s i = Some th" "t_status th \<noteq> THREAD_DYING"
    using assms(1) unfolding inv_but_def by blast
  ultimately show ?thesis
    using inv_but_sched_ok[OF assms(1)] assms(2,4)
    by (intro inv_butI[where i = i and th = "if i = t then f th else th"]) (auto split: if_splits)
qed

lemma inv_but_frame:
  assumes "inv_but A s" and "queues s' = queues s" and "threads s' = threads s"
    and "running s' = running s" and "idle_thread s' = idle_thread s"
  shows "inv_but A s'"
  using assms unfolding inv_but_def queues_ok_def by simp

subsection \<open>Choosing the next thread\<close>

definition next_run :: "kstate \<Rightarrow> nat \<Rightarrow> bool" where
  "next_run s n \<longleftrightarrow>
     (\<exists>p \<le> 63. queues s (Ready p) \<noteq> [] \<and> n = hd (queues s (Ready p)) \<and>
        (\<forall>p' \<le> 63. p < p' \<longrightarrow> queues s (Ready p') = [])) \<or>
     (\<forall>p \<le> 63. queues s (Ready p) = []) \<and> idle_thread s = Some n"

lemma next_priority_spec:
  assumes "next_priority s p = r"
  shows "r \<le> p \<and> (0 \<le> r \<longrightarrow> queues s (Ready (nat r)) \<noteq> []) \<and>
         (\<forall>k. r < int k \<and> int k \<le> p \<longrightarrow> queues s (Ready k) = [])"
  using assms
proof (induction s p rule: next_priority.induct)
  case (1 s p)
  show ?case
  proof (cases "p \<ge> 0 \<and> queues s (Ready (nat p)) = []")
    case True
    then have "next_priority s (p - 1) = r" using "1.prems" by (subst (asm) next_priority.simps) simp
    from "1.IH"[OF True this] True show ?thesis
      by (metis (no_types, lifting) nat_int not_le order_less_le zle_diff1_eq)
  next
    case False
    then have "p = r" using "1.prems" by (subst (asm) next_priority.simps) auto
    with False show ?thesis by auto
  qed
qed

declare next_priority.simps [simp del]

definition switch_to :: "nat \<Rightarrow> int \<Rightarrow> kstate \<Rightarrow> kstate" where
  "switch_to n z s = s\<lparr>running := n,
     threads := (\<lambda>t. if t = running s \<and> t \<noteq> n \<and> t \<noteq> initial_thread s \<and>
                        map_option t_status (threads s t) = Some THREAD_DYING then None
                     else if t = n then map_option (\<lambda>th. th\<lparr>t_status := THREAD_RUNNING, t_elem := None\<rparr>) (threads s n)
                     else threads s t),
     queues := (\<lambda>q. remove1 n (queues s q)), thread_ticks := 0, ready_mlfq_size := z\<rparr>"

lemma schedule_tail_eq:
  assumes "\<not> intr_on s" and "threads s cur = Some th" and "threads s n = Some thn"
  shows "thread_schedule_tail (if cur \<noteq> n then Some cur else None) (s\<lparr>running := n\<rparr>) =
     Some (s\<lparr>running := n, thread_ticks := 0,
       threads := (\<lambda>t. if t = cur \<and> t \<noteq> n \<and> t \<noteq> initial_thread s \<and>
                        map_option t_status (threads s t) = Some THREAD_DYING then None
                     else if t = n then map_option (\<lambda>th. th\<lparr>t_status := THREAD_RUNNING\<rparr>) (threads s n)
                     else threads s t)\<rparr>)"
  using assms by (auto simp: thread_schedule_tail_def upd_thread_def Let_def fun_eq_iff intro!: kstate.equality)

lemma next_thread_eq:
  assumes "inv_sched s"
  obtains n thn z where "next_thread_to_run s = Some ((unlink n s)\<lparr>ready_mlfq_size := z\<rparr>, Some n)"
    and "next_run s n" and "threads s n = Some thn"
    and "t_status thn = THREAD_READY \<or> idle_thread s = Some n"
    and "idle_thread s = Some n \<Longrightarrow> t_elem thn = None \<and> t_status thn \<noteq> THREAD_DYING"
proof -
  have q: "queues_ok s" using assms by (simp add: inv_but_def)
  note sp = next_priority_spec[OF refl, of s PRI_MAX]
  show thesis
  proof (cases "next_priority s PRI_MAX \<ge> 0")
    case True
    define p where "p = nat (next_priority s PRI_MAX)"
    have p: "int p = next_priority s PRI_MAX" using True by (simp add: p_def)
    obtain n ts where qs: "queues s (Ready p) = n # ts"
      using sp True by (cases "queues s (Ready p)") (auto simp: p_def)
    obtain thn where thn: "threads s n = Some thn" "t_elem thn = Some (Ready p)"
      using queues_ok_in[OF q, of n "Ready p"] qs by auto
    have ok: "sched_ok (running s) (idle_thread s) n thn" using inv_but_sched_ok[OF assms thn(1)] by simp
    then have st: "t_status thn = THREAD_READY" "idle_thread s \<noteq> Some n"
      using thn(2) by (auto simp: sched_ok_def split: thread_status.splits if_splits)
    have "next_run s n"
      using qs sp p by (auto simp: next_run_def PRI_MAX_def intro!: exI[of _ p])
    moreover have "next_thread_to_run s =
        Some ((unlink n s)\<lparr>ready_mlfq_size := ready_mlfq_size (unlink n s)\<rparr>, Some n)"
      using True qs elem_remove_eq[OF q thn]
      by (simp add: next_thread_to_run_def elem_pop_front_def Let_def flip: p_def)
    ultimately show thesis using that[of "ready_mlfq_size (unlink n s)" n thn] thn(1) st by simp
  next
    case False
    obtain i thi where i: "idle_thread s = Some i" "threads s i = Some thi" "t_status thi \<noteq> THREAD_DYING"
      using assms unfolding inv_but_def by blast
    have ok: "sched_ok (running s) (idle_thread s) i thi" using inv_but_sched_ok[OF assms i(2)] by simp
    then have el: "t_elem thi = None" using i by (auto simp: sched_ok_def split: thread_status.splits)
    have un: "unlink i s = s"
    proof -
      have "remove1 i (queues s q) = queues s q" for q
        using queues_ok_in[OF q, of i q] i(2) el by (simp add: remove1_idem)
      then show ?thesis using i(2) el by (auto simp: unlink_def upd_thread_def fun_eq_iff intro!: kstate.equality)
    qed
    have "queues s (Ready p) = []" if "p \<le> 63" for p
      using sp False that by (auto simp: PRI_MAX_def)
    then have nr: "next_run s i" using i(1) by (auto simp: next_run_def)
    have "next_thread_to_run s = Some ((unlink i s)\<lparr>ready_mlfq_size := wrap32 (ready_mlfq_size s - 1)\<rparr>, Some i)"
      using False i(1) un by (simp add: next_thread_to_run_def Let_def)
    from that[OF this nr i(2)] i el show thesis by auto
  qed
qed

lemma schedule_eq:
  assumes "inv_sched s" and "threads s (running s) = Some th" and "t_status th \<noteq> THREAD_RUNNING"
    and "\<not> intr_on s"
  obtains n thn z where "schedule s = Some (switch_to n z s)" and "next_run s n"
    and "threads s n = Some thn" and "t_status thn \<noteq> THREAD_DYING" and "t_status thn \<noteq> THREAD_RUNNING"
proof (rule next_thread_eq[OF assms(1)])
  fix n thn z
  assume n: "next_thread_to_run s = Some ((unlink n s)\<lparr>ready_mlfq_size := z\<rparr>, Some n)"
    "next_run s n" "threads s n = Some thn" "t_status thn = THREAD_READY \<or> idle_thread s = Some n"
    "idle_thread s = Some n \<Longrightarrow> t_elem thn = None \<and> t_status thn \<noteq> THREAD_DYING"
  let ?s = "(unlink n s)\<lparr>ready_mlfq_size := z\<rparr>"
  obtain th' where th': "threads ?s (running s) = Some th'" "t_status th' = t_status th"
    using assms(2) by (cases "running s = n") auto
  have "schedule s = thread_schedule_tail (if running s \<noteq> n then Some (running s) else None) (?s\<lparr>running := n\<rparr>)"
    using n(1,3) th' assms(3,4) by (auto simp: schedule_def is_thread_def Let_def)
  also have "\<dots> = Some (switch_to n z s)"
  proof -
    have t: "\<not> intr_on ?s" "threads ?s n = Some (thn\<lparr>t_elem := None\<rparr>)" using assms(4) n(3) by auto
    show ?thesis
      unfolding schedule_tail_eq[OF t(1) th'(1) t(2)]
      using n(3) by (auto simp: switch_to_def unlink_def upd_thread_def fun_eq_iff option.map_comp comp_def
          intro!: kstate.equality)
  qed
  finally have eq: "schedule s = Some (switch_to n z s)" .
  have "t_status thn \<noteq> THREAD_RUNNING"
    using inv_but_sched_ok[OF assms(1) n(3)] assms(2,3) n(3) by (auto simp: sched_ok_def)
  with that[OF eq n(2,3)] n(4,5) show thesis by auto
qed

lemma switch_to_frame [simp]:
  "running (switch_to n z s) = n" "idle_thread (switch_to n z s) = idle_thread s"
  "initial_thread (switch_to n z s) = initial_thread s" "intr_on (switch_to n z s) = intr_on s"
  "in_external_intr (switch_to n z s) = in_external_intr s" "thread_mlfqs (switch_to n z s) = thread_mlfqs s"
  "locks (switch_to n z s) = locks s" "all_list (switch_to n z s) = all_list s"
  "load_avg (switch_to n z s) = load_avg s" "ticks (switch_to n z s) = ticks s"
  "queues (switch_to n z s) q = remove1 n (queues s q)" "sema_value (switch_to n z s) = sema_value s"
  "cond_waiters (switch_to n z s) = cond_waiters s"
  by (simp_all add: switch_to_def)

lemma threads_switch_to:
  "threads (switch_to n z s) t =
     (if t = running s \<and> t \<noteq> n \<and> t \<noteq> initial_thread s \<and>
         map_option t_status (threads s t) = Some THREAD_DYING then None
      else if t = n then map_option (\<lambda>th. th\<lparr>t_status := THREAD_RUNNING, t_elem := None\<rparr>) (threads s n)
      else threads s t)"
  by (simp add: switch_to_def)

lemma inv_switch_to:
  assumes inv: "inv_sched s" and cur: "threads s (running s) = Some th" "t_status th \<noteq> THREAD_RUNNING"
    and n: "threads s n = Some thn" "t_status thn \<noteq> THREAD_DYING"
  shows "inv_sched (switch_to n z s)" and "cur_running (switch_to n z s)"
proof -
  have q: "queues_ok s" using inv by (simp add: inv_but_def)
  have ok: "sched_ok (running s) (idle_thread s) t th" if "threads s t = Some th" for t th
    using inv_but_sched_ok[OF inv that] by simp
  have dy: "t_elem th = None" if "threads s t = Some th" "t_status th = THREAD_DYING" for t th
    using ok[OF that(1)] that(2) by (simp add: sched_ok_def)
  have "queues_ok (switch_to n z s)"
    unfolding queues_ok_def
  proof (intro conjI allI)
    fix q t
    show "distinct (queues (switch_to n z s) q)" using q by (simp add: queues_ok_def)
    show "t \<in> set (queues (switch_to n z s) q) \<longleftrightarrow>
        (\<exists>th. threads (switch_to n z s) t = Some th \<and> t_elem th = Some q)"
      using queues_ok_in[OF q, of t q] q dy[of t] n
      by (cases "threads s t") (auto simp: threads_switch_to queues_ok_def)
  qed
  moreover obtain i thi where i: "idle_thread s = Some i" "threads s i = Some thi" "t_status thi \<noteq> THREAD_DYING"
    using inv unfolding inv_but_def by blast
  have "sched_ok n (idle_thread s) t th'" if "threads (switch_to n z s) t = Some th'" for t th'
  proof (cases "t = n")
    case True
    then show ?thesis using that n ok[OF n(1)] by (auto simp: threads_switch_to sched_ok_def)
  next
    case False
    then have "threads s t = Some th'" using that by (auto simp: threads_switch_to split: if_splits)
    then show ?thesis using ok[of t th'] cur False by (auto simp: sched_ok_def split: thread_status.splits)
  qed
  ultimately show "inv_sched (switch_to n z s)"
    using i by (intro inv_butI[where i = i and
        th = "if i = n then thi\<lparr>t_status := THREAD_RUNNING, t_elem := None\<rparr> else thi"])
      (auto simp: threads_switch_to)
  show "cur_running (switch_to n z s)" using n(1) by (simp add: cur_running_def threads_switch_to)
qed

subsection \<open>Blocking and yielding\<close>

text \<open>The state in which the running thread gives up the processor.\<close>

definition give_up :: "thread_status \<Rightarrow> kstate \<Rightarrow> kstate" where
  "give_up st s = upd_thread (running s) (\<lambda>th. th\<lparr>t_status := st\<rparr>) s"

lemma give_up_frame [simp]:
  "running (give_up st s) = running s" "idle_thread (give_up st s) = idle_thread s"
  "initial_thread (give_up st s) = initial_thread s" "intr_on (give_up st s) = intr_on s"
  "in_external_intr (give_up st s) = in_external_intr s" "locks (give_up st s) = locks s"
  "queues (give_up st s) = queues s" "all_list (give_up st s) = all_list s"
  "load_avg (give_up st s) = load_avg s" "thread_mlfqs (give_up st s) = thread_mlfqs s"
  "threads (give_up st s) t =
     (if t = running s then map_option (\<lambda>th. th\<lparr>t_status := st\<rparr>) (threads s t) else threads s t)"
  by (simp_all add: give_up_def)

lemma schedule_give_up:
  assumes "inv_but {running s} s" and "threads s (running s) = Some th" and "\<not> intr_on s"
    and "st \<noteq> THREAD_RUNNING" and "sched_ok (running s) (idle_thread s) (running s) (th\<lparr>t_status := st\<rparr>)"
    and "st = THREAD_DYING \<Longrightarrow> idle_thread s \<noteq> Some (running s)"
  obtains n z thn where "schedule (give_up st s) = Some (switch_to n z (give_up st s))"
    and "next_run s n" and "threads (give_up st s) n = Some thn" and "t_status thn \<noteq> THREAD_DYING"
    and "inv_sched (switch_to n z (give_up st s))" and "cur_running (switch_to n z (give_up st s))"
proof -
  have "inv_but {running s} (give_up st s)"
    unfolding give_up_def using assms(1,6) by (intro inv_but_upd) auto
  then have inv: "inv_sched (give_up st s)"
    using assms(2,5) by (intro inv_but_restore[of "running s" "{}"]) auto
  have cur: "threads (give_up st s) (running (give_up st s)) = Some (th\<lparr>t_status := st\<rparr>)"
    "t_status (th\<lparr>t_status := st\<rparr>) \<noteq> THREAD_RUNNING" "\<not> intr_on (give_up st s)"
    using assms(2,3,4) by simp_all
  show thesis
    by (rule schedule_eq[OF inv cur])
      (use inv_switch_to[OF inv cur(1,2)] in \<open>auto intro!: that simp: next_run_def\<close>)
qed

end
