(* ===== verification/Pintos_Timer.thy ===== *)
theory Pintos_Timer
  imports Pintos_Synch
begin

section \<open>The timer and external interrupts (devices/timer.c, threads/interrupt.c)\<close>

text \<open>
  The timer interrupt drives sleeping, time slices and the recomputation of priorities. The frame
  around a handler is that of \<open>intr_handler\<close> for an external interrupt; leaving it restores the
  interrupt flag of the interrupted code, which had interrupts on.
\<close>

definition TIMER_FREQ :: int where "TIMER_FREQ = 100"

definition timer_ticks :: "kstate \<Rightarrow> int" where
  "timer_ticks s = ticks s"

definition timer_elapsed :: "int \<Rightarrow> kstate \<Rightarrow> int" where
  "timer_elapsed thn s = wrap64 (timer_ticks s - thn)"

definition timer_sleep :: "int \<Rightarrow> kstate \<Rightarrow> kstate option" where
  "timer_sleep n s = do {
     ASSERT (intr_on s);
     if n \<le> 0 then Some s
     else do {
       let old_level = intr_on s;
       let s = intr_disable s;
       s \<leftarrow> thread_sleep (wrap64 (timer_ticks s + n)) s;
       thread_block (push_cont [K_intr_set_level old_level] s)
     }
   }"

definition timer_interrupt :: "kstate \<Rightarrow> kstate option" where
  "timer_interrupt s = do {
     let s = s\<lparr>ticks := wrap64 (ticks s + 1)\<rparr>;
     s \<leftarrow> handle_sleeping_threads (ticks s) s;
     s \<leftarrow> thread_tick s;
     if thread_mlfqs s then do {
       cthread \<leftarrow> thread_current s;
       idle \<leftarrow> current_thread_is_idle_thread s;
       let s = (if \<not> idle then upd_thread cthread (\<lambda>th. th\<lparr>t_recent_cpu := fp_int_add (t_recent_cpu th) 1\<rparr>) s else s);
       if ticks s smod TIMER_FREQ = 0 then do {
         s \<leftarrow> thread_recompute_load_avg s;
         thread_foreach (\<lambda>t. thread_recompute_priority t False) s
       } else if ticks s smod 4 = 0 then thread_recompute_priority cthread True s
       else Some s
     } else Some s
   }"

definition intr_handler :: "(kstate \<Rightarrow> kstate option) \<Rightarrow> kstate \<Rightarrow> kstate option" where
  "intr_handler handler s = do {
     ASSERT (\<not> intr_on s);
     ASSERT (\<not> in_external_intr s);
     let s = s\<lparr>in_external_intr := True, yield_on_return := False\<rparr>;
     s \<leftarrow> handler s;
     ASSERT (\<not> intr_on s);
     ASSERT (in_external_intr s);
     let s = s\<lparr>in_external_intr := False\<rparr>;
     if yield_on_return s then thread_yield s else Some s
   }"

text \<open>The processor enters the handler through an interrupt gate, which turns interrupts off, and
  leaves it with \<open>iret\<close>.\<close>

definition timer_irq :: "kstate \<Rightarrow> kstate option" where
  "timer_irq s = intr_handler timer_interrupt (push_cont [K_iret] (intr_disable s))"

subsection \<open>Delays\<close>

text \<open>
  A busy wait costs time and changes nothing; \<open>busy_wait\<close> counts the rounds of the loop. The static
  variable \<open>loops_per_tick\<close> is an argument of the delays. What \<open>too_many_loops\<close> answers depends on the
  speed of the machine: it is an argument of \<open>timer_calibrate\<close>.
\<close>

function busy_wait :: "int \<Rightarrow> nat" where
  "busy_wait loops = (if loops > 0 then Suc (busy_wait (loops - 1)) else 0)"
  by pat_completeness auto
termination by (relation "measure nat") auto

declare busy_wait.simps [simp del]

lemma busy_wait_eq: "busy_wait loops = nat loops"
  by (induction loops rule: busy_wait.induct) (subst busy_wait.simps, auto)

definition real_time_delay :: "u32 \<Rightarrow> int \<Rightarrow> int \<Rightarrow> nat option" where
  "real_time_delay loops_per_tick num denom = do {
     ASSERT (denom smod 1000 = 0);
     ASSERT (denom sdiv 1000 \<noteq> 0);
     Some (busy_wait (wrap64 (wrap64 (wrap64 (uint loops_per_tick * num) sdiv 1000 * TIMER_FREQ) sdiv (denom sdiv 1000))))
   }"

definition real_time_sleep :: "u32 \<Rightarrow> int \<Rightarrow> int \<Rightarrow> kstate \<Rightarrow> kstate option" where
  "real_time_sleep loops_per_tick num denom s = do {
     let ticks = wrap64 (wrap64 (num * TIMER_FREQ) sdiv denom);
     ASSERT (intr_on s);
     if ticks > 0 then timer_sleep ticks s
     else do { _ \<leftarrow> real_time_delay loops_per_tick num denom; Some s }
   }"

definition timer_msleep :: "u32 \<Rightarrow> int \<Rightarrow> kstate \<Rightarrow> kstate option" where
  "timer_msleep loops_per_tick ms s = real_time_sleep loops_per_tick ms 1000 s"

definition timer_usleep :: "u32 \<Rightarrow> int \<Rightarrow> kstate \<Rightarrow> kstate option" where
  "timer_usleep loops_per_tick us s = real_time_sleep loops_per_tick us (1000 * 1000) s"

definition timer_nsleep :: "u32 \<Rightarrow> int \<Rightarrow> kstate \<Rightarrow> kstate option" where
  "timer_nsleep loops_per_tick ns s = real_time_sleep loops_per_tick ns (1000 * 1000 * 1000) s"

definition timer_mdelay :: "u32 \<Rightarrow> int \<Rightarrow> nat option" where
  "timer_mdelay loops_per_tick ms = real_time_delay loops_per_tick ms 1000"

definition timer_udelay :: "u32 \<Rightarrow> int \<Rightarrow> nat option" where
  "timer_udelay loops_per_tick us = real_time_delay loops_per_tick us (1000 * 1000)"

definition timer_ndelay :: "u32 \<Rightarrow> int \<Rightarrow> nat option" where
  "timer_ndelay loops_per_tick ns = real_time_delay loops_per_tick ns (1000 * 1000 * 1000)"

text \<open>The loop that doubles starts with \<open>2 ^ 10\<close>; after 22 rounds the value would be zero and the
  assertion fails.\<close>

fun calibrate_double :: "nat \<Rightarrow> (u32 \<Rightarrow> bool) \<Rightarrow> u32 \<Rightarrow> u32 option" where
  "calibrate_double 0 too_many_loops loops = None"
| "calibrate_double (Suc fuel) too_many_loops loops =
     (if too_many_loops (push_bit 1 loops) then Some loops
      else do { ASSERT (push_bit 1 loops \<noteq> 0); calibrate_double fuel too_many_loops (push_bit 1 loops) })"

fun calibrate_refine :: "nat \<Rightarrow> (u32 \<Rightarrow> bool) \<Rightarrow> u32 \<Rightarrow> u32 \<Rightarrow> u32 \<Rightarrow> u32" where
  "calibrate_refine 0 too_many_loops high_bit test_bit loops = loops"
| "calibrate_refine (Suc fuel) too_many_loops high_bit test_bit loops =
     (if test_bit \<noteq> drop_bit 10 high_bit
      then calibrate_refine fuel too_many_loops high_bit (drop_bit 1 test_bit)
        (if \<not> too_many_loops (or high_bit test_bit) then or loops test_bit else loops)
      else loops)"

definition timer_calibrate :: "(u32 \<Rightarrow> bool) \<Rightarrow> kstate \<Rightarrow> u32 option" where
  "timer_calibrate too_many_loops s = do {
     ASSERT (intr_on s);
     high_bit \<leftarrow> calibrate_double 23 too_many_loops (push_bit 10 1);
     Some (calibrate_refine 10 too_many_loops high_bit (drop_bit 1 high_bit) high_bit)
   }"

lemma msleep_kinds:
  assumes "0 \<le> ms" and "ms < 2 ^ 50" and "intr_on s"
  shows "timer_msleep lpt ms s = (if 10 \<le> ms then timer_sleep (ms div 10) s else Some s)"
proof -
  have t: "wrap64 (wrap64 (ms * TIMER_FREQ) sdiv 1000) = ms div 10"
    using assms(1,2) by (simp add: TIMER_FREQ_def sdiv_nonneg)
  show ?thesis
    using assms(3) unfolding timer_msleep_def real_time_sleep_def t
    by (auto simp: real_time_delay_def signed_modulo_int_def signed_divide_int_def Let_def)
qed

end
