(* ===== verification/Pintos_Kernel.thy ===== *)
theory Pintos_Kernel
  imports Pintos_Sched_Inv Pintos_Timer
begin

section \<open>The invariant of the kernel\<close>

text \<open>
  On top of the invariant of the scheduler: the stack of resume points of every thread fits the
  interrupt level it will be resumed with (\<open>conts_ok\<close>), locks and the lists of owned locks agree, and
  the list of all threads holds exactly the threads that are not dying. Every call of this part of
  the kernel keeps the invariant and, where its documented preconditions hold, does not panic.
\<close>

subsection \<open>Stacks of resume points\<close>

text \<open>\<open>conts_ok level ks\<close>: the resume points \<open>ks\<close> may be run with interrupts at \<open>level\<close>. Ordinary code of
  a thread runs with interrupts on.\<close>

fun conts_ok :: "bool \<Rightarrow> kcall list \<Rightarrow> bool" where
  "conts_ok lvl [] = lvl"
| "conts_ok lvl (K_intr_set_level b # ks) = conts_ok b ks"
| "conts_ok lvl (K_iret # ks) = (\<not> lvl \<and> conts_ok True ks)"
| "conts_ok lvl (K_kernel_thread # ks) = (\<not> lvl \<and> conts_ok True ks)"
| "conts_ok lvl (K_idle sm # ks) = False"
| "conts_ok lvl (K_idle_loop # ks) = (lvl \<and> ks = [])"
| "conts_ok lvl (K_idle_hlt # ks) = (\<not> lvl \<and> ks = [])"
| "conts_ok lvl (K_sema_down sm # ks) = conts_ok lvl ks"
| "conts_ok lvl (K_sema_down_loop sm old # ks) = (\<not> lvl \<and> conts_ok old ks)"
| "conts_ok lvl (K_lock_acquire l # ks) = conts_ok lvl ks"
| "conts_ok lvl (K_lock_acquire_loop l old # ks) = (\<not> lvl \<and> conts_ok old ks)"
| "conts_ok lvl (K_cond_broadcast c l # ks) = conts_ok lvl ks"

fun idle_frame :: "kcall \<Rightarrow> bool" where
  "idle_frame K_idle_loop = True"
| "idle_frame K_idle_hlt = True"
| "idle_frame _ = False"

fun plain_frame :: "kcall \<Rightarrow> bool" where
  "plain_frame (K_intr_set_level b) = True"
| "plain_frame K_iret = True"
| "plain_frame _ = False"

definition stack_kind :: "bool \<Rightarrow> kcall list \<Rightarrow> bool" where
  "stack_kind idl ks \<longleftrightarrow>
     (if idl then ks \<noteq> [] \<and> idle_frame (last ks) \<and> (\<forall>k \<in> set (butlast ks). plain_frame k)
      else \<forall>k \<in> set ks. \<not> idle_frame k)"

text \<open>Locks that a stack is about to acquire.\<close>

fun acquires :: "kcall list \<Rightarrow> nat list" where
  "acquires [] = []"
| "acquires (K_lock_acquire l # ks) = l # acquires ks"
| "acquires (K_lock_acquire_loop l old # ks) = l # acquires ks"
| "acquires (_ # ks) = acquires ks"

definition rest_ok :: "nat option \<Rightarrow> bool \<Rightarrow> nat \<Rightarrow> thread \<Rightarrow> bool" where
  "rest_ok idl lvl t th \<longleftrightarrow>
     distinct (t_owned_locks th) \<and> length (acquires (t_cont th)) \<le> 1 \<and>
     set (acquires (t_cont th)) \<inter> set (t_owned_locks th) = {} \<and>
     (\<forall>c l. K_cond_broadcast c l \<in> set (t_cont th) \<longrightarrow> l \<in> set (t_owned_locks th)) \<and>
     (Some t = idl \<longrightarrow> t_owned_locks th = []) \<and>
     (if t_status th = THREAD_DYING then t_owned_locks th = []
      else conts_ok lvl (t_cont th) \<and> stack_kind (Some t = idl) (t_cont th))"

lemma rest_ok_upd [simp]:
  "rest_ok idl lvl t (th\<lparr>t_elem := e\<rparr>) = rest_ok idl lvl t th"
  "rest_ok idl lvl t (th\<lparr>t_wakeup_time := w\<rparr>) = rest_ok idl lvl t th"
  "rest_ok idl lvl t (th\<lparr>t_current_priority := p\<rparr>) = rest_ok idl lvl t th"
  "rest_ok idl lvl t (th\<lparr>t_priority := p\<rparr>) = rest_ok idl lvl t th"
  "rest_ok idl lvl t (th\<lparr>t_nice := n\<rparr>) = rest_ok idl lvl t th"
  "rest_ok idl lvl t (th\<lparr>t_recent_cpu := r\<rparr>) = rest_ok idl lvl t th"
  by (simp_all add: rest_ok_def)

definition locks_ok :: "kstate \<Rightarrow> bool" where
  "locks_ok s \<longleftrightarrow>
     (\<forall>l t. holder (locks s l) = Some t \<longleftrightarrow>
        (\<exists>th. threads s t = Some th \<and> l \<in> set (t_owned_locks th))) \<and>
     (\<forall>l. 0 \<le> bounty (locks s l) \<and> bounty (locks s l) \<le> PRI_MAX)"

definition all_ok :: "kstate \<Rightarrow> bool" where
  "all_ok s \<longleftrightarrow> distinct (all_list s) \<and>
     set (all_list s) = {t. \<exists>th. threads s t = Some th \<and> t_status th \<noteq> THREAD_DYING} \<and>
     (\<forall>t. threads s t \<noteq> None \<longrightarrow> t < 2 ^ 20) \<and> 0 \<le> load_avg s \<and> load_avg s \<le> 2 ^ 40"

definition kinv_but :: "nat set \<Rightarrow> kstate \<Rightarrow> bool" where
  "kinv_but A s \<longleftrightarrow> inv_but A s \<and> locks_ok s \<and> all_ok s \<and>
     (\<forall>t th. threads s t = Some th \<longrightarrow> t \<notin> A \<longrightarrow>
        rest_ok (idle_thread s) (t = running s \<and> intr_on s) t th)"

definition kinv :: "kstate \<Rightarrow> bool" where
  "kinv s \<longleftrightarrow> kinv_but {} s \<and> cur_running s \<and> \<not> in_external_intr s"

subsection \<open>Updates that keep parts of the invariant\<close>

lemma locks_ok_cong:
  assumes "locks_ok s" and "locks s' = locks s"
    and "\<And>t. map_option t_owned_locks (threads s' t) = map_option t_owned_locks (threads s t)"
  shows "locks_ok s'"
proof -
  have "(\<exists>th. threads s' t = Some th \<and> l \<in> set (t_owned_locks th)) \<longleftrightarrow>
        (\<exists>th. threads s t = Some th \<and> l \<in> set (t_owned_locks th))" for t l
    using assms(3)[of t] by (cases "threads s' t"; cases "threads s t") auto
  with assms(1,2) show ?thesis unfolding locks_ok_def by simp
qed

lemma all_ok_cong:
  assumes "all_ok s" and "all_list s' = all_list s" and "load_avg s' = load_avg s"
    and "\<And>t. threads s' t = None \<longleftrightarrow> threads s t = None"
    and "\<And>t th th'. threads s t = Some th \<Longrightarrow> threads s' t = Some th' \<Longrightarrow>
      t_status th' = THREAD_DYING \<longleftrightarrow> t_status th = THREAD_DYING"
  shows "all_ok s'"
proof -
  have "(\<exists>th. threads s' t = Some th \<and> t_status th \<noteq> THREAD_DYING) \<longleftrightarrow>
        (\<exists>th. threads s t = Some th \<and> t_status th \<noteq> THREAD_DYING)" for t
  proof (cases "threads s t")
    case (Some th)
    then obtain th' where "threads s' t = Some th'" using assms(4)[of t] by auto
    with Some assms(5)[OF Some this] show ?thesis by simp
  qed (use assms(4)[of t] in simp)
  moreover have "\<forall>t. threads s' t \<noteq> None \<longrightarrow> t < 2 ^ 20" using assms(1,4) by (simp only: all_ok_def) blast
  ultimately show ?thesis using assms(1-3) unfolding all_ok_def by simp
qed

lemma kinv_butI:
  assumes "inv_but A s" "locks_ok s" "all_ok s"
    and "\<And>t th. threads s t = Some th \<Longrightarrow> t \<notin> A \<Longrightarrow> rest_ok (idle_thread s) (t = running s \<and> intr_on s) t th"
  shows "kinv_but A s"
  using assms unfolding kinv_but_def by blast

lemma kinv_but_rest:
  "kinv_but A s \<Longrightarrow> threads s t = Some th \<Longrightarrow> t \<notin> A \<Longrightarrow>
     rest_ok (idle_thread s) (t = running s \<and> intr_on s) t th"
  unfolding kinv_but_def by blast

lemma kinv_but_parts:
  assumes "kinv_but A s"
  shows "inv_but A s" "locks_ok s" "all_ok s" "queues_ok s"
  using assms by (auto simp: kinv_but_def inv_but_def)

lemma kinv_but_weaken: "kinv_but A s \<Longrightarrow> A \<subseteq> B \<Longrightarrow> kinv_but B s"
  unfolding kinv_but_def using inv_but_weaken[of A s B] by blast

lemma kinv_but_restore:
  assumes "kinv_but (insert t A) s"
    and "\<And>th. threads s t = Some th \<Longrightarrow> sched_ok (running s) (idle_thread s) t th \<and>
      rest_ok (idle_thread s) (t = running s \<and> intr_on s) t th"
  shows "kinv_but A s"
  using assms inv_but_restore[of t A s] unfolding kinv_but_def by blast

text \<open>One thread of \<open>A\<close> is changed, but not its element, its locks or whether it is dying.\<close>

lemma kinv_but_upd:
  assumes k: "kinv_but A s" and t: "t \<in> A"
    and f: "\<And>th. t_elem (f th) = t_elem th" "\<And>th. t_owned_locks (f th) = t_owned_locks th"
      "\<And>th. threads s t = Some th \<Longrightarrow> t_status (f th) = THREAD_DYING \<longleftrightarrow> t_status th = THREAD_DYING"
  shows "kinv_but A (upd_thread t f s)"
proof (rule kinv_butI)
  note p = kinv_but_parts[OF k]
  show "inv_but A (upd_thread t f s)"
    using p(1) t f(1,3) by (intro inv_but_upd) (auto simp: inv_but_def)
  show "locks_ok (upd_thread t f s)"
    using p(2) f(2) by (rule_tac locks_ok_cong) (auto simp: option.map_comp comp_def)
  show "all_ok (upd_thread t f s)"
    using p(3) f(3) by (rule_tac all_ok_cong) (auto split: if_splits)
  show "rest_ok (idle_thread (upd_thread t f s)) (u = running (upd_thread t f s) \<and> intr_on (upd_thread t f s)) u th"
    if "threads (upd_thread t f s) u = Some th" "u \<notin> A" for u th
    using that kinv_but_rest[OF k, of u th] t by (auto split: if_splits)
qed

lemma kinv_but_frame:
  assumes "kinv_but A s" and "queues s' = queues s" "threads s' = threads s" "running s' = running s"
    "idle_thread s' = idle_thread s" "locks s' = locks s" "all_list s' = all_list s" "load_avg s' = load_avg s"
    and "intr_on s' = intr_on s \<or> running s \<in> A"
  shows "kinv_but A s'"
proof (rule kinv_butI)
  note p = kinv_but_parts[OF assms(1)]
  show "inv_but A s'" using inv_but_frame[OF p(1)] assms by blast
  show "locks_ok s'" using p(2) assms(3,6) by (simp add: locks_ok_def)
  show "all_ok s'" using p(3) assms(3,7,8) by (simp add: all_ok_def)
  fix t th assume t: "threads s' t = Some th" "t \<notin> A"
  have "(t = running s' \<and> intr_on s') = (t = running s \<and> intr_on s)" using assms(4,9) t(2) by auto
  then show "rest_ok (idle_thread s') (t = running s' \<and> intr_on s') t th"
    using kinv_but_rest[OF assms(1), of t th] t assms(3,5) by simp
qed

lemma kinv_but_link:
  assumes k: "kinv_but A s" and "t \<in> A" and "threads s t = Some th" and "t_elem th = None"
  shows "kinv_but A (link t q s)"
proof (rule kinv_butI)
  note p = kinv_but_parts[OF k]
  show "inv_but A (link t q s)" using inv_but_link[OF p(1) assms(2-4)] .
  show "locks_ok (link t q s)" using p(2) by (rule locks_ok_cong) (auto simp: option.map_comp comp_def)
  show "all_ok (link t q s)" using p(3) by (rule all_ok_cong) (auto split: if_splits)
  show "rest_ok (idle_thread (link t q s)) (u = running (link t q s) \<and> intr_on (link t q s)) u thu"
    if "threads (link t q s) u = Some thu" "u \<notin> A" for u thu
    using that kinv_but_rest[OF k, of u thu] assms(2) by (auto split: if_splits)
qed

lemma kinv_but_unlink:
  assumes k: "kinv_but A s" and "t \<in> A"
  shows "kinv_but A (unlink t s)"
proof (rule kinv_butI)
  note p = kinv_but_parts[OF k]
  show "inv_but A (unlink t s)" using inv_but_unlink[OF p(1) assms(2)] .
  show "locks_ok (unlink t s)" using p(2) by (rule locks_ok_cong) (auto simp: option.map_comp comp_def)
  show "all_ok (unlink t s)" using p(3) by (rule all_ok_cong) (auto split: if_splits)
  show "rest_ok (idle_thread (unlink t s)) (u = running (unlink t s) \<and> intr_on (unlink t s)) u thu"
    if "threads (unlink t s) u = Some thu" "u \<notin> A" for u thu
    using that kinv_but_rest[OF k, of u thu] assms(2) by (auto split: if_splits)
qed

subsection \<open>Switching threads\<close>

lemma kinv_switch_to:
  assumes "inv_sched (switch_to n z s)" and "cur_running (switch_to n z s)"
    and "locks_ok s" and "all_ok s" and "\<not> intr_on s" and "\<not> in_external_intr s"
    and r: "\<And>t th. threads s t = Some th \<Longrightarrow> rest_ok (idle_thread s) False t th"
    and n: "threads s n = Some thn" "t_status thn \<noteq> THREAD_DYING"
  shows "kinv (switch_to n z s)"
proof -
  have "kinv_but {} (switch_to n z s)"
  proof (rule kinv_butI)
    have own: "t_owned_locks th = []" if "threads s t = Some th" "t_status th = THREAD_DYING" for t th
      using r[OF that(1)] that(2) by (simp add: rest_ok_def)
    have "(\<exists>th. threads (switch_to n z s) t = Some th \<and> l \<in> set (t_owned_locks th)) \<longleftrightarrow>
        (\<exists>th. threads s t = Some th \<and> l \<in> set (t_owned_locks th))" for t l
      using own[of t] n by (cases "threads s t") (auto simp: threads_switch_to)
    with assms(3) show "locks_ok (switch_to n z s)" by (simp add: locks_ok_def)
    have "(\<exists>th. threads (switch_to n z s) t = Some th \<and> t_status th \<noteq> THREAD_DYING) \<longleftrightarrow>
        (\<exists>th. threads s t = Some th \<and> t_status th \<noteq> THREAD_DYING)" for t
      using n by (cases "threads s t") (auto simp: threads_switch_to)
    moreover have "threads (switch_to n z s) t \<noteq> None \<Longrightarrow> threads s t \<noteq> None" for t
      by (auto simp: threads_switch_to split: if_splits)
    ultimately show "all_ok (switch_to n z s)" using assms(4) by (simp add: all_ok_def)
    show "rest_ok (idle_thread (switch_to n z s)) (t = running (switch_to n z s) \<and> intr_on (switch_to n z s)) t th"
      if "threads (switch_to n z s) t = Some th" for t th
      using that r[of t] n assms(5) by (auto simp: threads_switch_to rest_ok_def split: if_splits)
  qed (use assms in simp_all)
  with assms(2,6) show ?thesis by (simp add: kinv_def)
qed

lemma schedule_give_up_switch:
  assumes k: "kinv_but {running s} s" and cur: "threads s (running s) = Some th" and off: "\<not> intr_on s"
    and ext: "\<not> in_external_intr s" and st: "st \<noteq> THREAD_RUNNING" "st \<noteq> THREAD_DYING" "t_status th \<noteq> THREAD_DYING"
    and ok: "sched_ok (running s) (idle_thread s) (running s) (th\<lparr>t_status := st\<rparr>)"
    and rest: "rest_ok (idle_thread s) False (running s) th"
  obtains n z where "schedule (give_up st s) = Some (switch_to n z (give_up st s))" and "next_run s n"
    and "kinv (switch_to n z (give_up st s))"
proof (rule schedule_give_up[OF kinv_but_parts(1)[OF k] cur off st(1) ok])
  fix n z thn assume n: "schedule (give_up st s) = Some (switch_to n z (give_up st s))"
    "next_run s n" "threads (give_up st s) n = Some thn" "t_status thn \<noteq> THREAD_DYING"
    "inv_sched (switch_to n z (give_up st s))" "cur_running (switch_to n z (give_up st s))"
  have k': "kinv_but {running s} (give_up st s)"
    unfolding give_up_def using k st cur by (intro kinv_but_upd) auto
  have "kinv (switch_to n z (give_up st s))"
  proof (rule kinv_switch_to[OF n(5,6) kinv_but_parts(2,3)[OF k'] _ _ _ n(3,4)])
    fix t tht assume t: "threads (give_up st s) t = Some tht"
    show "rest_ok (idle_thread (give_up st s)) False t tht"
      using t rest cur st kinv_but_rest[OF k', of t tht] off
      by (cases "t = running s") (auto simp: rest_ok_def)
  qed (use off ext in simp_all)
  with that n(1,2) show thesis by blast
qed (use st in simp)

lemma schedule_give_up_kinv:
  assumes k: "kinv_but {running s} s" and cur: "threads s (running s) = Some th" and off: "\<not> intr_on s"
    and ext: "\<not> in_external_intr s" and st: "st \<noteq> THREAD_RUNNING" "st \<noteq> THREAD_DYING" "t_status th \<noteq> THREAD_DYING"
    and ok: "sched_ok (running s) (idle_thread s) (running s) (th\<lparr>t_status := st\<rparr>)"
    and rest: "rest_ok (idle_thread s) False (running s) th"
  obtains s' where "schedule (give_up st s) = Some s'" and "kinv s'"
  by (rule schedule_give_up_switch[OF assms]) (rule that)

lemma thread_block_kinv:
  assumes k: "kinv_but {running s} s" and cur: "threads s (running s) = Some th" and off: "\<not> intr_on s"
    and ext: "\<not> in_external_intr s" and st: "t_status th = THREAD_RUNNING"
    and ok: "sched_ok (running s) (idle_thread s) (running s) (th\<lparr>t_status := THREAD_BLOCKED\<rparr>)"
    and rest: "rest_ok (idle_thread s) False (running s) th"
  obtains s' where "thread_block s = Some s'" and "kinv s'"
proof -
  define s1 where "s1 = (if Some (running s) \<noteq> idle_thread s
    then s\<lparr>ready_mlfq_size := wrap32 (ready_mlfq_size s - 1)\<rparr> else s)"
  have s1: "threads s1 = threads s" "running s1 = running s" "idle_thread s1 = idle_thread s"
    "intr_on s1 = intr_on s" "in_external_intr s1 = in_external_intr s" by (simp_all add: s1_def)
  have k1: "kinv_but {running s1} s1" unfolding s1(2) by (rule kinv_but_frame[OF k]) (simp_all add: s1_def)
  have "thread_block s = schedule (give_up THREAD_BLOCKED s1)"
    using cur off ext st by (simp add: thread_block_def thread_current_def s1_def give_up_def Let_def)
  moreover obtain s' where "schedule (give_up THREAD_BLOCKED s1) = Some s'" "kinv s'"
    by (rule schedule_give_up_kinv[OF k1, of th THREAD_BLOCKED]) (use s1 cur off ext st ok rest in auto)
  ultimately show thesis using that by simp
qed

text \<open>What holds of the running thread while it executes kernel code at interrupt level \<open>lvl\<close>.\<close>

definition cur_ok :: "bool \<Rightarrow> kstate \<Rightarrow> thread \<Rightarrow> bool" where
  "cur_ok lvl s th \<longleftrightarrow> threads s (running s) = Some th \<and> t_status th = THREAD_RUNNING \<and>
     sched_ok (running s) (idle_thread s) (running s) th \<and> rest_ok (idle_thread s) lvl (running s) th"

lemma cur_okD:
  assumes "cur_ok lvl s th"
  shows "threads s (running s) = Some th" "t_status th = THREAD_RUNNING" "t_elem th = None"
    "0 \<le> t_current_priority th" "t_current_priority th \<le> PRI_MAX"
    "sched_ok (running s) (idle_thread s) (running s) th" "rest_ok (idle_thread s) lvl (running s) th"
    "thread_current s = Some (running s)"
  using assms by (auto simp: cur_ok_def sched_ok_def thread_current_def)

lemma kinv_cur_ok:
  assumes "kinv s"
  obtains th where "cur_ok (intr_on s) s th" and "kinv_but {running s} s"
proof -
  obtain th where th: "threads s (running s) = Some th" "t_status th = THREAD_RUNNING"
    using assms by (auto simp: kinv_def cur_running_def)
  have k: "kinv_but {} s" using assms by (simp add: kinv_def)
  show thesis
    using that[of th] th inv_but_sched_ok[OF kinv_but_parts(1)[OF k] th(1)] kinv_but_rest[OF k th(1)]
      kinv_but_weaken[OF k, of "{running s}"]
    by (simp add: cur_ok_def)
qed

lemma kinv_intro:
  assumes "kinv_but {running s} s" and "cur_ok (intr_on s) s th" and "\<not> in_external_intr s"
  shows "kinv s"
proof -
  have "kinv_but {} s"
    using assms(1) cur_okD(1,6,7)[OF assms(2)] by (intro kinv_but_restore[of "running s" "{}"]) auto
  then show ?thesis using assms(2,3) by (auto simp: kinv_def cur_running_def cur_ok_def)
qed

lemma stack_kind_plain [simp]: "plain_frame k \<Longrightarrow> stack_kind idl ks \<Longrightarrow> stack_kind idl (k # ks)"
  by (cases k) (auto simp: stack_kind_def)

text \<open>The running thread behind the others of its priority, about to give up the processor.\<close>

definition yielding :: "kstate \<Rightarrow> thread \<Rightarrow> kstate" where
  "yielding s th = push_cont [K_intr_set_level (intr_on s)]
     (if idle_thread s = Some (running s) then intr_disable s
      else link (running s) (Ready (nat (t_current_priority th))) (intr_disable s))"

lemma thread_yield_switch:
  assumes k: "kinv_but {running s} s" and cur: "cur_ok (intr_on s) s th" and ext: "\<not> in_external_intr s"
  obtains n z where "thread_yield s = Some (switch_to n z (give_up THREAD_READY (yielding s th)))"
    and "next_run (yielding s th) n" and "kinv (switch_to n z (give_up THREAD_READY (yielding s th)))"
proof -
  note c = cur_okD[OF cur]
  let ?idle = "idle_thread s = Some (running s)" and ?q = "Ready (nat (t_current_priority th))"
  define s1 where "s1 = (if ?idle then intr_disable s else link (running s) ?q (intr_disable s))"
  define s2 where "s2 = push_cont [K_intr_set_level (intr_on s)] s1"
  have y: "yielding s th = s2" by (simp add: yielding_def s2_def s1_def)
  have r: "running s1 = running s" "idle_thread s1 = idle_thread s" "in_external_intr s1 = in_external_intr s"
    "\<not> intr_on s1" by (simp_all add: s1_def)
  have k0: "kinv_but {running s} (intr_disable s)"
    by (rule kinv_but_frame[OF k]) simp_all
  have k1: "kinv_but {running s} s1"
    using kinv_but_link[OF k0, of "running s" th ?q] c(1,3) by (simp add: s1_def k0)
  have k2: "kinv_but {running s2} s2"
    unfolding s2_def push_cont_def using k1 r by (simp add: kinv_but_upd)
  define th2 where "th2 = th\<lparr>t_elem := (if ?idle then None else Some ?q),
    t_cont := K_intr_set_level (intr_on s) # t_cont th\<rparr>"
  have t2: "threads s2 (running s2) = Some th2"
    using c(1,3) by (auto simp: s2_def push_cont_def r s1_def th2_def)
  have "thread_yield s = schedule (give_up THREAD_READY s2)"
  proof -
    have "elem_push_back ?q (running s) (intr_disable s) = Some s1" if "\<not> ?idle"
      using c that elem_push_back_eq[of "intr_disable s" "running s" th ?q] by (simp add: s1_def)
    moreover have "ready_list (t_current_priority th) = Some ?q" using c by (simp add: ready_list_def)
    ultimately show ?thesis
      using c(1,8) ext unfolding thread_yield_def c(8)
      by (cases ?idle) (simp_all add: Let_def s2_def give_up_def push_cont_def r not_sym, simp_all add: s1_def)
  qed
  moreover obtain n z where "schedule (give_up THREAD_READY s2) = Some (switch_to n z (give_up THREAD_READY s2))"
    "next_run s2 n" "kinv (switch_to n z (give_up THREAD_READY s2))"
  proof (rule schedule_give_up_switch[OF k2 t2, of THREAD_READY])
    have "rest_ok (idle_thread s) False (running s) th2"
      using c(2,7) by (auto simp: rest_ok_def th2_def)
    moreover have "sched_ok (running s) (idle_thread s) (running s) (th2\<lparr>t_status := THREAD_READY\<rparr>)"
      using c(6) by (auto simp: sched_ok_def th2_def)
    ultimately show "rest_ok (idle_thread s2) False (running s2) th2"
      "sched_ok (running s2) (idle_thread s2) (running s2) (th2\<lparr>t_status := THREAD_READY\<rparr>)"
      by (simp_all add: s2_def push_cont_def r)
  qed (use ext c(2) in \<open>simp_all add: s2_def push_cont_def r th2_def\<close>)
  ultimately show thesis using that unfolding y by simp
qed

text \<open>What a call that wakes threads leaves alone: the lists of waiters, semaphores and locks.\<close>

definition wakes_only :: "kstate \<Rightarrow> kstate \<Rightarrow> bool" where
  "wakes_only s s' \<longleftrightarrow> (\<forall>q. (\<forall>p. q \<noteq> Ready p) \<longrightarrow> queues s' q = queues s q) \<and>
     sema_value s' = sema_value s \<and> locks s' = locks s \<and> cond_waiters s' = cond_waiters s"

definition awake :: "kstate \<Rightarrow> nat \<Rightarrow> bool" where
  "awake s t \<longleftrightarrow> (case threads s t of
     Some th \<Rightarrow> t_status th = THREAD_READY \<or> t_status th = THREAD_RUNNING | None \<Rightarrow> False)"

lemma wakes_only_trans: "wakes_only s s1 \<Longrightarrow> wakes_only s1 s2 \<Longrightarrow> wakes_only s s2"
  unfolding wakes_only_def by simp

lemma next_run_remove1:
  assumes q: "queues_ok s" and n: "next_run s n" and i: "\<And>i thi. idle_thread s = Some i \<Longrightarrow> threads s i = Some thi \<Longrightarrow> t_elem thi = None"
    and r: "\<forall>p. q \<noteq> Ready p"
  shows "remove1 n (queues s q) = queues s q"
proof (rule remove1_idem, rule)
  assume "n \<in> set (queues s q)"
  then obtain th where th: "threads s n = Some th" "t_elem th = Some q" using queues_ok_in[OF q, of n q] by auto
  from n show False
    unfolding next_run_def
  proof (elim disjE exE conjE)
    fix p assume "queues s (Ready p) \<noteq> []" "n = hd (queues s (Ready p))"
    then have "n \<in> set (queues s (Ready p))" by simp
    then show False using queues_ok_in[OF q, of n "Ready p"] th r by auto
  next
    assume "idle_thread s = Some n" then show False using i[OF _ th(1)] th(2) by simp
  qed
qed

lemma yielding_frame [simp]:
  "running (yielding s th) = running s" "idle_thread (yielding s th) = idle_thread s"
  "initial_thread (yielding s th) = initial_thread s" "thread_mlfqs (yielding s th) = thread_mlfqs s"
  "sema_value (yielding s th) = sema_value s" "locks (yielding s th) = locks s"
  "cond_waiters (yielding s th) = cond_waiters s" "t \<noteq> running s \<Longrightarrow> threads (yielding s th) t = threads s t"
  "\<forall>p. q \<noteq> Ready p \<Longrightarrow> queues (yielding s th) q = queues s q"
  by (auto simp: yielding_def push_cont_def link_def upd_thread_def intr_disable_def)

lemma queues_ok_yielding:
  assumes "queues_ok s" and "threads s (running s) = Some th" and "t_elem th = None"
  shows "queues_ok (yielding s th)"
proof -
  have "queues_ok (intr_disable s)" using assms(1) by (simp add: queues_ok_def)
  then have "queues_ok (link (running s) q (intr_disable s))" for q
    using queues_ok_push_back[of "intr_disable s" "running s" th q] assms(2,3) by simp
  moreover have "queues_ok (push_cont ks u)" if "queues_ok u" for ks u
    by (rule queues_ok_cong[OF that]) (auto simp: push_cont_def upd_thread_def option.map_comp comp_def)
  ultimately show ?thesis
    unfolding yielding_def using \<open>queues_ok (intr_disable s)\<close> by auto
qed

lemma thread_yield_kinv:
  assumes k: "kinv_but {running s} s" and cur: "cur_ok (intr_on s) s th" and ext: "\<not> in_external_intr s"
  obtains s' where "thread_yield s = Some s'" and "kinv s'" and "wakes_only s s'"
    and "\<And>t. awake s t \<Longrightarrow> awake s' t"
proof (rule thread_yield_switch[OF assms])
  fix n z assume n: "thread_yield s = Some (switch_to n z (give_up THREAD_READY (yielding s th)))"
    "next_run (yielding s th) n" "kinv (switch_to n z (give_up THREAD_READY (yielding s th)))" (is "kinv ?s'")
  note c = cur_okD[OF cur]
  have q: "queues_ok (yielding s th)" by (rule queues_ok_yielding[OF kinv_but_parts(4)[OF k] c(1,3)])
  have i: "t_elem thi = None" if "idle_thread (yielding s th) = Some i" "threads (yielding s th) i = Some thi" for i thi
  proof (cases "i = running s")
    case True
    then have "idle_thread s = Some (running s)" using that(1) by simp
    with True that(2) c(1,3) show ?thesis by (auto simp: yielding_def push_cont_def)
  next
    case False
    then have "sched_ok (running s) (idle_thread s) i thi"
      using that kinv_but_parts(1)[OF k] by (auto simp: inv_but_def)
    with that False show ?thesis by (auto simp: sched_ok_def split: thread_status.splits)
  qed
  have "queues ?s' q = queues s q" if "\<forall>p. q \<noteq> Ready p" for q
    using next_run_remove1[OF q n(2) i that] that by simp
  then have w: "wakes_only s ?s'" by (simp add: wakes_only_def give_up_def upd_thread_def)
  have "awake ?s' t" if "awake s t" for t
    using that c(1,2) by (cases "t = running s") (auto simp: awake_def threads_switch_to give_up_def upd_thread_def yielding_def push_cont_def split: option.splits)
  from that[OF n(1,3) w this] show thesis .
qed

subsection \<open>Making a thread ready\<close>

definition make_ready :: "nat \<Rightarrow> nat \<Rightarrow> kstate \<Rightarrow> kstate" where
  "make_ready t p s = upd_thread t (\<lambda>th. th\<lparr>t_status := THREAD_READY\<rparr>) (link t (Ready p) s)"

lemma make_ready_frame [simp]:
  "threads (make_ready t p s) u =
     (if u = t then map_option (\<lambda>th. th\<lparr>t_elem := Some (Ready p), t_status := THREAD_READY\<rparr>) (threads s t)
      else threads s u)"
  "running (make_ready t p s) = running s" "idle_thread (make_ready t p s) = idle_thread s"
  "intr_on (make_ready t p s) = intr_on s" "in_external_intr (make_ready t p s) = in_external_intr s"
  "thread_mlfqs (make_ready t p s) = thread_mlfqs s" "locks (make_ready t p s) = locks s"
  "ticks (make_ready t p s) = ticks s" "load_avg (make_ready t p s) = load_avg s"
  "queues (make_ready t p s) = (queues s)(Ready p := queues s (Ready p) @ [t])"
  "yield_on_return (make_ready t p s) = yield_on_return s" "all_list (make_ready t p s) = all_list s"
  "thread_ticks (make_ready t p s) = thread_ticks s"
  by (auto simp: make_ready_def option.map_comp comp_def)

text \<open>A thread that has been taken off its queue and is about to be made ready.\<close>

definition wakes :: "kstate \<Rightarrow> nat \<Rightarrow> thread \<Rightarrow> bool" where
  "wakes s t th \<longleftrightarrow> threads s t = Some th \<and> t_status th = THREAD_BLOCKED \<and> t_elem th = None \<and>
     idle_thread s \<noteq> Some t \<and> t \<noteq> running s \<and>
     0 \<le> t_current_priority th \<and> t_current_priority th \<le> PRI_MAX \<and>
     0 \<le> t_priority th \<and> t_priority th \<le> PRI_MAX \<and> rest_ok (idle_thread s) False t th"

lemma thread_unblock_eq:
  assumes w: "wakes s t th" and cur: "threads s (running s) = Some cth" "t_status cth = THREAD_RUNNING"
    and ext: "intr_on s \<Longrightarrow> \<not> in_external_intr s"
  shows "thread_unblock t s =
    (if \<not> thread_mlfqs s \<and> t_current_priority th > t_current_priority cth \<and> idle_thread s \<noteq> Some (running s)
     then thread_yield (make_ready t (nat (t_current_priority th)) s)
     else Some (make_ready t (nat (t_current_priority th)) s))"
proof -
  let ?p = "nat (t_current_priority th)"
  have "elem_push_back (Ready ?p) t (intr_disable s) = Some (link t (Ready ?p) (intr_disable s))"
    using w by (intro elem_push_back_eq) (auto simp: wakes_def)
  moreover have "intr_set_level (intr_on s) (upd_thread t (\<lambda>th. th\<lparr>t_status := THREAD_READY\<rparr>)
      (link t (Ready ?p) (intr_disable s))) = Some (make_ready t ?p s)"
    using ext by (cases "intr_on s") (auto simp: intr_set_level_def intr_enable_def intr_disable_def make_ready_def
        link_def upd_thread_def intro!: kstate.equality)
  moreover have "thread_current (make_ready t ?p s) = Some (running s)"
    using cur w by (simp add: thread_current_def wakes_def)
  ultimately show ?thesis
    using w cur by (auto simp: thread_unblock_def Let_def is_thread_def wakes_def ready_list_def)
qed

lemma kinv_make_ready:
  assumes k: "kinv_but (insert t A) s" and w: "wakes s t th"
  shows "kinv_but A (make_ready t (nat (t_current_priority th)) s)"
proof -
  let ?s = "make_ready t (nat (t_current_priority th)) s"
  have "kinv_but (insert t A) (link t (Ready (nat (t_current_priority th))) s)"
    using w by (intro kinv_but_link[OF k]) (auto simp: wakes_def)
  then have "kinv_but (insert t A) ?s"
    unfolding make_ready_def using w by (intro kinv_but_upd) (auto simp: wakes_def)
  then show ?thesis
    using w by (rule_tac kinv_but_restore[of t A]) (auto simp: wakes_def sched_ok_def rest_ok_def)
qed

lemma thread_unblock_kinv:
  assumes k: "kinv_but {running s, t} s" and w: "wakes s t th" and cur: "cur_ok (intr_on s) s cth"
    and ext: "\<not> in_external_intr s"
  obtains s' where "thread_unblock t s = Some s'" and "kinv s'" and "wakes_only s s'"
    and "awake s' t"
proof -
  let ?s = "make_ready t (nat (t_current_priority th)) s"
  note c = cur_okD[OF cur]
  have k': "kinv_but {running ?s} ?s" using kinv_make_ready[of t "{running s}"] k w by (simp add: insert_commute)
  have cur': "cur_ok (intr_on ?s) ?s cth" using cur w by (auto simp: cur_ok_def wakes_def)
  note eq = thread_unblock_eq[OF w c(1,2)]
  have o: "wakes_only s ?s" by (auto simp: wakes_only_def make_ready_def link_def upd_thread_def)
  have t: "awake ?s t" using w by (simp add: wakes_def awake_def)
  show thesis
  proof (cases "\<not> thread_mlfqs s \<and> t_current_priority th > t_current_priority cth \<and> idle_thread s \<noteq> Some (running s)")
    case True
    obtain s' where s': "thread_yield ?s = Some s'" "kinv s'" "wakes_only ?s s'" "awake s' t"
      by (rule thread_yield_kinv[OF k' cur']) (use t ext in auto)
    show thesis
      by (rule that[OF _ s'(2) wakes_only_trans[OF o s'(3)] s'(4)]) (use eq True ext s'(1) in simp)
  next
    case False
    have "kinv ?s" by (rule kinv_intro[OF k' cur']) (simp add: ext)
    then show thesis by (rule that[OF _ _ o t, rotated]) (use eq False ext in auto)
  qed
qed

subsection \<open>Waiting in a queue and waking from it\<close>

lemma push_cont_frame [simp]:
  "threads (push_cont ks s) u =
     (if u = running s then map_option (\<lambda>th. th\<lparr>t_cont := ks @ t_cont th\<rparr>) (threads s u) else threads s u)"
  "running (push_cont ks s) = running s" "idle_thread (push_cont ks s) = idle_thread s"
  "intr_on (push_cont ks s) = intr_on s" "in_external_intr (push_cont ks s) = in_external_intr s"
  "thread_mlfqs (push_cont ks s) = thread_mlfqs s" "locks (push_cont ks s) = locks s"
  "queues (push_cont ks s) = queues s" "sema_value (push_cont ks s) = sema_value s"
  "ticks (push_cont ks s) = ticks s" "cond_waiters (push_cont ks s) = cond_waiters s"
  "yield_on_return (push_cont ks s) = yield_on_return s" "thread_ticks (push_cont ks s) = thread_ticks s"
  "all_list (push_cont ks s) = all_list s" "load_avg (push_cont ks s) = load_avg s"
  by (simp_all add: push_cont_def)

lemma kinv_but_push_cont: "kinv_but {running s} s \<Longrightarrow> kinv_but {running s} (push_cont ks s)"
  unfolding push_cont_def by (intro kinv_but_upd) auto

text \<open>The running thread puts itself into queue \<open>q\<close> and blocks.\<close>

lemma block_on_kinv:
  assumes k: "kinv_but {running s} s" and cur: "cur_ok lvl s th" and off: "\<not> intr_on s"
    and ext: "\<not> in_external_intr s" and idl: "idle_thread s \<noteq> Some (running s)" and q: "\<forall>p. q \<noteq> Ready p"
    and rest: "rest_ok (idle_thread s) False (running s) (th\<lparr>t_cont := ks @ t_cont th\<rparr>)"
  obtains s' where "thread_block (push_cont ks (link (running s) q s)) = Some s'" and "kinv s'"
proof -
  note c = cur_okD[OF cur]
  let ?s = "push_cont ks (link (running s) q s)"
  have "kinv_but {running s} (link (running s) q s)" using kinv_but_link[OF k] c(1,3) by simp
  from kinv_but_push_cont[of "link (running s) q s"] this have k': "kinv_but {running ?s} ?s" by simp
  let ?th = "th\<lparr>t_elem := Some q, t_cont := ks @ t_cont th\<rparr>"
  show thesis
  proof (rule thread_block_kinv[OF k', of ?th])
    show "sched_ok (running ?s) (idle_thread ?s) (running ?s) (?th\<lparr>t_status := THREAD_BLOCKED\<rparr>)"
      using c(6) idl q by (auto simp: sched_ok_def)
    show "rest_ok (idle_thread ?s) False (running ?s) ?th"
      using rest c(2) by (simp add: rest_ok_def)
  qed (use c that off ext in auto)
qed

lemma queued_thread:
  assumes k: "kinv_but {running s} s" and cur: "threads s (running s) = Some th" "t_elem th = None"
    and w: "w \<in> set (queues s q)" and q: "\<forall>p. q \<noteq> Ready p"
  obtains thw where "wakes (unlink w s) w (thw\<lparr>t_elem := None\<rparr>)" and "threads s w = Some thw"
    and "t_elem thw = Some q" and "w \<noteq> running s"
proof -
  note p = kinv_but_parts[OF k]
  obtain thw where thw: "threads s w = Some thw" "t_elem thw = Some q"
    using queues_ok_in[OF p(4)] w by blast
  have ne: "w \<noteq> running s" using thw cur by auto
  have ok: "sched_ok (running s) (idle_thread s) w thw" using inv_but_sched_ok[OF p(1) thw(1)] ne by simp
  have r: "rest_ok (idle_thread s) False w thw" using kinv_but_rest[OF k thw(1)] ne by simp
  have "t_status thw = THREAD_BLOCKED \<and> idle_thread s \<noteq> Some w"
    using ok thw(2) q by (auto simp: sched_ok_def split: thread_status.splits if_splits)
  with ok r ne thw that[of thw] show thesis by (auto simp: wakes_def sched_ok_def)
qed

lemma kinv_but_perm:
  assumes k: "kinv_but A s" and "\<And>q. mset (f q) = mset (queues s q)"
  shows "kinv_but A (s\<lparr>queues := f\<rparr>)"
proof -
  have "distinct (f q) = distinct (queues s q)" "set (f q) = set (queues s q)" for q
    using assms(2)[of q] by (metis mset_eq_imp_distinct_iff, metis mset_eq_setD)
  then have "queues_ok (s\<lparr>queues := f\<rparr>)" using kinv_but_parts(4)[OF k] by (simp add: queues_ok_def)
  with k show ?thesis by (simp add: kinv_but_def inv_but_def locks_ok_def all_ok_def)
qed

lemma wake_first_kinv:
  assumes k: "kinv_but {running s} s" and cur: "cur_ok lvl s th" and off: "\<not> intr_on s"
    and ext: "\<not> in_external_intr s" and q: "\<forall>p. q \<noteq> Ready p" and ne: "queues s q \<noteq> []"
  obtains s' where "do { (s, waiter) \<leftarrow> elem_pop_front q (sort_waiters q s);
      thread_unblock waiter (push_cont [K_intr_set_level lvl] s) } = Some s'" and "kinv s'"
    and "awake s' (hd (sort_by (priority_great s) (queues s q)))"
    and "queues s' q = tl (sort_by (priority_great s) (queues s q))"
    and "sema_value s' = sema_value s" and "locks s' = locks s"
proof -
  note c = cur_okD[OF cur]
  define s1 where "s1 = sort_waiters q s"
  have f1: "threads s1 = threads s" "running s1 = running s" "idle_thread s1 = idle_thread s"
    "intr_on s1 = intr_on s" "in_external_intr s1 = in_external_intr s"
    by (simp_all add: s1_def sort_waiters_def)
  have k1: "kinv_but {running s1} s1"
    unfolding s1_def sort_waiters_def using kinv_but_perm[OF k] by simp
  have "queues s1 q \<noteq> []" using ne by (simp add: s1_def sort_waiters_def flip: length_greater_0_conv)
  then obtain w ws where w: "queues s1 q = w # ws" by (cases "queues s1 q") auto
  have c1: "threads s1 (running s1) = Some th" using c(1) f1 by simp
  obtain thw where thw: "wakes (unlink w s1) w (thw\<lparr>t_elem := None\<rparr>)" "threads s1 w = Some thw"
    "t_elem thw = Some q" "w \<noteq> running s1"
    by (rule queued_thread[OF k1 c1 c(3) _ q, of w]) (use w in auto)
  have pop: "elem_pop_front q s1 = Some (unlink w s1, w)"
    using w elem_remove_eq[OF kinv_but_parts(4)[OF k1] thw(2,3)] by (simp add: elem_pop_front_def)
  let ?s = "push_cont [K_intr_set_level lvl] (unlink w s1)"
  have "kinv_but {running s, w} (unlink w s1)"
    using kinv_but_unlink[OF kinv_but_weaken[OF k1, of "{running s, w}"], of w] f1(2) by simp
  then have k2: "kinv_but {running ?s, w} ?s"
    unfolding push_cont_def using f1(2) by (simp add: kinv_but_upd)
  have w2: "wakes ?s w (thw\<lparr>t_elem := None\<rparr>)" using thw(1,4) by (auto simp: wakes_def)
  have cur2: "cur_ok (intr_on ?s) ?s (th\<lparr>t_cont := K_intr_set_level lvl # t_cont th\<rparr>)"
    using c f1 thw(4) off by (auto simp: cur_ok_def sched_ok_def rest_ok_def)
  obtain s' where s': "thread_unblock w ?s = Some s'" "kinv s'" "wakes_only ?s s'" "awake s' w"
    by (rule thread_unblock_kinv[OF k2 w2 cur2]) (use f1 ext in simp)
  have srt: "sort_by (priority_great s) (queues s q) = w # ws" using w by (simp add: s1_def sort_waiters_def)
  have "queues ?s q = ws" using w by (simp add: unlink_def upd_thread_def)
  then have "queues s' q = ws" using s'(3) q by (simp add: wakes_only_def)
  moreover have "sema_value s' = sema_value s" "locks s' = locks s"
    using s'(3) by (simp_all add: wakes_only_def s1_def sort_waiters_def unlink_def upd_thread_def)
  moreover have "do { (s, waiter) \<leftarrow> elem_pop_front q (sort_waiters q s);
      thread_unblock waiter (push_cont [K_intr_set_level lvl] s) } = Some s'"
    using pop s'(1) by (simp add: s1_def)
  ultimately show thesis using that[of s'] s'(2,4) srt by simp
qed

subsection \<open>Semaphores\<close>

lemma kinv_set_level:
  assumes k: "kinv_but {running s} s" and cur: "cur_ok lvl s th" and ext: "\<not> in_external_intr s"
  shows "intr_set_level lvl s = Some (s\<lparr>intr_on := lvl\<rparr>)" and "kinv (s\<lparr>intr_on := lvl\<rparr>)"
proof -
  show "intr_set_level lvl s = Some (s\<lparr>intr_on := lvl\<rparr>)" using ext by (rule intr_disable_set_level)
  have "kinv_but {running s} (s\<lparr>intr_on := lvl\<rparr>)" by (rule kinv_but_frame[OF k]) simp_all
  then show "kinv (s\<lparr>intr_on := lvl\<rparr>)"
    using cur ext by (intro kinv_intro[where th = th]) (simp_all add: cur_ok_def)
qed

lemma sema_down_loop_kinv:
  assumes k: "kinv_but {running s} s" and cur: "cur_ok lvl s th" and off: "\<not> intr_on s"
    and ext: "\<not> in_external_intr s" and idl: "idle_thread s \<noteq> Some (running s)"
  obtains s' where "sema_down_loop sm lvl s = Some s'" and "kinv s'"
proof (cases "sema_value s sm = 0")
  case True
  note c = cur_okD[OF cur]
  have r: "rest_ok (idle_thread s) False (running s) (th\<lparr>t_cont := [K_sema_down_loop sm lvl] @ t_cont th\<rparr>)"
    using c(2,7) idl by (auto simp: rest_ok_def stack_kind_def)
  obtain s' where "thread_block (push_cont [K_sema_down_loop sm lvl] (link (running s) (Sema_waiters sm) s)) = Some s'"
    "kinv s'" by (rule block_on_kinv[OF k cur off ext idl _ r, of "Sema_waiters sm"]) auto
  with that True c elem_push_back_eq[OF c(1,3)] show thesis by (simp add: sema_down_loop_def)
next
  case False
  let ?s = "s\<lparr>sema_value := (sema_value s)(sm := sema_value s sm - 1)\<rparr>"
  have "kinv_but {running ?s} ?s" "cur_ok lvl ?s th"
    using kinv_but_frame[OF k, of ?s] cur by (simp_all add: cur_ok_def)
  from kinv_set_level[OF this] False ext that show thesis by (simp add: sema_down_loop_def)
qed

lemma kinv_but_intr_disable:
  assumes "kinv_but {running s} s"
  shows "kinv_but {running s} (intr_disable s)"
  by (rule kinv_but_frame[OF assms]) simp_all

lemma cur_ok_intr_disable [simp]: "cur_ok lvl (intr_disable s) th = cur_ok lvl s th"
  by (simp add: cur_ok_def)

lemma sema_down_kinv:
  assumes "kinv_but {running s} s" and "cur_ok (intr_on s) s th" and "\<not> in_external_intr s"
    and "idle_thread s \<noteq> Some (running s)"
  obtains s' where "sema_down sm s = Some s'" and "kinv s'"
proof -
  obtain s' where "sema_down_loop sm (intr_on s) (intr_disable s) = Some s'" "kinv s'"
    by (rule sema_down_loop_kinv[of "intr_disable s" "intr_on s" th sm])
      (use assms kinv_but_intr_disable[OF assms(1)] in auto)
  with that assms(3) show thesis by (simp add: sema_down_def)
qed

lemma sema_up_effect:
  assumes k: "kinv_but {running s} s" and cur: "cur_ok (intr_on s) s th" and ext: "\<not> in_external_intr s"
  obtains s' where "sema_up sm s = Some s'" and "kinv s'" and "sema_value s' sm = sema_value s sm + 1"
    and "queues s (Sema_waiters sm) \<noteq> [] \<Longrightarrow>
      awake s' (hd (sort_by (priority_great s) (queues s (Sema_waiters sm)))) \<and>
      queues s' (Sema_waiters sm) = tl (sort_by (priority_great s) (queues s (Sema_waiters sm)))"
proof -
  let ?s = "(intr_disable s)\<lparr>sema_value := (sema_value s)(sm := sema_value s sm + 1)\<rparr>"
  have k': "kinv_but {running ?s} ?s" and cur': "cur_ok (intr_on s) ?s th"
    using kinv_but_frame[OF k, of ?s] cur by (simp_all add: cur_ok_def)
  show thesis
  proof (cases "queues s (Sema_waiters sm) = []")
    case True
    from kinv_set_level[OF k' cur'] ext True that show thesis by (simp add: sema_up_def Let_def)
  next
    case False
    have pg: "priority_great ?s = priority_great s"
      by (simp add: fun_eq_iff priority_great_def current_priority_of_def)
    obtain s' where s': "do { (s2, waiter) \<leftarrow> elem_pop_front (Sema_waiters sm) (sort_waiters (Sema_waiters sm) ?s);
        thread_unblock waiter (push_cont [K_intr_set_level (intr_on s)] s2) } = Some s'" "kinv s'"
      "awake s' (hd (sort_by (priority_great ?s) (queues ?s (Sema_waiters sm))))"
      "queues s' (Sema_waiters sm) = tl (sort_by (priority_great ?s) (queues ?s (Sema_waiters sm)))"
      "sema_value s' = sema_value ?s"
      by (rule wake_first_kinv[OF k' cur', of "Sema_waiters sm"]) (use ext False in simp_all)
    show thesis
      by (rule that[of s']) (use s' False pg in \<open>simp_all add: sema_up_def Let_def\<close>)
  qed
qed

lemma sema_up_kinv:
  assumes k: "kinv_but {running s} s" and cur: "cur_ok (intr_on s) s th" and ext: "\<not> in_external_intr s"
  obtains s' where "sema_up sm s = Some s'" and "kinv s'"
  by (rule sema_up_effect[OF assms]) (rule that)

subsection \<open>Priority donation\<close>

text \<open>What a step that stays in the running thread leaves alone.\<close>

definition same_frame :: "kstate \<Rightarrow> kstate \<Rightarrow> bool" where
  "same_frame s s' \<longleftrightarrow> running s' = running s \<and> idle_thread s' = idle_thread s \<and> intr_on s' = intr_on s \<and>
     in_external_intr s' = in_external_intr s \<and> thread_mlfqs s' = thread_mlfqs s"

text \<open>A ready thread whose priority has changed moves to the end of its new ready list.\<close>

lemma requeue_ready:
  assumes k: "kinv_but (insert h A) s" and h: "threads s h = Some th" "h \<noteq> running s"
    "t_status th = THREAD_READY" "idle_thread s \<noteq> Some h" "t_elem th = Some q"
    and p: "0 \<le> t_current_priority th" "t_current_priority th \<le> PRI_MAX"
      "0 \<le> t_priority th" "t_priority th \<le> PRI_MAX" and rest: "rest_ok (idle_thread s) False h th"
  defines "p \<equiv> t_current_priority th"
  shows "do { s \<leftarrow> elem_remove h s; q \<leftarrow> ready_list p; elem_push_back q h s } =
           Some (link h (Ready (nat p)) (unlink h s))"
    and "kinv_but A (link h (Ready (nat p)) (unlink h s))"
proof -
  have "elem_remove h s = Some (unlink h s)"
    using elem_remove_eq[OF kinv_but_parts(4)[OF k] h(1,5)] .
  moreover have "elem_push_back (Ready (nat p)) h (unlink h s) = Some (link h (Ready (nat p)) (unlink h s))"
    using h(1) by (intro elem_push_back_eq) auto
  ultimately show "do { s \<leftarrow> elem_remove h s; q \<leftarrow> ready_list p; elem_push_back q h s } =
           Some (link h (Ready (nat p)) (unlink h s))"
    using p(1,2) by (simp add: ready_list_def p_def)
  have "kinv_but (insert h A) (link h (Ready (nat p)) (unlink h s))"
    using h(1) kinv_but_unlink[OF k, of h] by (intro kinv_but_link) auto
  then show "kinv_but A (link h (Ready (nat p)) (unlink h s))"
    using h p rest by (rule_tac kinv_but_restore[of h A]) (auto simp: sched_ok_def p_def)
qed

lemma unblock_blocked:
  assumes k: "kinv_but {running s} s" and cur: "cur_ok lvl s th"
    and h: "threads s h = Some hth" "h \<noteq> running s"
    "t_status hth = THREAD_BLOCKED" "idle_thread s \<noteq> Some h"
    and p: "0 \<le> p" "p \<le> t_current_priority th" and ext: "\<not> in_external_intr s"
  defines "s0 \<equiv> upd_thread h (\<lambda>th. th\<lparr>t_current_priority := p\<rparr>) s"
  shows "do { s \<leftarrow> elem_remove h s0; thread_unblock h s } = Some (make_ready h (nat p) (unlink h s0))"
    and "kinv_but {running s} (make_ready h (nat p) (unlink h s0))"
proof -
  note c = cur_okD[OF cur]
  have ok: "sched_ok (running s) (idle_thread s) h hth"
    using inv_but_sched_ok[OF kinv_but_parts(1)[OF k] h(1)] h(2) by simp
  then obtain q where el: "t_elem hth = Some q" using h(3,4) by (auto simp: sched_ok_def)
  have k0: "kinv_but {h, running s} s0"
    unfolding s0_def by (rule kinv_but_upd[OF kinv_but_weaken[OF k]]) auto
  let ?h = "hth\<lparr>t_current_priority := p, t_elem := None\<rparr>"
  have t0: "threads s0 h = Some (hth\<lparr>t_current_priority := p\<rparr>)" using h(1) by (simp add: s0_def)
  have rm: "elem_remove h s0 = Some (unlink h s0)"
    using elem_remove_eq[OF kinv_but_parts(4)[OF k0] t0] el by simp
  have w: "wakes (unlink h s0) h ?h"
    using ok h p c(5) kinv_but_rest[OF k h(1)] by (auto simp: wakes_def s0_def sched_ok_def)
  have cu: "threads (unlink h s0) (running (unlink h s0)) = Some th" using c(1) h(2) by (simp add: s0_def)
  show "do { s \<leftarrow> elem_remove h s0; thread_unblock h s } = Some (make_ready h (nat p) (unlink h s0))"
    using rm thread_unblock_eq[OF w cu c(2)] p ext by (auto simp: s0_def)
  show "kinv_but {running s} (make_ready h (nat p) (unlink h s0))"
    using kinv_make_ready[OF kinv_but_unlink[OF k0, of h] w] by simp
qed

lemma thread_promote_kinv:
  assumes k: "kinv_but {running s} s" and cur: "cur_ok lvl s th" and ext: "\<not> in_external_intr s"
    and h: "threads s h = Some hth" "h \<noteq> running s" "t_status hth \<noteq> THREAD_DYING" "idle_thread s \<noteq> Some h"
    and m: "\<not> thread_mlfqs s" and lt: "t_current_priority hth < t_current_priority th"
  obtains s' where "thread_promote h s = Some s'" and "kinv_but {running s} s'" and "cur_ok lvl s' th"
    and "same_frame s s'" and "locks s' = locks s"
proof -
  note c = cur_okD[OF cur]
  let ?p = "t_current_priority th"
  let ?s = "upd_thread h (\<lambda>th. th\<lparr>t_current_priority := ?p\<rparr>) s"
  have "thread_get_priority s = Some ?p" using c by (simp add: thread_get_priority_def)
  then have pr: "thread_promote h s = thread_on_priority_change h ?p ?s"
    using h(1) m lt by (simp add: thread_promote_def Let_def)
  have "t_status hth \<noteq> THREAD_RUNNING"
    using inv_but_sched_ok[OF kinv_but_parts(1)[OF k] h(1)] h(2) by (auto simp: sched_ok_def)
  then consider "t_status hth = THREAD_READY" | "t_status hth = THREAD_BLOCKED"
    using h(3) by (cases "t_status hth") auto
  then show thesis
  proof cases
    case 1
    have ok: "sched_ok (running s) (idle_thread s) h hth"
      using inv_but_sched_ok[OF kinv_but_parts(1)[OF k] h(1)] h(2) by simp
    have k0: "kinv_but (insert h {running s}) ?s"
      by (rule kinv_but_upd[OF kinv_but_weaken[OF k]]) auto
    note r = requeue_ready[OF k0, of "hth\<lparr>t_current_priority := ?p\<rparr>" "Ready (nat (t_current_priority hth))"]
    show thesis
      by (rule that[of "link h (Ready (nat ?p)) (unlink h ?s)"])
        (use r pr c h 1 ok kinv_but_rest[OF k h(1)] in
          \<open>auto simp: thread_on_priority_change_def same_frame_def cur_ok_def sched_ok_def\<close>)
  next
    case 2
    note r = unblock_blocked[OF k cur h(1,2) 2 h(4), of ?p]
    show thesis
      by (rule that[of "make_ready h (nat ?p) (unlink h ?s)"])
        (use r pr c h 2 ext in \<open>auto simp: thread_on_priority_change_def same_frame_def cur_ok_def\<close>)
  qed
qed

subsection \<open>Locks\<close>

lemma upd_lock_frame [simp]:
  "threads (upd_lock l f s) = threads s" "queues (upd_lock l f s) = queues s"
  "running (upd_lock l f s) = running s" "idle_thread (upd_lock l f s) = idle_thread s"
  "intr_on (upd_lock l f s) = intr_on s" "in_external_intr (upd_lock l f s) = in_external_intr s"
  "thread_mlfqs (upd_lock l f s) = thread_mlfqs s" "all_list (upd_lock l f s) = all_list s"
  "load_avg (upd_lock l f s) = load_avg s" "locks (upd_lock l f s) = (locks s)(l := f (locks s l))"
  by (simp_all add: upd_lock_def)

lemma cur_ok_upd_lock [simp]: "cur_ok lvl (upd_lock l f s) th = cur_ok lvl s th"
  by (simp add: cur_ok_def)

lemma kinv_but_bounty:
  assumes "kinv_but A s" and "0 \<le> p" and "p \<le> PRI_MAX"
  shows "kinv_but A (upd_lock l (\<lambda>k. k\<lparr>bounty := p\<rparr>) s)"
  using assms by (auto simp: kinv_but_def inv_but_def queues_ok_def locks_ok_def all_ok_def)

text \<open>The running thread and a lock change hands together.\<close>

lemma kinv_but_owned:
  assumes k: "kinv_but {running s} s" and t: "threads s (running s) = Some th" "t_status th = THREAD_RUNNING"
    and lk: "locks_ok (upd_lock l (\<lambda>k. k\<lparr>holder := h\<rparr>) (upd_thread (running s) (\<lambda>th. th\<lparr>t_owned_locks := ls\<rparr>) s))"
  shows "kinv_but {running s} (upd_lock l (\<lambda>k. k\<lparr>holder := h\<rparr>) (upd_thread (running s) (\<lambda>th. th\<lparr>t_owned_locks := ls\<rparr>) s))"
    (is "kinv_but _ ?s")
proof (rule kinv_butI)
  note p = kinv_but_parts[OF k]
  have "inv_but {running s} (upd_thread (running s) (\<lambda>th. th\<lparr>t_owned_locks := ls\<rparr>) s)"
    using p(1) t by (intro inv_but_upd) auto
  then show "inv_but {running s} ?s" by (rule inv_but_frame) auto
  show "all_ok ?s" using p(3) by (rule all_ok_cong) (auto split: if_splits)
  show "rest_ok (idle_thread ?s) (u = running ?s \<and> intr_on ?s) u thu"
    if "threads ?s u = Some thu" "u \<notin> {running s}" for u thu
    using that kinv_but_rest[OF k, of u thu] by (auto split: if_splits)
qed (rule lk)

lemma lock_take_kinv:
  assumes k: "kinv_but {running s} s" and cur: "cur_ok lvl s th" and free: "holder (locks s l) = None"
    and acq: "l \<notin> set (acquires (t_cont th))" and idl: "idle_thread s \<noteq> Some (running s)"
  obtains s' where "lock_take l s = Some s'" and "kinv_but {running s} s'" and "same_frame s s'"
    and "cur_ok lvl s' (th\<lparr>t_owned_locks := t_owned_locks th @ [l]\<rparr>)"
    and "holder (locks s' l) = Some (running s)"
proof -
  note c = cur_okD[OF cur]
  let ?f = "\<lambda>th. th\<lparr>t_owned_locks := t_owned_locks th @ [l]\<rparr>" and ?g = "\<lambda>x. x\<lparr>t_owned_locks := t_owned_locks th @ [l]\<rparr>"
  let ?s = "upd_lock l (\<lambda>k. k\<lparr>holder := Some (running s)\<rparr>) (upd_thread (running s) ?g s)"
  have lk: "locks_ok s" by (rule kinv_but_parts(2)[OF k])
  then have no: "l \<notin> set (t_owned_locks tht)" if "threads s t = Some tht" for t tht
    using that free unfolding locks_ok_def by (metis option.distinct(1))
  have "locks_ok ?s"
    using lk no c(1) unfolding locks_ok_def by (auto split: if_splits)
  from kinv_but_owned[OF k c(1,2) this] have k': "kinv_but {running s} ?s" .
  have "upd_thread (running s) ?f s = upd_thread (running s) ?g s"
    using c(1) by (simp add: upd_thread_def)
  then have "lock_take l s = Some ?s" using c by (simp add: lock_take_def)
  moreover have "cur_ok lvl ?s (?f th)"
    using c no[OF c(1)] acq idl by (auto simp: cur_ok_def sched_ok_def rest_ok_def)
  ultimately show thesis using that[of ?s] k' by (simp add: same_frame_def)
qed

lemma kinv_but_running: "kinv_but {running s} s' \<Longrightarrow> running s' = running s \<Longrightarrow> kinv_but {running s'} s'"
  by simp

lemma lock_acquire_loop_kinv:
  assumes k: "kinv_but {running s} s" and cur: "cur_ok lvl s th" and off: "\<not> intr_on s"
    and ext: "\<not> in_external_intr s" and idl: "idle_thread s \<noteq> Some (running s)"
    and acq: "acquires (t_cont th) = []" and own: "l \<notin> set (t_owned_locks th)"
  obtains s' where "lock_acquire_loop l lvl s = Some s'" and "kinv s'"
proof (cases "holder (locks s l)")
  case None
  obtain s1 where s1: "lock_take l s = Some s1" "kinv_but {running s} s1" "same_frame s s1"
    "cur_ok lvl s1 (th\<lparr>t_owned_locks := t_owned_locks th @ [l]\<rparr>)"
    by (rule lock_take_kinv[OF k cur None _ idl]) (use acq in auto)
  from kinv_set_level[OF kinv_but_running[OF s1(2)] s1(4)] s1(1,3) None ext that show thesis
    by (simp add: lock_acquire_loop_def same_frame_def)
next
  case (Some h)
  note c = cur_okD[OF cur]
  obtain hth where h: "threads s h = Some hth" "l \<in> set (t_owned_locks hth)"
    using kinv_but_parts(2)[OF k] Some unfolding locks_ok_def by blast
  have ne: "h \<noteq> running s" using h c(1) own by auto
  have hr: "t_status hth \<noteq> THREAD_DYING" "idle_thread s \<noteq> Some h"
    using kinv_but_rest[OF k h(1)] ne h(2) by (auto simp: rest_ok_def)
  let ?p = "t_current_priority th"
  define s1 where "s1 = upd_lock l (\<lambda>k. k\<lparr>bounty := ?p\<rparr>) s"
  obtain s2 where s2: "(if \<not> thread_mlfqs s \<and> t_current_priority hth < ?p then thread_promote h s1 else Some s) = Some s2"
    "kinv_but {running s} s2" "cur_ok lvl s2 th" "same_frame s s2"
  proof (cases "\<not> thread_mlfqs s \<and> t_current_priority hth < ?p")
    case True
    have k1: "kinv_but {running s1} s1" using kinv_but_bounty[OF k c(4,5)] by (simp add: s1_def)
    obtain s2 where "thread_promote h s1 = Some s2" "kinv_but {running s1} s2" "cur_ok lvl s2 th" "same_frame s1 s2"
      by (rule thread_promote_kinv[OF k1, of lvl th h hth]) (use cur ext h ne hr True in \<open>auto simp: s1_def\<close>)
    with True that show thesis by (simp add: s1_def same_frame_def)
  next
    case False
    show thesis by (rule that[of s]) (use k cur False in \<open>auto simp: same_frame_def\<close>)
  qed
  note c2 = cur_okD[OF s2(3)]
  have r: "rest_ok (idle_thread s2) False (running s2) (th\<lparr>t_cont := [K_lock_acquire_loop l lvl] @ t_cont th\<rparr>)"
    using c2(2,7) idl acq own s2(4) by (auto simp: rest_ok_def stack_kind_def same_frame_def)
  obtain s' where "thread_block (push_cont [K_lock_acquire_loop l lvl] (link (running s2) (Lock_waiters l) s2)) = Some s'" "kinv s'"
    by (rule block_on_kinv[OF kinv_but_running[OF s2(2)] s2(3) _ _ _ _ r, of "Lock_waiters l"])
      (use s2(4) off ext idl in \<open>auto simp: same_frame_def\<close>)
  moreover have "running s2 = running s" using s2(4) by (simp add: same_frame_def)
  ultimately have "lock_acquire_loop l lvl s = Some s'"
    using elem_push_back_eq[OF c2(1,3), of "Lock_waiters l"]
    by (simp only: lock_acquire_loop_def Some option.case h(1) c(1,8) Option.bind_lunit s2(1)[unfolded s1_def])
  with that \<open>kinv s'\<close> show thesis by blast
qed

end
