(* ===== verification/Pintos_Kernel_Ops.thy ===== *)
theory Pintos_Kernel_Ops
  imports Pintos_Kernel
begin

section \<open>Calls of the kernel keep its invariant\<close>

text \<open>
  The remaining calls: locks and condition variables, priorities, creation and exit of threads,
  sleeping and the timer interrupt. The last part puts all of them together as the steps of the
  kernel.
\<close>

subsection \<open>Locks\<close>

lemma lock_acquire_kinv:
  assumes k: "kinv_but {running s} s" and cur: "cur_ok (intr_on s) s th" and ext: "\<not> in_external_intr s"
    and idl: "idle_thread s \<noteq> Some (running s)"
    and acq: "acquires (t_cont th) = []" and own: "l \<notin> set (t_owned_locks th)"
  obtains s' where "lock_acquire l s = Some s'" and "kinv s'"
proof -
  note c = cur_okD[OF cur]
  have "holder (locks s l) \<noteq> Some (running s)"
    using kinv_but_parts(2)[OF k] c(1) own by (auto simp: locks_ok_def)
  then have "lock_held_by_current_thread l s = Some False"
    using c(8) by (simp add: lock_held_by_current_thread_def)
  moreover obtain s' where "lock_acquire_loop l (intr_on s) (intr_disable s) = Some s'" "kinv s'"
    by (rule lock_acquire_loop_kinv[of "intr_disable s" "intr_on s" th l])
      (use kinv_but_intr_disable[OF k] cur ext idl acq own in auto)
  ultimately show thesis using that ext by (simp add: lock_acquire_def)
qed

lemma lock_try_acquire_kinv:
  assumes k: "kinv_but {running s} s" and cur: "cur_ok (intr_on s) s th" and ext: "\<not> in_external_intr s"
    and idl: "idle_thread s \<noteq> Some (running s)"
    and acq: "acquires (t_cont th) = []" and own: "l \<notin> set (t_owned_locks th)"
  obtains s' b where "lock_try_acquire l s = Some (s', b)" and "kinv s'"
    and "b = (holder (locks s l) = None)" and "b \<Longrightarrow> holder (locks s' l) = Some (running s)"
proof -
  note c = cur_okD[OF cur]
  have "holder (locks s l) \<noteq> Some (running s)"
    using kinv_but_parts(2)[OF k] c(1) own by (auto simp: locks_ok_def)
  then have held: "lock_held_by_current_thread l s = Some False"
    using c(8) by (simp add: lock_held_by_current_thread_def)
  let ?s = "intr_disable s"
  have k': "kinv_but {running ?s} ?s" and cur': "cur_ok (intr_on s) ?s th"
    using kinv_but_intr_disable[OF k] cur by simp_all
  show thesis
  proof (cases "holder (locks s l) = None")
    case True
    obtain s1 where s1: "lock_take l ?s = Some s1" "kinv_but {running ?s} s1" "same_frame ?s s1"
      "cur_ok (intr_on s) s1 (th\<lparr>t_owned_locks := t_owned_locks th @ [l]\<rparr>)" "holder (locks s1 l) = Some (running ?s)"
      by (rule lock_take_kinv[OF k' cur', of l]) (use True acq idl in auto)
    have r: "running s1 = running s" "\<not> in_external_intr s1" using s1(3) ext by (auto simp: same_frame_def)
    note lv = kinv_set_level[OF kinv_but_running[OF s1(2)] s1(4)]
    show thesis
      by (rule that[of "s1\<lparr>intr_on := intr_on s\<rparr>" True])
        (use lv held True s1 r in \<open>auto simp: lock_try_acquire_def Let_def\<close>)
  next
    case False
    from kinv_set_level[OF k' cur'] ext have "intr_set_level (intr_on s) ?s = Some (?s\<lparr>intr_on := intr_on s\<rparr>)"
      "kinv (?s\<lparr>intr_on := intr_on s\<rparr>)" by simp_all
    then show thesis
      by (intro that[of "?s\<lparr>intr_on := intr_on s\<rparr>" False])
        (use held False in \<open>auto simp: lock_try_acquire_def Let_def\<close>)
  qed
qed

lemma demote_loop_bounds:
  assumes "\<And>l. lo \<le> bounty (ls l) \<and> bounty (ls l) \<le> hi" and "lo \<le> p" and "p \<le> hi"
  shows "lo \<le> demote_loop ls es p \<and> demote_loop ls es p \<le> hi"
  using assms(2,3) by (induction es arbitrary: p) (use assms(1) in auto)

lemma demote_loop_Max:
  "demote_loop ls es p = Max (insert p ((\<lambda>l. bounty (ls l)) ` set es))"
proof (induction es arbitrary: p)
  case (Cons l es)
  have "demote_loop ls (l # es) p = demote_loop ls es (max (bounty (ls l)) p)" by (simp add: max_def)
  also have "\<dots> = Max (insert (max (bounty (ls l)) p) ((\<lambda>l. bounty (ls l)) ` set es))" by (rule Cons.IH)
  also have "\<dots> = Max (insert p (insert (bounty (ls l)) ((\<lambda>l. bounty (ls l)) ` set es)))"
    by (cases "set es = {}") (auto simp: Max_insert max.assoc max.commute max.left_commute)
  finally show ?case by simp
qed simp

lemma thread_demote_kinv:
  assumes k: "kinv_but {running s} s" and cur: "cur_ok lvl s th" and m: "\<not> thread_mlfqs s"
  obtains s' th' where "thread_demote s = Some s'" and "kinv_but {running s} s'" and "cur_ok lvl s' th'"
    and "same_frame s s'" and "locks s' = locks s" and "queues s' = queues s"
    and "t_current_priority th' = Max (insert (t_priority th) ((\<lambda>l. bounty (locks s l)) ` set (t_owned_locks th)))"
    and "t_priority th' = t_priority th"
proof -
  note c = cur_okD[OF cur]
  let ?p = "demote_loop (locks s) (t_owned_locks th) (t_priority th)"
  let ?s = "upd_thread (running s) (\<lambda>th. th\<lparr>t_current_priority := ?p\<rparr>) s"
  have p: "0 \<le> ?p \<and> ?p \<le> PRI_MAX"
    by (rule demote_loop_bounds) (use kinv_but_parts(2)[OF k] c(6) in \<open>auto simp: locks_ok_def sched_ok_def\<close>)
  have "thread_demote s = Some ?s"
    using c m by (simp add: thread_demote_def thread_on_priority_change_def Let_def)
  moreover have "kinv_but {running s} ?s" by (rule kinv_but_upd[OF k]) auto
  moreover have "cur_ok lvl ?s (th\<lparr>t_current_priority := ?p\<rparr>)"
    using c p by (auto simp: cur_ok_def sched_ok_def)
  ultimately show thesis
    using that[of ?s "th\<lparr>t_current_priority := ?p\<rparr>"] by (simp add: same_frame_def demote_loop_Max)
qed

definition give_back :: "nat \<Rightarrow> kstate \<Rightarrow> kstate" where
  "give_back l s = upd_thread (running s) (\<lambda>th. th\<lparr>t_owned_locks := remove1 l (t_owned_locks th)\<rparr>)
     (upd_lock l (\<lambda>k. k\<lparr>holder := None\<rparr>) (intr_disable s))"

lemma give_back_kinv:
  assumes k: "kinv_but {running s} s" and t: "threads s (running s) = Some th" "t_status th = THREAD_RUNNING"
    and own: "l \<in> set (t_owned_locks th)" "distinct (t_owned_locks th)"
  shows "kinv_but {running s} (give_back l s)" and "holder (locks s l) = Some (running s)"
proof -
  let ?th = "th\<lparr>t_owned_locks := remove1 l (t_owned_locks th)\<rparr>"
  have lk: "locks_ok s" by (rule kinv_but_parts(2)[OF k])
  show hol: "holder (locks s l) = Some (running s)" using lk t(1) own(1) by (auto simp: locks_ok_def)
  have eq: "give_back l s = upd_lock l (\<lambda>k. k\<lparr>holder := None\<rparr>)
      (upd_thread (running s) (\<lambda>x. x\<lparr>t_owned_locks := remove1 l (t_owned_locks th)\<rparr>) (intr_disable s))"
    using t(1) by (simp add: give_back_def upd_thread_def upd_lock_def intr_disable_def)
  have "threads (give_back l s) u = (if u = running s then Some ?th else threads s u)" for u
    using t(1) by (simp add: give_back_def)
  moreover have "u = running s" if "threads s u = Some thu" "l \<in> set (t_owned_locks thu)" for u thu
    using lk that hol unfolding locks_ok_def by (metis option.inject)
  moreover have "locks (give_back l s) = (locks s)(l := (locks s l)\<lparr>holder := None\<rparr>)"
    by (simp add: give_back_def)
  ultimately have "locks_ok (give_back l s)"
    using lk t(1) own(2) unfolding locks_ok_def by (auto split: if_splits)
  then show "kinv_but {running s} (give_back l s)"
    using kinv_but_owned[of "intr_disable s" th l None] kinv_but_intr_disable[OF k] t by (simp add: eq)
qed

lemma lock_release_kinv:
  assumes k: "kinv_but {running s} s" and ext: "\<not> in_external_intr s"
    and t: "threads s (running s) = Some th" "t_status th = THREAD_RUNNING"
    and ok: "sched_ok (running s) (idle_thread s) (running s) th"
    and own: "l \<in> set (t_owned_locks th)" "distinct (t_owned_locks th)"
    and rest: "rest_ok (idle_thread s) (intr_on s) (running s) (th\<lparr>t_owned_locks := remove1 l (t_owned_locks th)\<rparr>)"
  obtains s' where "lock_release l s = Some s'" and "kinv s'"
proof -
  let ?th = "th\<lparr>t_owned_locks := remove1 l (t_owned_locks th)\<rparr>" and ?lvl = "intr_on s"
  have tc: "thread_current s = Some (running s)" using t by simp
  note gb = give_back_kinv[OF k t own]
  define s1 where "s1 = give_back l s"
  have f1: "running s1 = running s" "idle_thread s1 = idle_thread s" "\<not> intr_on s1"
    "in_external_intr s1 = in_external_intr s" "thread_mlfqs s1 = thread_mlfqs s" "queues s1 = queues s"
    by (simp_all add: s1_def give_back_def)
  have k1: "kinv_but {running s1} s1" using gb(1) by (simp add: s1_def give_back_def)
  have c1: "cur_ok ?lvl s1 ?th"
    using t ok rest f1 by (simp add: cur_ok_def s1_def give_back_def sched_ok_def)
  obtain s2 th2 where s2: "(if \<not> thread_mlfqs s1 \<and> t_current_priority th = bounty (locks s1 l) then thread_demote s1 else Some s1) = Some s2"
    "kinv_but {running s1} s2" "cur_ok ?lvl s2 th2" "same_frame s1 s2" "queues s2 = queues s1"
  proof (cases "\<not> thread_mlfqs s1 \<and> t_current_priority th = bounty (locks s1 l)")
    case True
    then have nm: "\<not> thread_mlfqs s1" by simp
    obtain s2 th2 where "thread_demote s1 = Some s2" "kinv_but {running s1} s2" "cur_ok ?lvl s2 th2"
      "same_frame s1 s2" "queues s2 = queues s1" by (rule thread_demote_kinv[OF k1 c1 nm])
    with True that show thesis by simp
  next
    case False
    show thesis by (rule that[of s1 ?th]) (use k1 c1 False in \<open>auto simp: same_frame_def\<close>)
  qed
  define s3 where "s3 = upd_lock l (\<lambda>k. k\<lparr>bounty := 0\<rparr>) s2"
  have f3: "running s3 = running s" "\<not> intr_on s3" "\<not> in_external_intr s3" "queues s3 = queues s"
    using s2(4,5) f1 ext by (simp_all add: s3_def same_frame_def)
  have k3: "kinv_but {running s3} s3"
    using kinv_but_bounty[OF s2(2), of 0 l] f1 f3(1) by (simp add: s3_def PRI_MAX_def)
  have c3: "cur_ok ?lvl s3 th2" using s2(3) by (simp add: s3_def)
  have "thread_get_priority s1 = Some (t_current_priority th)"
    using cur_okD(1,8)[OF c1] by (simp add: thread_get_priority_def f1(1))
  moreover have "thread_current (upd_lock l (\<lambda>k. k\<lparr>holder := None\<rparr>) (intr_disable s)) = Some (running s)"
    using t by (simp add: thread_current_def)
  ultimately have eq: "lock_release l s = (if queues s3 (Lock_waiters l) \<noteq> [] then do {
       (s2, waiter) \<leftarrow> elem_pop_front (Lock_waiters l) (sort_waiters (Lock_waiters l) s3);
       thread_unblock waiter (push_cont [K_intr_set_level ?lvl] s2)
     } else intr_set_level ?lvl s3)"
    using tc gb(2) s2(1) by (simp only: lock_release_def lock_held_by_current_thread_def Let_def Option.bind_lunit
        ASSERT_True simp_thms s3_def s1_def give_back_def)
  show thesis
  proof (cases "queues s3 (Lock_waiters l) = []")
    case True
    from kinv_set_level[OF k3 c3 f3(3)] True eq that show thesis by simp
  next
    case False
    obtain s' where "do { (s2, waiter) \<leftarrow> elem_pop_front (Lock_waiters l) (sort_waiters (Lock_waiters l) s3);
        thread_unblock waiter (push_cont [K_intr_set_level ?lvl] s2) } = Some s'" "kinv s'"
      by (rule wake_first_kinv[OF k3 c3 f3(2,3), of "Lock_waiters l"]) (use False in simp_all)
    with False eq that show thesis by simp
  qed
qed

subsection \<open>Condition variables\<close>

lemma cond_wait_kinv:
  assumes k: "kinv_but {running s} s" and cur: "cur_ok (intr_on s) s th" and ext: "\<not> in_external_intr s"
    and idl: "idle_thread s \<noteq> Some (running s)" and own: "l \<in> set (t_owned_locks th)"
    and cont: "t_cont th = []" and fresh: "queues s (Sema_waiters w) = []"
  obtains s' where "cond_wait c l w s = Some s'" and "kinv s'"
proof -
  note c = cur_okD[OF cur]
  let ?s1 = "(sema_init w 0 s)\<lparr>cond_waiters := (cond_waiters s)(c := cond_waiters s c @ [w])\<rparr>"
  let ?s = "push_cont [K_sema_down w, K_lock_acquire l] ?s1"
  have q: "queues ?s1 = queues s" using fresh by (auto simp: sema_init_def)
  have f: "threads ?s1 = threads s" "running ?s1 = running s" "idle_thread ?s1 = idle_thread s"
    "intr_on ?s1 = intr_on s" "in_external_intr ?s1 = in_external_intr s"
    by (simp_all add: sema_init_def)
  have k1: "kinv_but {running ?s1} ?s1"
    unfolding f(2) by (rule kinv_but_frame[OF k]) (simp_all add: q f, simp_all add: sema_init_def)
  have k2: "kinv_but {running ?s} ?s" using kinv_but_push_cont[OF k1] by simp
  let ?th = "th\<lparr>t_cont := [K_sema_down w, K_lock_acquire l]\<rparr>"
  have dist: "distinct (t_owned_locks th)" using c(7) by (simp add: rest_ok_def)
  have r: "rest_ok (idle_thread s) (intr_on s) (running s) (?th\<lparr>t_owned_locks := remove1 l (t_owned_locks th)\<rparr>)"
    using c(2,7) idl dist cont by (auto simp: rest_ok_def stack_kind_def)
  obtain s' where s': "lock_release l ?s = Some s'" "kinv s'"
    by (rule lock_release_kinv[OF k2, of ?th l])
      (use c f r own dist cont ext in \<open>auto simp: sched_ok_def\<close>)
  have "holder (locks s l) = Some (running s)"
    using kinv_but_parts(2)[OF k] c(1) own by (auto simp: locks_ok_def)
  with s' that ext c(8) show thesis
    by (simp add: cond_wait_def lock_held_by_current_thread_def Let_def sema_init_def)
qed

lemma cond_signal_kinv:
  assumes k: "kinv_but {running s} s" and cur: "cur_ok (intr_on s) s th" and ext: "\<not> in_external_intr s"
    and own: "l \<in> set (t_owned_locks th)"
  obtains s' where "cond_signal c l s = Some s'" and "kinv s'"
proof -
  note c = cur_okD[OF cur]
  have held: "lock_held_by_current_thread l s = Some True"
    using kinv_but_parts(2)[OF k] c(1,8) own by (auto simp: locks_ok_def lock_held_by_current_thread_def)
  show thesis
  proof (cases "sort_by (sema_priority_great s) (cond_waiters s c)")
    case Nil
    have "kinv s" by (rule kinv_intro[OF k cur ext])
    with Nil held ext that show thesis by (simp add: cond_signal_def)
  next
    case (Cons w ws)
    let ?s = "s\<lparr>cond_waiters := (cond_waiters s)(c := ws)\<rparr>"
    have k': "kinv_but {running ?s} ?s" using kinv_but_frame[OF k, of ?s] by simp
    obtain s' where "sema_up w ?s = Some s'" "kinv s'"
      by (rule sema_up_kinv[OF k', of th w]) (use cur ext in \<open>simp_all add: cur_ok_def\<close>)
    with Cons held ext that show thesis by (simp add: cond_signal_def)
  qed
qed

lemma cond_broadcast_kinv:
  assumes k: "kinv_but {running s} s" and cur: "cur_ok (intr_on s) s th" and ext: "\<not> in_external_intr s"
    and own: "l \<in> set (t_owned_locks th)"
  obtains s' where "cond_broadcast c l s = Some s'" and "kinv s'"
proof (cases "cond_waiters s c = []")
  case True
  have "kinv s" by (rule kinv_intro[OF k cur ext])
  with True that show thesis by (simp add: cond_broadcast_def)
next
  case False
  note c = cur_okD[OF cur]
  let ?s = "push_cont [K_cond_broadcast c l] s" and ?th = "th\<lparr>t_cont := K_cond_broadcast c l # t_cont th\<rparr>"
  have idl: "idle_thread s \<noteq> Some (running s)" using c(7) own by (auto simp: rest_ok_def)
  have k': "kinv_but {running ?s} ?s" using kinv_but_push_cont[OF k] by simp
  have cur': "cur_ok (intr_on ?s) ?s ?th"
    using c own idl by (auto simp: cur_ok_def sched_ok_def rest_ok_def stack_kind_def)
  obtain s' where "cond_signal c l ?s = Some s'" "kinv s'"
    by (rule cond_signal_kinv[OF k' cur', of l c]) (use ext own in simp_all)
  with False that show thesis by (simp add: cond_broadcast_def)
qed

subsection \<open>Priorities\<close>

lemma thread_set_priority_kinv:
  assumes k: "kinv_but {running s} s" and cur: "cur_ok (intr_on s) s th" and ext: "\<not> in_external_intr s"
    and p: "0 \<le> p" "p \<le> PRI_MAX"
  obtains s' where "thread_set_priority p s = Some s'" and "kinv s'"
proof -
  note c = cur_okD[OF cur]
  let ?s = "upd_thread (running s) (\<lambda>th. th\<lparr>t_priority := p\<rparr>) s"
  let ?s' = "upd_thread (running s) (\<lambda>th. th\<lparr>t_current_priority := p\<rparr>) ?s"
  have k1: "kinv_but {running ?s} ?s" using kinv_but_upd[OF k, of "running s"] by simp
  have c1: "cur_ok (intr_on ?s) ?s (th\<lparr>t_priority := p\<rparr>)" using c p by (auto simp: cur_ok_def sched_ok_def)
  have k2: "kinv_but {running ?s'} ?s'" using kinv_but_upd[OF k1, of "running s"] by simp
  have c2: "cur_ok (intr_on ?s') ?s' (th\<lparr>t_priority := p, t_current_priority := p\<rparr>)"
    using c p by (auto simp: cur_ok_def sched_ok_def)
  show thesis
  proof (cases "thread_mlfqs s")
    case True
    have "kinv s" by (rule kinv_intro[OF k cur ext])
    with True that show thesis by (simp add: thread_set_priority_def)
  next
    case False
    show thesis
    proof (cases "t_current_priority th = t_priority th")
      case True
      obtain s' where "thread_yield ?s' = Some s'" "kinv s'"
        by (rule thread_yield_kinv[OF k2 c2]) (use ext in simp)
      with False True that c show thesis
        by (simp add: thread_set_priority_def thread_on_priority_change_def Let_def)
    next
      case neq: False
      have "kinv ?s" by (rule kinv_intro[OF k1 c1]) (use ext in simp)
      with False neq that c show thesis by (simp add: thread_set_priority_def Let_def)
    qed
  qed
qed

subsection \<open>The multi-level feedback queue\<close>

lemma fp_int_div_nz: "n \<noteq> 0 \<Longrightarrow> fp_int_div x n = Some (wrap64 (x sdiv n))"
  by (simp add: fp_int_div_def)

lemma mlfqs_priority_bounds:
  obtains p where "mlfqs_priority th = Some p" and "0 \<le> p" and "p \<le> PRI_MAX"
  by (rule that[of "the (mlfqs_priority th)"]) (simp_all add: mlfqs_priority_def fp_int_div_nz Let_def PRI_MAX_def)

lemma decay_recent_cpu_returns:
  assumes "0 \<le> load" and "load \<le> 2 ^ 40"
  obtains r where "decay_recent_cpu load th = Some r"
proof -
  have "fp_int_add (fp_int_mult load 2) 1 = load * 2 + 16384"
    using assms by (simp add: fp_int_add_def fp_int_mult_def fp_from_int_def fp_f_def)
  then have "fp_int_add (fp_int_mult load 2) 1 \<noteq> 0" using assms(1) by simp
  then show thesis using that by (simp add: decay_recent_cpu_def fp_div_def)
qed

lemma thread_recompute_priority_kinv:
  assumes k: "kinv_but {running s} s" and cur: "cur_ok lvl s cth" and t: "threads s t = Some th"
    and aux: "aux \<Longrightarrow> t = running s"
  obtains s' cth' where "thread_recompute_priority t aux s = Some s'" and "kinv_but {running s} s'"
    and "cur_ok lvl s' cth'" and "same_frame s s'" and "all_list s' = all_list s"
    and "\<And>u. threads s u \<noteq> None \<Longrightarrow> threads s' u \<noteq> None" and "yield_on_return s' = yield_on_return s"
proof (cases "idle_thread s = Some t")
  case True
  with k cur show thesis
    by (intro that[of s cth]) (simp_all add: thread_recompute_priority_def same_frame_def)
next
  case False
  note c = cur_okD[OF cur]
  have ld: "0 \<le> load_avg s" "load_avg s \<le> 2 ^ 40" using kinv_but_parts(3)[OF k] by (simp_all add: all_ok_def)
  obtain r0 where r0: "decay_recent_cpu (load_avg s) th = Some r0" by (rule decay_recent_cpu_returns[OF ld])
  define r where "r = (if \<not> aux then r0 else t_recent_cpu th)"
  obtain p where p: "mlfqs_priority (th\<lparr>t_recent_cpu := r\<rparr>) = Some p" "0 \<le> p" "p \<le> PRI_MAX"
    by (rule mlfqs_priority_bounds)
  let ?th = "th\<lparr>t_recent_cpu := r, t_current_priority := p, t_priority := p\<rparr>"
  define s0 where "s0 = upd_thread t (\<lambda>_. ?th) s"
  have eq: "thread_recompute_priority t aux s =
      (if \<not> aux \<and> t_status th = THREAD_READY
       then do { s \<leftarrow> elem_remove t s0; q \<leftarrow> ready_list p; elem_push_back q t s } else Some s0)"
    using t False r0 p(1)
    by (auto simp: thread_recompute_priority_def r_def s0_def Let_def upd_thread_def split: if_splits)
  have k0: "kinv_but (insert t {running s}) s0"
  proof -
    have "s0 = upd_thread t (\<lambda>th. th\<lparr>t_recent_cpu := r, t_current_priority := p, t_priority := p\<rparr>) s"
      using t by (simp add: s0_def upd_thread_def)
    then show ?thesis using kinv_but_upd[OF kinv_but_weaken[OF k, of "insert t {running s}"], of t] by simp
  qed
  have f0: "same_frame s s0" "all_list s0 = all_list s" "yield_on_return s0 = yield_on_return s"
    "\<And>u. threads s u \<noteq> None \<Longrightarrow> threads s0 u \<noteq> None" "threads s0 t = Some ?th"
    using t by (auto simp: s0_def same_frame_def)
  show thesis
  proof (cases "t = running s")
    case True
    then have "cur_ok lvl s0 ?th" using c t p by (auto simp: s0_def cur_ok_def sched_ok_def)
    moreover have "t_status th = THREAD_RUNNING" using True c t by simp
    ultimately show thesis using that[of s0 ?th] eq k0 f0 True by (simp add: insert_absorb)
  next
    case ne: False
    have ok: "sched_ok (running s) (idle_thread s) t th" and rest: "rest_ok (idle_thread s) False t th"
      using inv_but_sched_ok[OF kinv_but_parts(1)[OF k] t] kinv_but_rest[OF k t] ne by simp_all
    have cur0: "cur_ok lvl s0 cth" using cur ne by (simp add: cur_ok_def s0_def)
    show thesis
    proof (cases "t_status th = THREAD_READY")
      case True
      have na: "\<not> aux" using aux ne by blast
      have el: "t_elem th = Some (Ready (nat (t_current_priority th)))"
        using ok True False by (auto simp: sched_ok_def)
      have rq: "do { s \<leftarrow> elem_remove t s0; q \<leftarrow> ready_list p; elem_push_back q t s } =
          Some (link t (Ready (nat p)) (unlink t s0))" "kinv_but {running s} (link t (Ready (nat p)) (unlink t s0))"
        using requeue_ready[OF k0 f0(5)] ne True False el p rest by (simp_all add: s0_def)
      show thesis
        by (rule that[of "link t (Ready (nat p)) (unlink t s0)" cth])
          (use rq eq na True f0 cur0 ne in \<open>auto simp: same_frame_def cur_ok_def\<close>)
    next
      case nr: False
      have "kinv_but {running s} s0"
        by (rule kinv_but_restore[OF k0]) (use f0 ok rest p ne nr t in \<open>auto simp: s0_def sched_ok_def split: thread_status.splits\<close>)
      then show thesis using that[of s0 cth] eq nr f0 cur0 by simp
    qed
  qed
qed

lemma foreach_recompute_kinv:
  assumes "kinv_but {running s} s" and "cur_ok lvl s cth" and "\<forall>t \<in> set ts. threads s t \<noteq> None"
  obtains s' cth' where "foreach_loop (\<lambda>t. thread_recompute_priority t False) ts s = Some s'"
    and "kinv_but {running s} s'" and "cur_ok lvl s' cth'" and "same_frame s s'"
    and "yield_on_return s' = yield_on_return s"
proof -
  have "\<exists>s' cth'. foreach_loop (\<lambda>t. thread_recompute_priority t False) ts s = Some s' \<and>
      kinv_but {running s} s' \<and> cur_ok lvl s' cth' \<and> same_frame s s' \<and> yield_on_return s' = yield_on_return s"
    using assms
  proof (induction ts arbitrary: s cth)
    case Nil
    then show ?case by (auto simp: same_frame_def)
  next
    case (Cons t ts)
    obtain th where t: "threads s t = Some th" using Cons.prems(3) by auto
    obtain s1 c1 where s1: "thread_recompute_priority t False s = Some s1" "kinv_but {running s} s1"
      "cur_ok lvl s1 c1" "same_frame s s1" "\<And>u. threads s u \<noteq> None \<Longrightarrow> threads s1 u \<noteq> None"
      "yield_on_return s1 = yield_on_return s"
      by (rule thread_recompute_priority_kinv[OF Cons.prems(1,2) t, of False]) blast+
    have r: "running s1 = running s" using s1(4) by (simp add: same_frame_def)
    obtain s2 c2 where "foreach_loop (\<lambda>t. thread_recompute_priority t False) ts s1 = Some s2"
      "kinv_but {running s1} s2" "cur_ok lvl s2 c2" "same_frame s1 s2" "yield_on_return s2 = yield_on_return s1"
      using Cons.IH[of s1 c1] s1(2,3,5) r Cons.prems(3) by auto
    with s1(1,4,6) r show ?case by (auto simp: same_frame_def)
  qed
  then show thesis using that by blast
qed

lemma count_ready_bounds:
  "0 \<le> sz \<Longrightarrow> sz + int (length ts) < 2 ^ 31 \<Longrightarrow>
     sz \<le> count_ready s ts sz \<and> count_ready s ts sz \<le> sz + int (length ts)"
proof (induction ts arbitrary: sz)
  case (Cons t ts)
  have l: "0 \<le> sz + 1" "sz + 1 + int (length ts) < 2 ^ 31" "sz + int (length ts) < 2 ^ 31"
    using Cons.prems by simp_all
  have "wrap32 (sz + 1) = sz + 1" using Cons.prems by simp
  with Cons.IH[OF l(1,2)] Cons.IH[OF Cons.prems(1) l(3)] show ?case by (cases "runnable s t") simp_all
qed simp

lemma thread_get_ready_threads_bounds:
  assumes "all_ok s"
  shows "0 \<le> thread_get_ready_threads s \<and> thread_get_ready_threads s \<le> 2 ^ 20"
proof -
  have "set (all_list s) \<subseteq> {..< 2 ^ 20}" using assms by (auto simp: all_ok_def)
  then have "card (set (all_list s)) \<le> 2 ^ 20" using card_mono[of "{..< (2 :: nat) ^ 20}"] by fastforce
  moreover have "distinct (all_list s)" using assms by (simp add: all_ok_def)
  ultimately have "length (all_list s) \<le> 2 ^ 20" by (simp add: distinct_card)
  with count_ready_bounds[of 0 "all_list s" s] show ?thesis
    by (simp add: thread_get_ready_threads_def)
qed

lemma thread_recompute_load_avg_kinv:
  assumes k: "kinv_but A s"
  obtains v where "thread_recompute_load_avg s = Some (s\<lparr>load_avg := v\<rparr>)" and "kinv_but A (s\<lparr>load_avg := v\<rparr>)"
proof -
  have a: "all_ok s" by (rule kinv_but_parts(3)[OF k])
  define n where "n = thread_get_ready_threads s"
  define x where "x = load_avg s * 59 + n * 16384"
  have n: "0 \<le> n" "n \<le> 2 ^ 20" using thread_get_ready_threads_bounds[OF a] by (simp_all add: n_def)
  have l: "0 \<le> load_avg s" "load_avg s \<le> 2 ^ 40" using a by (simp_all add: all_ok_def)
  have x: "0 \<le> x" "x \<le> 60 * 2 ^ 40" using n l by (simp_all add: x_def)
  have "fp_int_add (fp_int_mult (load_avg s) 59) n = x"
    using n l by (simp add: fp_int_add_def fp_int_mult_def fp_from_int_def fp_f_def x_def)
  then have "thread_recompute_load_avg s = Some (s\<lparr>load_avg := x div 60\<rparr>)"
    using x by (simp add: thread_recompute_load_avg_def fp_int_div_nz sdiv_nonneg flip: n_def)
  moreover have "kinv_but A (s\<lparr>load_avg := x div 60\<rparr>)"
    using k x by (auto simp: kinv_but_def inv_but_def queues_ok_def locks_ok_def all_ok_def)
  ultimately show thesis by (rule that)
qed

subsection \<open>Sleeping and waking\<close>

lemma thread_sleep_kinv:
  assumes k: "kinv_but {running s} s" and cur: "cur_ok lvl s th"
  obtains s' where "thread_sleep w s = Some s'" and "kinv_but {running s} s'" and "same_frame s s'"
    and "threads s' (running s) = Some (th\<lparr>t_wakeup_time := w, t_elem := Some Sleep\<rparr>)"
proof -
  note c = cur_okD[OF cur]
  let ?s = "upd_thread (running s) (\<lambda>th. th\<lparr>t_wakeup_time := w\<rparr>) s"
  let ?ins = "insert_ordered (thread_wakeup_time_comparison ?s) (running s)"
  have k1: "kinv_but {running s} ?s" by (rule kinv_but_upd[OF k]) auto
  have t1: "threads ?s (running s) = Some (th\<lparr>t_wakeup_time := w\<rparr>)" using c(1) by simp
  have k2: "kinv_but {running s} (link (running s) Sleep ?s)" by (rule kinv_but_link[OF k1 _ t1]) (use c(3) in auto)
  let ?s2 = "(link (running s) Sleep ?s)\<lparr>queues := (queues s)(Sleep := ?ins (queues s Sleep))\<rparr>"
  have "mset (insert_ordered f e xs) = add_mset e (mset xs)" for f and e :: nat and xs
    by (induction xs) auto
  then have k3: "kinv_but {running s} ?s2"
    by (intro kinv_but_perm[OF k2]) auto
  have "thread_sleep w s = Some ?s2"
    using c link_elem_eq[OF t1] by (simp add: thread_sleep_def Let_def link_def upd_thread_def)
  then show thesis
    by (rule that[OF _ k3]) (use t1 in \<open>auto simp: same_frame_def\<close>)
qed

lemma timer_sleep_kinv:
  assumes k: "kinv_but {running s} s" and cur: "cur_ok (intr_on s) s th" and ext: "\<not> in_external_intr s"
    and on: "intr_on s" and idl: "idle_thread s \<noteq> Some (running s)"
  obtains s' where "timer_sleep n s = Some s'" and "kinv s'"
proof (cases "n \<le> 0")
  case True
  have "kinv s" by (rule kinv_intro[OF k cur ext])
  with True on that show thesis by (simp add: timer_sleep_def)
next
  case False
  note c = cur_okD[OF cur]
  let ?w = "wrap64 (ticks s + n)"
  have k1: "kinv_but {running (intr_disable s)} (intr_disable s)" using kinv_but_intr_disable[OF k] by simp
  obtain s1 where s1: "thread_sleep ?w (intr_disable s) = Some s1" "kinv_but {running s} s1"
    "same_frame (intr_disable s) s1" "threads s1 (running s) = Some (th\<lparr>t_wakeup_time := ?w, t_elem := Some Sleep\<rparr>)"
    by (rule thread_sleep_kinv[OF k1, of "intr_on s" th ?w]) (use cur in simp_all)
  have f: "running s1 = running s" "idle_thread s1 = idle_thread s" "\<not> intr_on s1" "\<not> in_external_intr s1"
    using s1(3) ext by (simp_all add: same_frame_def)
  let ?s = "push_cont [K_intr_set_level True] s1"
  let ?th = "th\<lparr>t_wakeup_time := ?w, t_elem := Some Sleep, t_cont := K_intr_set_level True # t_cont th\<rparr>"
  have k2: "kinv_but {running ?s} ?s" using kinv_but_push_cont[of s1] s1(2) f(1) by simp
  obtain s' where "thread_block ?s = Some s'" "kinv s'"
    by (rule thread_block_kinv[OF k2, of ?th])
      (use c s1(4) f idl on in \<open>auto simp: sched_ok_def rest_ok_def\<close>)
  with that s1(1) False on show thesis by (simp add: timer_sleep_def timer_ticks_def Let_def)
qed

subsection \<open>The timer interrupt\<close>

text \<open>No thread that is due would preempt the running one.\<close>

definition no_preemption :: "kstate \<Rightarrow> int \<Rightarrow> nat list \<Rightarrow> bool" where
  "no_preemption s now ts \<longleftrightarrow> thread_mlfqs s \<or> idle_thread s = Some (running s) \<or>
     (\<forall>t \<in> set ts. wakeup_time_of s t \<le> now \<longrightarrow> current_priority_of s t \<le> current_priority_of s (running s))"

text \<open>The threads at the front of the list that are due have left it and can run.\<close>

definition wakes_due :: "int \<Rightarrow> nat list \<Rightarrow> kstate \<Rightarrow> kstate \<Rightarrow> bool" where
  "wakes_due now ts s s' \<longleftrightarrow>
     (let due = takeWhile (\<lambda>u. wakeup_time_of s u \<le> now) ts
      in queues s' Sleep = filter (\<lambda>u. u \<notin> set due) (queues s Sleep) \<and>
         (\<forall>u. u \<in> set due \<or> awake s u \<longrightarrow> awake s' u))"

lemma wakes_due_Cons:
  assumes "wakes_due now ts s1 s'"
    and "takeWhile (\<lambda>u. wakeup_time_of s u \<le> now) (t # ts) = t # takeWhile (\<lambda>u. wakeup_time_of s1 u \<le> now) ts"
    and "queues s1 Sleep = filter (\<lambda>u. u \<noteq> t) (queues s Sleep)" and "awake s1 t" and "\<And>u. awake s u \<Longrightarrow> awake s1 u"
  shows "wakes_due now (t # ts) s s'"
  using assms(1,3-5) unfolding wakes_due_def assms(2) by (auto simp: Let_def intro!: filter_cong)

lemma handle_sleeping_loop_kinv:
  assumes "kinv_but {running s} s" and "cur_ok lvl s cth" and "\<not> intr_on s"
    and "distinct ts" and "set ts \<subseteq> set (queues s Sleep)" and "no_preemption s now ts"
  obtains s' where "handle_sleeping_loop now ts s = Some s'" and "kinv_but {running s} s'"
    and "cur_ok lvl s' cth" and "same_frame s s'" and "ticks s' = ticks s" and "yield_on_return s' = yield_on_return s"
    and "wakes_due now ts s s'"
proof -
  have "\<exists>s'. handle_sleeping_loop now ts s = Some s' \<and> kinv_but {running s} s' \<and> cur_ok lvl s' cth \<and>
      same_frame s s' \<and> ticks s' = ticks s \<and> yield_on_return s' = yield_on_return s \<and> wakes_due now ts s s'"
    using assms
  proof (induction ts arbitrary: s)
    case Nil
    then show ?case by (simp add: same_frame_def wakes_due_def)
  next
    case (Cons t ts)
    note k = Cons.prems(1) and c = cur_okD[OF Cons.prems(2)]
    obtain th where th: "wakes (unlink t s) t (th\<lparr>t_elem := None\<rparr>)" "threads s t = Some th"
      "t_elem th = Some Sleep" "t \<noteq> running s"
      by (rule queued_thread[OF k c(1,3), of t Sleep]) (use Cons.prems(5) in auto)
    show ?case
    proof (cases "t_wakeup_time th \<le> now")
      case False
      with Cons.prems th(2) show ?thesis by (auto simp: same_frame_def wakes_due_def wakeup_time_of_def)
    next
      case True
      have rm: "elem_remove t s = Some (unlink t s)" by (rule elem_remove_eq[OF kinv_but_parts(4)[OF k] th(2,3)])
      let ?s = "make_ready t (nat (t_current_priority th)) (unlink t s)"
      have ub: "thread_unblock t (unlink t s) = Some ?s"
        using thread_unblock_eq[OF th(1), of cth] c Cons.prems(3,6) True th(2,4)
        by (auto simp: no_preemption_def wakeup_time_of_def current_priority_of_def)
      have k1: "kinv_but {running ?s} ?s"
        using kinv_make_ready[OF kinv_but_unlink[OF kinv_but_weaken[OF k, of "insert t {running s}"], of t] th(1)] by simp
      have c1: "cur_ok lvl ?s cth" using Cons.prems(2) th(4) by (simp add: cur_ok_def)
      have tn: "t \<notin> set ts" using Cons.prems(4) by simp
      then have same: "wakeup_time_of ?s u = wakeup_time_of s u \<and> current_priority_of ?s u = current_priority_of s u"
        if "u \<in> set ts \<or> u = running s" for u
        using that th(4) by (auto simp: wakeup_time_of_def current_priority_of_def)
      have "\<exists>s'. handle_sleeping_loop now ts ?s = Some s' \<and> kinv_but {running ?s} s' \<and> cur_ok lvl s' cth \<and>
          same_frame ?s s' \<and> ticks s' = ticks ?s \<and> yield_on_return s' = yield_on_return ?s \<and> wakes_due now ts ?s s'"
      proof (rule Cons.IH[OF k1 c1])
        show "set ts \<subseteq> set (queues ?s Sleep)"
          using Cons.prems(4,5) kinv_but_parts(4)[OF k] by (auto simp: queues_ok_def)
        show "no_preemption ?s now ts" using Cons.prems(6) same by (auto simp: no_preemption_def)
      qed (use Cons.prems(3,4) in simp_all)
      moreover have "wakes_due now (t # ts) s s'" if "wakes_due now ts ?s s'" for s'
      proof (rule wakes_due_Cons[OF that])
        show "takeWhile (\<lambda>u. wakeup_time_of s u \<le> now) (t # ts) = t # takeWhile (\<lambda>u. wakeup_time_of ?s u \<le> now) ts"
          using True th(2) same by (auto simp: wakeup_time_of_def intro!: takeWhile_cong)
        show "queues ?s Sleep = filter (\<lambda>u. u \<noteq> t) (queues s Sleep)"
          using kinv_but_parts(4)[OF k] by (simp add: queues_ok_def distinct_remove1_removeAll removeAll_filter_not_eq)
            (metis (mono_tags, lifting))
        show "awake ?s t" using th by (simp add: awake_def)
        show "awake s u \<Longrightarrow> awake ?s u" for u using th(2) by (auto simp: awake_def split: option.splits)
      qed
      ultimately show ?thesis using ub k1 rm True th(2) by (auto simp: same_frame_def)
    qed
  qed
  then show thesis using that by blast
qed

lemma thread_tick_kinv:
  assumes k: "kinv_but {running s} s" and cur: "cur_ok lvl s th" and ext: "in_external_intr s"
  obtains s' where "thread_tick s = Some s'" and "kinv_but {running s} s'" and "cur_ok lvl s' th"
    and "same_frame s s'" and "ticks s' = ticks s" and "all_list s' = all_list s"
proof -
  note c = cur_okD[OF cur]
  have "\<exists>s'. thread_tick s = Some s' \<and> threads s' = threads s \<and> queues s' = queues s \<and> locks s' = locks s \<and>
      same_frame s s' \<and> ticks s' = ticks s \<and> all_list s' = all_list s \<and> load_avg s' = load_avg s"
    using c ext by (auto simp: thread_tick_def Let_def intr_yield_on_return_def same_frame_def)
  then obtain s' where s': "thread_tick s = Some s'" "threads s' = threads s" "queues s' = queues s"
    "locks s' = locks s" "same_frame s s'" "ticks s' = ticks s" "all_list s' = all_list s" "load_avg s' = load_avg s"
    by blast
  show thesis
    by (rule that[OF s'(1)]) (use kinv_but_frame[OF k, of s'] s' cur in \<open>auto simp: same_frame_def cur_ok_def\<close>)
qed

lemma mlfqs_tick_kinv:
  assumes k: "kinv_but {running s} s" and cur: "cur_ok lvl s th" and off: "\<not> intr_on s"
  obtains s' th' where "(if tk smod TIMER_FREQ = 0 then do {
        s \<leftarrow> thread_recompute_load_avg s;
        thread_foreach (\<lambda>t. thread_recompute_priority t False) s
      } else if tk smod 4 = 0 then thread_recompute_priority (running s) True s else Some s) = Some s'"
    and "kinv_but {running s} s'" and "cur_ok lvl s' th'" and "same_frame s s'"
proof -
  note c = cur_okD[OF cur]
  consider "tk smod TIMER_FREQ = 0" | "tk smod TIMER_FREQ \<noteq> 0" "tk smod 4 = 0"
    | "tk smod TIMER_FREQ \<noteq> 0" "tk smod 4 \<noteq> 0" by blast
  then show thesis
  proof cases
    case 1
    obtain v where v: "thread_recompute_load_avg s = Some (s\<lparr>load_avg := v\<rparr>)" "kinv_but {running s} (s\<lparr>load_avg := v\<rparr>)"
      by (rule thread_recompute_load_avg_kinv[OF k])
    let ?s = "s\<lparr>load_avg := v\<rparr>"
    have l: "\<forall>t \<in> set (all_list ?s). threads ?s t \<noteq> None"
      using kinv_but_parts(3)[OF v(2)] by (auto simp: all_ok_def)
    have kv: "kinv_but {running ?s} ?s" "cur_ok lvl ?s th" using v(2) cur by (simp_all add: cur_ok_def)
    obtain s' c' where "foreach_loop (\<lambda>t. thread_recompute_priority t False) (all_list ?s) ?s = Some s'"
      "kinv_but {running ?s} s'" "cur_ok lvl s' c'" "same_frame ?s s'"
      by (rule foreach_recompute_kinv[OF kv l])
    with v(1) 1 off show thesis
      by (intro that[of s' c']) (simp_all add: thread_foreach_def same_frame_def)
  next
    case 2
    obtain s' c' where "thread_recompute_priority (running s) True s = Some s'" "kinv_but {running s} s'"
      "cur_ok lvl s' c'" "same_frame s s'"
      by (rule thread_recompute_priority_kinv[OF k cur c(1), where aux = True]) blast+
    with 2 show thesis by (intro that[of s' c']) simp_all
  next
    case 3
    with k cur show thesis by (intro that[of s th]) (simp_all add: same_frame_def)
  qed
qed

lemma timer_interrupt_kinv:
  assumes k: "kinv_but {running s} s" and cur: "cur_ok lvl s th" and off: "\<not> intr_on s"
    and ext: "in_external_intr s" and np: "no_preemption s (wrap64 (ticks s + 1)) (queues s Sleep)"
  obtains s' th' where "timer_interrupt s = Some s'" and "kinv_but {running s} s'" and "cur_ok lvl s' th'"
    and "same_frame s s'"
proof -
  define s0 where "s0 = s\<lparr>ticks := wrap64 (ticks s + 1)\<rparr>"
  have f0: "running s0 = running s" "queues s0 = queues s" "intr_on s0 = intr_on s"
    "in_external_intr s0 = in_external_intr s" "same_frame s s0" by (simp_all add: s0_def same_frame_def)
  have k0: "kinv_but {running s0} s0" unfolding f0(1) by (rule kinv_but_frame[OF k]) (simp_all add: s0_def)
  have c0: "cur_ok lvl s0 th" using cur by (simp add: s0_def cur_ok_def)
  have np0: "no_preemption s0 (ticks s0) (queues s0 Sleep)"
    using np by (simp add: s0_def no_preemption_def wakeup_time_of_def current_priority_of_def)
  have d0: "distinct (queues s0 Sleep)" using kinv_but_parts(4)[OF k0] by (simp add: queues_ok_def)
  obtain s1 where s1: "handle_sleeping_threads (ticks s0) s0 = Some s1" "kinv_but {running s0} s1"
    "cur_ok lvl s1 th" "same_frame s0 s1"
    unfolding handle_sleeping_threads_def
    by (rule handle_sleeping_loop_kinv[OF k0 c0 _ d0 _ np0]) (use off f0 in auto)
  have f1: "running s1 = running s" "intr_on s1 = intr_on s" "in_external_intr s1"
    using s1(4) f0 ext by (simp_all add: same_frame_def)
  have k1: "kinv_but {running s1} s1" using s1(2) f0(1) f1(1) by simp
  obtain s2 where s2: "thread_tick s1 = Some s2" "kinv_but {running s1} s2" "cur_ok lvl s2 th" "same_frame s1 s2"
    by (rule thread_tick_kinv[OF k1 s1(3) f1(3)])
  have f2: "running s2 = running s" "intr_on s2 = intr_on s" using s2(4) f1 by (simp_all add: same_frame_def)
  note c2 = cur_okD[OF s2(3)]
  let ?idle = "Some (running s2) = idle_thread s2"
  let ?f = "\<lambda>th. th\<lparr>t_recent_cpu := fp_int_add (t_recent_cpu th) 1\<rparr>"
  define s3 where "s3 = (if \<not> ?idle then upd_thread (running s2) ?f s2 else s2)"
  define th3 where "th3 = (if \<not> ?idle then ?f th else th)"
  have f3: "running s3 = running s" "intr_on s3 = intr_on s" "same_frame s2 s3"
    using f2 by (simp_all add: s3_def same_frame_def)
  have k3: "kinv_but {running s3} s3"
    using s2(2) f1(1) f2(1) f3(1) kinv_but_upd[of "{running s}" s2 "running s" ?f] by (simp add: s3_def)
  have c3: "cur_ok lvl s3 th3" using c2 by (auto simp: s3_def th3_def cur_ok_def sched_ok_def)
  obtain s4 th4 where s4: "(if ticks s3 smod TIMER_FREQ = 0 then do {
        s \<leftarrow> thread_recompute_load_avg s3;
        thread_foreach (\<lambda>t. thread_recompute_priority t False) s
      } else if ticks s3 smod 4 = 0 then thread_recompute_priority (running s3) True s3 else Some s3) = Some s4"
    "kinv_but {running s3} s4" "cur_ok lvl s4 th4" "same_frame s3 s4"
    by (rule mlfqs_tick_kinv[OF k3 c3]) (use f3 off in auto)
  have id: "current_thread_is_idle_thread s2 = Some ?idle"
    using c2(8) by (simp add: current_thread_is_idle_thread_def)
  have r: "running s3 = running s2" using f2(1) f3(1) by simp
  have eq: "timer_interrupt s = (if thread_mlfqs s2 then Some s4 else Some s2)"
    using s4(1)[unfolded r] unfolding timer_interrupt_def Let_def s0_def[symmetric] s1(1) Option.bind_lunit
      s2(1) c2(8) id s3_def[symmetric] by auto
  show thesis
  proof (cases "thread_mlfqs s2")
    case True
    with eq s4 f3 show thesis
      by (intro that[of s4 th4]) (use s4(4) s2(4) s1(4) f0(5) f3(3) in \<open>simp_all add: same_frame_def\<close>)
  next
    case False
    with eq show thesis
      by (intro that[of s2 th]) (use s2 s1(4) f0(5) f1(1) in \<open>simp_all add: same_frame_def\<close>)
  qed
qed

lemma timer_irq_kinv:
  assumes "kinv s" and on: "intr_on s" and np: "no_preemption s (wrap64 (ticks s + 1)) (queues s Sleep)"
  obtains s' where "timer_irq s = Some s'" and "kinv s'"
proof -
  obtain th where cur: "cur_ok (intr_on s) s th" and k: "kinv_but {running s} s"
    by (rule kinv_cur_ok[OF assms(1)])
  have ext: "\<not> in_external_intr s" using assms(1) by (simp add: kinv_def)
  note c = cur_okD[OF cur]
  let ?s0 = "push_cont [K_iret] (intr_disable s)" and ?th = "th\<lparr>t_cont := K_iret # t_cont th\<rparr>"
  define s1 where "s1 = ?s0\<lparr>in_external_intr := True, yield_on_return := False\<rparr>"
  have f1: "running s1 = running s" "\<not> intr_on s1" "in_external_intr s1" by (simp_all add: s1_def)
  have "kinv_but {running s} ?s0" using kinv_but_push_cont[of "intr_disable s"] kinv_but_intr_disable[OF k] by simp
  then have k1: "kinv_but {running s1} s1" unfolding f1(1) by (rule kinv_but_frame) (simp_all add: s1_def)
  have c1: "cur_ok False s1 ?th"
    using c on by (auto simp: s1_def cur_ok_def sched_ok_def rest_ok_def)
  have np1: "no_preemption s1 (wrap64 (ticks s1 + 1)) (queues s1 Sleep)"
    using np c(1) by (auto simp: s1_def no_preemption_def wakeup_time_of_def current_priority_of_def)
  obtain s2 th2 where s2: "timer_interrupt s1 = Some s2" "kinv_but {running s1} s2" "cur_ok False s2 th2" "same_frame s1 s2"
    by (rule timer_interrupt_kinv[OF k1 c1 f1(2,3) np1])
  define s3 where "s3 = s2\<lparr>in_external_intr := False\<rparr>"
  have f3: "running s3 = running s" "\<not> intr_on s3" "\<not> in_external_intr s3" "yield_on_return s3 = yield_on_return s2"
    using s2(4) f1 by (simp_all add: s3_def same_frame_def)
  have k3: "kinv_but {running s3} s3"
    using s2(2) unfolding f3(1) f1(1) by (rule kinv_but_frame) (use s2(4) f1 in \<open>simp_all add: s3_def same_frame_def\<close>)
  have c3: "cur_ok (intr_on s3) s3 th2" using s2(3) f3(2) by (simp add: s3_def cur_ok_def)
  have eq: "timer_irq s = (if yield_on_return s3 then thread_yield s3 else Some s3)"
    using s2(1,4) f1 ext by (simp add: timer_irq_def intr_handler_def Let_def s1_def s3_def same_frame_def)
  show thesis
  proof (cases "yield_on_return s3")
    case True
    obtain s' where "thread_yield s3 = Some s'" "kinv s'" by (rule thread_yield_kinv[OF k3 c3 f3(3)])
    with True eq that show thesis by simp
  next
    case False
    have "kinv s3" by (rule kinv_intro[OF k3 c3 f3(3)])
    with False eq that show thesis by simp
  qed
qed

text \<open>A thread that is due and has a higher priority than the running one: the handler would yield
  inside the interrupt.\<close>

lemma handle_sleeping_loop_panics:
  assumes "kinv_but {running s} s" and "cur_ok lvl s cth" and "\<not> intr_on s" and "in_external_intr s"
    and "distinct ts" and "set ts \<subseteq> set (queues s Sleep)"
    and "sorted_wrt (\<lambda>a b. wakeup_time_of s a \<le> wakeup_time_of s b) ts" and "\<not> no_preemption s now ts"
  shows "handle_sleeping_loop now ts s = None"
  using assms
proof (induction ts arbitrary: s)
  case Nil
  then show ?case by (simp add: no_preemption_def)
next
  case (Cons t ts)
  note k = Cons.prems(1) and c = cur_okD[OF Cons.prems(2)]
  obtain th where th: "wakes (unlink t s) t (th\<lparr>t_elem := None\<rparr>)" "threads s t = Some th"
    "t_elem th = Some Sleep" "t \<noteq> running s"
    by (rule queued_thread[OF k c(1,3), of t Sleep]) (use Cons.prems(6) in auto)
  have due: "t_wakeup_time th \<le> now"
    using Cons.prems(7,8) th(2) by (force simp: no_preemption_def wakeup_time_of_def)
  have np: "\<not> thread_mlfqs s" "idle_thread s \<noteq> Some (running s)"
    using Cons.prems(8) by (simp_all add: no_preemption_def)
  have rm: "elem_remove t s = Some (unlink t s)" by (rule elem_remove_eq[OF kinv_but_parts(4)[OF k] th(2,3)])
  let ?s = "make_ready t (nat (t_current_priority th)) (unlink t s)"
  have cu: "threads (unlink t s) (running (unlink t s)) = Some cth" using c(1) th(4) by simp
  show ?case
  proof (cases "t_current_priority th > t_current_priority cth")
    case True
    have "thread_yield ?s = None"
      using c th(4) Cons.prems(4) by (simp add: thread_yield_def thread_current_def)
    then have "thread_unblock t (unlink t s) = None"
      using thread_unblock_eq[OF th(1) cu c(2)] True np Cons.prems(3) by simp
    with rm th(2) due show ?thesis by simp
  next
    case False
    have ub: "thread_unblock t (unlink t s) = Some ?s"
      using thread_unblock_eq[OF th(1) cu c(2)] False Cons.prems(3) by simp
    have k1: "kinv_but {running ?s} ?s"
      using kinv_make_ready[OF kinv_but_unlink[OF kinv_but_weaken[OF k, of "insert t {running s}"], of t] th(1)] by simp
    have c1: "cur_ok lvl ?s cth" using Cons.prems(2) th(4) by (simp add: cur_ok_def)
    have "t \<notin> set ts" using Cons.prems(5) by simp
    then have same: "wakeup_time_of ?s u = wakeup_time_of s u \<and> current_priority_of ?s u = current_priority_of s u"
      if "u \<in> set ts \<or> u = running s" for u
      using that th(4) by (auto simp: wakeup_time_of_def current_priority_of_def)
    have "handle_sleeping_loop now ts ?s = None"
    proof (rule Cons.IH[OF k1 c1])
      show "set ts \<subseteq> set (queues ?s Sleep)"
        using Cons.prems(5,6) kinv_but_parts(4)[OF k] by (auto simp: queues_ok_def)
      show "sorted_wrt (\<lambda>a b. wakeup_time_of ?s a \<le> wakeup_time_of ?s b) ts"
        using Cons.prems(7) same sorted_wrt_mono_rel[of ts "\<lambda>a b. wakeup_time_of s a \<le> wakeup_time_of s b"] by auto
      show "\<not> no_preemption ?s now ts"
        using Cons.prems(8) False th(2) c(1) same np by (auto simp: no_preemption_def current_priority_of_def)
    qed (use Cons.prems(3,4,5) in simp_all)
    with rm ub th(2) due show ?thesis by simp
  qed
qed

end
