(* ===== verification/Pintos_Kernel_Steps.thy ===== *)
theory Pintos_Kernel_Steps
  imports Pintos_Kernel_Ops
begin

section \<open>The steps of the kernel\<close>

text \<open>
  Creation and exit of threads, resumption of a thread from its resume points, and the step
  relation: the running thread goes on with its next resume point, its ordinary code makes a call,
  or the timer interrupts it.
\<close>

subsection \<open>Exit\<close>

lemma thread_exit_tail_kinv:
  assumes k: "kinv_but {running s} s" and cur: "cur_ok lvl s th" and ext: "\<not> in_external_intr s"
    and idl: "idle_thread s \<noteq> Some (running s)" and own: "t_owned_locks th = []"
  obtains s' where "thread_exit_tail s = Some s'" and "kinv s'"
proof -
  note c = cur_okD[OF cur]
  define s1 where "s1 = (intr_disable s)\<lparr>all_list := remove1 (running s) (all_list s),
    ready_mlfq_size := wrap32 (ready_mlfq_size s - 1)\<rparr>"
  have f1: "threads s1 = threads s" "running s1 = running s" "idle_thread s1 = idle_thread s" "\<not> intr_on s1"
    "\<not> in_external_intr s1" "queues s1 = queues s" "locks s1 = locks s" "load_avg s1 = load_avg s"
    using ext by (simp_all add: s1_def)
  have eq: "thread_exit_tail s = schedule (give_up THREAD_DYING s1)"
    using c idl by (auto simp: thread_exit_tail_def s1_def give_up_def Let_def thread_current_def intr_disable_def)
  have i1: "inv_but {running s1} s1"
    using inv_but_frame[OF kinv_but_parts(1)[OF k], of s1] f1 by simp
  have ok: "sched_ok (running s1) (idle_thread s1) (running s1) (th\<lparr>t_status := THREAD_DYING\<rparr>)"
    using c(3,6) by (simp add: sched_ok_def f1)
  show thesis
  proof (rule schedule_give_up[OF i1, of th THREAD_DYING])
    fix n z thn assume n: "schedule (give_up THREAD_DYING s1) = Some (switch_to n z (give_up THREAD_DYING s1))"
      "threads (give_up THREAD_DYING s1) n = Some thn" "t_status thn \<noteq> THREAD_DYING"
      "inv_sched (switch_to n z (give_up THREAD_DYING s1))" "cur_running (switch_to n z (give_up THREAD_DYING s1))"
    have "locks_ok (give_up THREAD_DYING s1)"
      by (rule locks_ok_cong[OF kinv_but_parts(2)[OF k]]) (auto simp: f1 option.map_comp comp_def)
    moreover have "all_ok (give_up THREAD_DYING s1)"
      using kinv_but_parts(3)[OF k] c(1,2) by (auto simp: all_ok_def f1 s1_def split: if_splits)
    moreover have "rest_ok (idle_thread s) False t tht" if "threads (give_up THREAD_DYING s1) t = Some tht" for t tht
    proof (cases "t = running s")
      case True
      then show ?thesis using that c(1,7) own f1 by (auto simp: rest_ok_def)
    next
      case False
      then show ?thesis using that kinv_but_rest[OF k, of t tht] f1 by simp
    qed
    ultimately have "kinv (switch_to n z (give_up THREAD_DYING s1))"
      using f1 by (intro kinv_switch_to[OF n(4,5) _ _ _ _ _ n(2,3)]) auto
    with n(1) eq that show thesis by simp
  qed (use c f1 ok idl in auto)
qed

subsection \<open>Creation\<close>

lemma init_thread_eq:
  assumes t: "threads s t = None" "t \<noteq> running s" "idle_thread s \<noteq> Some t"
    and name: "strlcpy (replicate 16 0) name 16 = Some (nm, len)"
    and p: "PRI_MIN \<le> priority" "priority \<le> PRI_MAX" and cur: "threads s (running s) = Some cth"
  obtains nt where "init_thread t name priority s =
      Some (s\<lparr>threads := (threads s)(t \<mapsto> nt), all_list := all_list s @ [t]\<rparr>)"
    and "t_status nt = THREAD_BLOCKED" "t_elem nt = None" "t_owned_locks nt = []" "t_cont nt = []"
    and "0 \<le> t_current_priority nt" "t_current_priority nt \<le> PRI_MAX" "t_priority nt = t_current_priority nt"
    and "\<not> thread_mlfqs s \<Longrightarrow> t_current_priority nt = priority"
proof (cases "thread_mlfqs s")
  case False
  show thesis
    by (rule that[of "blank_thread\<lparr>t_status := THREAD_BLOCKED, t_name := nm, t_priority := priority,
        t_current_priority := priority\<rparr>"])
      (use False name p in \<open>auto simp: init_thread_def blank_thread_def Let_def upd_thread_def PRI_MIN_def\<close>)
next
  case True
  let ?nt = "blank_thread\<lparr>t_status := THREAD_BLOCKED, t_name := nm, t_recent_cpu := t_recent_cpu cth, t_nice := t_nice cth\<rparr>"
  obtain q where q: "mlfqs_priority ?nt = Some q" "0 \<le> q" "q \<le> PRI_MAX" by (rule mlfqs_priority_bounds)
  show thesis
    by (rule that[of "?nt\<lparr>t_current_priority := q, t_priority := q\<rparr>"])
      (use True name p q t cur in \<open>auto simp: init_thread_def blank_thread_def Let_def upd_thread_def
        thread_recompute_priority_def split: if_splits\<close>)
qed

lemma kinv_but_new_thread:
  assumes k: "kinv_but {running s} s" and t: "threads s t = None" "t < 2 ^ 20"
    and n: "t_status nt = THREAD_BLOCKED" "t_elem nt = None" "t_owned_locks nt = []"
    and cur: "threads s (running s) = Some cth"
  shows "kinv_but {running s, t} (s\<lparr>threads := (threads s)(t \<mapsto> nt), all_list := all_list s @ [t]\<rparr>)"
    (is "kinv_but _ ?s")
proof (rule kinv_butI)
  note p = kinv_but_parts[OF k]
  have "queues_ok ?s" using p(4) t(1) n(2) by (auto simp: queues_ok_def)
  then show "inv_but {running s, t} ?s"
    using p(1) t(1) unfolding inv_but_def by auto
  show "locks_ok ?s" using p(2) t(1) n(3) by (auto simp: locks_ok_def)
  show "all_ok ?s" using p(3) t n(1) by (auto simp: all_ok_def)
  show "rest_ok (idle_thread ?s) (u = running ?s \<and> intr_on ?s) u thu"
    if "threads ?s u = Some thu" "u \<notin> {running s, t}" for u thu
    using that kinv_but_rest[OF k, of u thu] by simp
qed

lemma thread_create_kinv:
  assumes k: "kinv_but {running s} s" and cur: "cur_ok (intr_on s) s cth" and ext: "\<not> in_external_intr s"
    and t: "threads s t = None" "t < 2 ^ 20" and name: "is_cstr name nm"
    and p: "PRI_MIN \<le> priority" "priority \<le> PRI_MAX"
  obtains s' where "thread_create_with pid (Some t) name priority [] s = Some (s', next_tid s)" and "kinv s'"
proof -
  note c = cur_okD[OF cur]
  have ne: "t \<noteq> running s" "idle_thread s \<noteq> Some t"
    using t(1) c(1) kinv_but_parts(1)[OF k] by (auto simp: inv_but_def)
  obtain nm' where nm': "strlcpy (replicate 16 0) name 16 = Some (nm', length nm)"
    using strlcpy_correct_lemma[OF name, of 16 "replicate 16 0"] by auto
  obtain nt where nt: "init_thread t name priority s =
      Some (s\<lparr>threads := (threads s)(t \<mapsto> nt), all_list := all_list s @ [t]\<rparr>)"
    "t_status nt = THREAD_BLOCKED" "t_elem nt = None" "t_owned_locks nt = []" "t_cont nt = []"
    "0 \<le> t_current_priority nt" "t_current_priority nt \<le> PRI_MAX" "t_priority nt = t_current_priority nt"
    by (rule init_thread_eq[OF t(1) ne nm' p c(1)])
  define nt' where "nt' = (case pid of None \<Rightarrow> nt\<lparr>t_tid := next_tid s, t_cont := [K_kernel_thread]\<rparr>
    | Some i \<Rightarrow> nt\<lparr>t_tid := next_tid s, t_pid := i, t_cont := [K_kernel_thread]\<rparr>)"
  have n': "t_status nt' = THREAD_BLOCKED" "t_elem nt' = None" "t_owned_locks nt' = []" "t_cont nt' = [K_kernel_thread]"
    "t_current_priority nt' = t_current_priority nt" "t_priority nt' = t_priority nt"
    using nt by (simp_all add: nt'_def split: option.splits)
  define s1 where "s1 = s\<lparr>all_list := all_list s @ [t], next_tid := wrap32 (next_tid s + 1),
    threads := (threads s)(t \<mapsto> nt')\<rparr>"
  have f1: "running s1 = running s" "idle_thread s1 = idle_thread s" "intr_on s1 = intr_on s"
    "in_external_intr s1 = in_external_intr s" by (simp_all add: s1_def)
  have k1: "kinv_but {running s1, t} s1"
    unfolding f1(1) by (rule kinv_but_frame[OF kinv_but_new_thread[OF k t n'(1-3) c(1)]]) (simp_all add: s1_def)
  have w: "wakes s1 t nt'"
    using ne n' nt(6-8) by (auto simp: wakes_def s1_def rest_ok_def stack_kind_def)
  have c1: "cur_ok (intr_on s1) s1 cth" using cur ne by (simp add: cur_ok_def s1_def)
  obtain s' where s': "thread_unblock t s1 = Some s'" "kinv s'"
    by (rule thread_unblock_kinv[OF k1 w c1]) (use ext f1 in simp)
  have "thread_create_with pid (Some t) name priority [] s = Some (s', next_tid s)"
    using s'(1) unfolding s1_def nt'_def
    by (cases pid) (simp_all add: thread_create_with_def nt(1) allocate_tid_def Let_def upd_thread_def)
  with s'(2) that show thesis by blast
qed

subsection \<open>Resuming\<close>

lemma idle_stack_top:
  assumes "stack_kind True (k # ks)"
  shows "idle_frame k \<and> ks = [] \<or> plain_frame k \<and> stack_kind True ks"
  using assms by (auto simp: stack_kind_def split: if_splits)

lemma nonidle_stack_top: "stack_kind False (k # ks) \<Longrightarrow> \<not> idle_frame k \<and> stack_kind False ks"
  by (auto simp: stack_kind_def)

text \<open>The state in which the topmost resume point runs.\<close>

definition pop_cont :: "kstate \<Rightarrow> kcall list \<Rightarrow> kstate" where
  "pop_cont s ks = upd_thread (running s) (\<lambda>th. th\<lparr>t_cont := ks\<rparr>) s"

lemma pop_cont_frame [simp]:
  "running (pop_cont s ks) = running s" "idle_thread (pop_cont s ks) = idle_thread s"
  "intr_on (pop_cont s ks) = intr_on s" "in_external_intr (pop_cont s ks) = in_external_intr s"
  "queues (pop_cont s ks) = queues s"
  by (simp_all add: pop_cont_def)

lemma kinv_but_pop_cont: "kinv_but {running s} s \<Longrightarrow> kinv_but {running s} (pop_cont s ks)"
  unfolding pop_cont_def by (rule kinv_but_upd) auto

lemma idle_block_kinv:
  assumes k: "kinv_but {running s} s" and t: "threads s (running s) = Some th" "t_status th = THREAD_RUNNING"
    and ok: "sched_ok (running s) (idle_thread s) (running s) th" and own: "t_owned_locks th = []"
    and idl: "idle_thread s = Some (running s)" and cont: "t_cont th = []" and ext: "\<not> in_external_intr s"
  obtains s' where "idle_loop s = Some s'" and "kinv s'"
proof -
  let ?s = "push_cont [K_idle_hlt] (intr_disable s)"
  have k': "kinv_but {running ?s} ?s" using kinv_but_push_cont[of "intr_disable s"] kinv_but_intr_disable[OF k] by simp
  show thesis
    by (rule thread_block_kinv[OF k', of "th\<lparr>t_cont := [K_idle_hlt]\<rparr>"])
      (use t ok own idl cont ext that in \<open>auto simp: idle_loop_def sched_ok_def rest_ok_def stack_kind_def\<close>)
qed

lemma idle_hlt_kinv:
  assumes k: "kinv_but {running s} s" and t: "threads s (running s) = Some th" "t_status th = THREAD_RUNNING"
    and ok: "sched_ok (running s) (idle_thread s) (running s) th" and own: "t_owned_locks th = []"
    and idl: "idle_thread s = Some (running s)" and cont: "t_cont th = []" and ext: "\<not> in_external_intr s"
  shows "kinv (idle_hlt s)"
proof (rule kinv_intro)
  have "kinv_but {running s} (s\<lparr>intr_on := True\<rparr>)" by (rule kinv_but_frame[OF k]) simp_all
  then show "kinv_but {running (idle_hlt s)} (idle_hlt s)"
    unfolding idle_hlt_def using kinv_but_push_cont[of "s\<lparr>intr_on := True\<rparr>"] by simp
  show "cur_ok (intr_on (idle_hlt s)) (idle_hlt s) (th\<lparr>t_cont := [K_idle_loop]\<rparr>)"
    using t ok own idl cont by (auto simp: idle_hlt_def cur_ok_def sched_ok_def rest_ok_def stack_kind_def)
  show "\<not> in_external_intr (idle_hlt s)" using ext by (simp add: idle_hlt_def)
qed

lemma acquires_tail: "length (acquires (k # ks)) \<le> 1 \<Longrightarrow> length (acquires ks) \<le> 1"
  and acquires_tail_set: "set (acquires ks) \<subseteq> set (acquires (k # ks))"
  by (cases k; auto)+

lemma rest_ok_pop:
  assumes r: "rest_ok idl lvl t th" and st: "t_status th \<noteq> THREAD_DYING" and c: "t_cont th = k # ks"
    and k: "\<not> idle_frame k" and lvl': "conts_ok lvl' ks"
  shows "rest_ok idl lvl' t (th\<lparr>t_cont := ks\<rparr>)"
proof -
  have "stack_kind (Some t = idl) ks"
    using r st c k idle_stack_top[of k ks] nonidle_stack_top[of k ks] by (cases "Some t = idl") (auto simp: rest_ok_def)
  moreover have "set (acquires ks) \<inter> set (t_owned_locks th) = {}"
    using r c acquires_tail_set[of ks k] by (auto simp: rest_ok_def)
  moreover have "length (acquires ks) \<le> 1" using r c acquires_tail[of k ks] by (simp add: rest_ok_def)
  ultimately show ?thesis using r st c lvl' by (auto simp: rest_ok_def)
qed

lemma resume_cur_ok:
  assumes cur: "cur_ok (intr_on s) s th" and c: "t_cont th = k # ks" and k: "\<not> idle_frame k" and l: "conts_ok lvl ks"
  shows "cur_ok lvl (pop_cont s ks) (th\<lparr>t_cont := ks\<rparr>)"
proof -
  note d = cur_okD[OF cur]
  have "rest_ok (idle_thread s) lvl (running s) (th\<lparr>t_cont := ks\<rparr>)" by (rule rest_ok_pop[OF d(7) _ c k l]) (simp add: d(2))
  then show ?thesis using d by (simp add: cur_ok_def pop_cont_def sched_ok_def)
qed

lemma exec_plain_kinv:
  assumes k: "kinv_but {running s} s" and cur: "cur_ok True s th" and ext: "\<not> in_external_intr s" and off: "\<not> intr_on s"
  shows "kinv (s\<lparr>intr_on := True\<rparr>)" and "kernel_thread s = Some (s\<lparr>intr_on := True\<rparr>)"
  using kinv_set_level[OF k cur ext] ext by (simp_all add: kernel_thread_def intr_enable_def ASSERT_def)

lemma resume_acquires:
  assumes r: "rest_ok idl lvl t th" and c: "t_cont th = k # ks" and k: "acquires (k # ks) = l # acquires ks"
  shows "acquires ks = []" and "l \<notin> set (t_owned_locks th)"
  using r unfolding rest_ok_def c k by auto

theorem kresume_kinv:
  assumes inv: "kinv s" and th: "threads s (running s) = Some th" and c: "t_cont th = k # ks"
  obtains s' where "kresume s = Some s'" and "kinv s'"
proof -
  obtain th' where cur': "cur_ok (intr_on s) s th'" and kb: "kinv_but {running s} s" by (rule kinv_cur_ok[OF inv])
  have cur: "cur_ok (intr_on s) s th" using cur' th cur_okD(1)[OF cur'] by simp
  note d = cur_okD[OF cur]
  let ?s = "pop_cont s ks" and ?th = "th\<lparr>t_cont := ks\<rparr>"
  have kb': "kinv_but {running ?s} ?s" using kinv_but_pop_cont[OF kb] by simp
  have ext: "\<not> in_external_intr ?s" using inv by (simp add: kinv_def)
  have res: "kresume s = exec_kcall k ?s" using th c by (simp add: kresume_def pop_cont_def)
  have co: "conts_ok (intr_on s) (k # ks)" and sk: "stack_kind (Some (running s) = idle_thread s) (k # ks)"
    using d(2,7) c by (auto simp: rest_ok_def)
  have own: "idle_thread s = Some (running s) \<Longrightarrow> t_owned_locks th = []" using d(7) by (auto simp: rest_ok_def)
  have nonidle: "idle_thread ?s \<noteq> Some (running ?s)" if "\<not> idle_frame k" "\<not> plain_frame k"
    using sk idle_stack_top[of k ks] that by (cases "idle_thread s = Some (running s)") auto
  have isidle: "idle_thread ?s = Some (running ?s) \<and> ks = []" if "idle_frame k" "\<not> plain_frame k"
    using sk idle_stack_top[of k ks] nonidle_stack_top[of k ks] that by (cases "idle_thread s = Some (running s)") auto
  have t': "threads ?s (running ?s) = Some ?th" "t_status ?th = THREAD_RUNNING"
    "sched_ok (running ?s) (idle_thread ?s) (running ?s) ?th"
    using d by (auto simp: pop_cont_def sched_ok_def)
  note pop = resume_cur_ok[OF cur c]
  have "\<exists>s'. exec_kcall k ?s = Some s' \<and> kinv s'"
  proof (cases k)
    case (K_intr_set_level b)
    with kinv_set_level[OF kb' pop[of b] ext] co show ?thesis by simp
  next
    case K_iret
    with exec_plain_kinv[OF kb' pop[of True] ext] co show ?thesis by simp
  next
    case K_kernel_thread
    with exec_plain_kinv[OF kb' pop[of True] ext] co show ?thesis by simp
  next
    case (K_idle x) with co show ?thesis by simp
  next
    case K_idle_loop
    then have i: "idle_thread ?s = Some (running ?s)" "ks = []" using isidle by auto
    obtain s' where "idle_loop ?s = Some s'" "kinv s'"
      by (rule idle_block_kinv[OF kb' t' _ i(1) _ ext]) (use i own in auto)
    with K_idle_loop show ?thesis by simp
  next
    case K_idle_hlt
    then have i: "idle_thread ?s = Some (running ?s)" "ks = []" using isidle by auto
    have "kinv (idle_hlt ?s)"
      by (rule idle_hlt_kinv[OF kb' t' _ i(1) _ ext]) (use i own in auto)
    with K_idle_hlt show ?thesis by simp
  next
    case (K_sema_down sm)
    have "cur_ok (intr_on ?s) ?s ?th" using pop[of "intr_on s"] co K_sema_down by simp
    from sema_down_kinv[OF kb' this ext, of sm] nonidle K_sema_down show ?thesis by auto
  next
    case (K_sema_down_loop sm old)
    have "cur_ok old ?s ?th" "\<not> intr_on ?s" using pop[of old] co K_sema_down_loop by simp_all
    from sema_down_loop_kinv[OF kb' this ext, of sm] nonidle K_sema_down_loop show ?thesis by auto
  next
    case (K_lock_acquire l)
    have "cur_ok (intr_on ?s) ?s ?th" using pop[of "intr_on s"] co K_lock_acquire by simp
    from lock_acquire_kinv[OF kb' this ext, of l] resume_acquires[OF d(7) c, of l] nonidle K_lock_acquire
    show ?thesis by auto
  next
    case (K_lock_acquire_loop l old)
    have "cur_ok old ?s ?th" "\<not> intr_on ?s" using pop[of old] co K_lock_acquire_loop by simp_all
    from lock_acquire_loop_kinv[OF kb' this ext, of l] resume_acquires[OF d(7) c, of l] nonidle K_lock_acquire_loop
    show ?thesis by auto
  next
    case (K_cond_broadcast cn l)
    have "cur_ok (intr_on ?s) ?s ?th" using pop[of "intr_on s"] co K_cond_broadcast by simp
    moreover have "l \<in> set (t_owned_locks ?th)" using d(7) c K_cond_broadcast by (auto simp: rest_ok_def)
    ultimately show ?thesis using cond_broadcast_kinv[OF kb' _ ext] K_cond_broadcast by (metis exec_kcall.simps(11))
  qed
  with res that show thesis by auto
qed

end
