(* ===== verification/Pintos_Kernel_Runs.thy ===== *)
theory Pintos_Kernel_Runs
  imports Pintos_Kernel_Steps
begin

section \<open>Runs of the kernel\<close>

text \<open>
  The threads of the machine take turns: a thread resumes what it left undone, or, when it has
  nothing left to do inside the kernel, makes a new call; between the calls the timer may
  interrupt. A run starts where \<open>main\<close> has called \<open>thread_init\<close> and \<open>thread_start\<close>.
\<close>

subsection \<open>Starting the kernel\<close>

text \<open>The static variables before \<open>thread_init\<close>; \<open>t\<close> is the page of the stack that \<open>loader.S\<close> set up.\<close>

definition power_on :: "nat \<Rightarrow> bool \<Rightarrow> kstate" where
  "power_on t mlfqs = \<lparr>threads = (\<lambda>_. None), queues = (\<lambda>_. []), all_list = [], idle_thread = None, initial_thread = 0,
     running = t, next_tid = 1, idle_ticks = 0, kernel_ticks = 0, user_ticks = 0, thread_ticks = 0,
     thread_mlfqs = mlfqs, load_avg = 0, ready_mlfq_size = 0, intr_on = False, in_external_intr = False,
     yield_on_return = False, sema_value = (\<lambda>_. 0), locks = (\<lambda>_. \<lparr>holder = None, bounty = 0\<rparr>),
     cond_waiters = (\<lambda>_. []), ticks = 0\<rparr>"

text \<open>\<open>thread_start\<close> blocks the initial thread until the idle thread, created in page \<open>t1\<close>, has run.\<close>

definition boot :: "bool \<Rightarrow> nat \<Rightarrow> nat \<Rightarrow> kstate option" where
  "boot mlfqs t0 t1 = do {
     s \<leftarrow> thread_init (power_on t0 mlfqs);
     s \<leftarrow> thread_start (Some t1) 0 s;
     s \<leftarrow> kresume s;
     kresume s
   }"

lemma boot_names: "strlcpy (replicate 16 0) [109, 97, 105, 110, 0] 16 =
    Some ([109, 97, 105, 110, 0, 0, 0, 0, 0, 0, 0, 0, 0, 0, 0, 0], 4)"
 "strlcpy (replicate 16 0) [105, 100, 108, 101, 0] 16 =
    Some ([105, 100, 108, 101, 0, 0, 0, 0, 0, 0, 0, 0, 0, 0, 0, 0], 4)"
  by code_simp+

lemmas boot_simps = thread_init_def power_on_def init_thread_def boot_names PRI_MIN_def PRI_MAX_def PRI_DEFAULT_def allocate_tid_def upd_thread_def
    thread_start_def thread_create_def thread_create_with_def sema_init_def  thread_unblock_def is_thread_def intr_disable_def
    ready_list_def elem_push_back_def link_elem_def intr_set_level_def thread_current_def intr_enable_def sema_down_def
   sema_down_loop_def thread_block_def schedule_def next_thread_to_run_def Let_def push_cont_def
   thread_recompute_priority_def decay_recent_cpu_def mlfqs_priority_def fp_from_int_def thread_on_priority_change_def
   elem_pop_front_def elem_remove_def thread_schedule_tail_def blank_thread_def fp_int_div_def fp_to_int_rz_def fp_to_int_rn_def fp_mult_def fp_int_mult_def fp_int_add_def fp_add_def fp_sub_def fp_f_def wrap64_def wrap32_def

definition boot_thread :: "int \<Rightarrow> u8 list \<Rightarrow> int \<Rightarrow> thread" where
  "boot_thread tid n p = blank_thread\<lparr>t_tid := tid, t_status := THREAD_BLOCKED, t_name := n, t_priority := p,
     t_current_priority := p\<rparr>"

lemma boot_init:
  "thread_init (power_on t0 m) = Some ((power_on t0 m)\<lparr>initial_thread := t0, next_tid := 2, all_list := [t0],
     threads := [t0 \<mapsto> (boot_thread 1 [109, 97, 105, 110, 0, 0, 0, 0, 0, 0, 0, 0, 0, 0, 0, 0] (if m then 63 else 31))
       \<lparr>t_status := THREAD_RUNNING\<rparr>]\<rparr>)"
  by (cases m; simp add: boot_simps boot_thread_def; intro ext; simp split: qid.splits)

lemma boot_start:
  assumes "t0 \<noteq> t1" and "0 < p0" "p0 \<le> 63" and mth: "mth = boot_thread 1 n0 p0"
  and ith: "ith = boot_thread 2 [105, 100, 108, 101, 0, 0, 0, 0, 0, 0, 0, 0, 0, 0, 0, 0] (if m then 63 else 0)"
  shows "thread_start (Some t1) 0 ((power_on t0 m)\<lparr>initial_thread := t0, next_tid := 2, all_list := [t0],
     threads := [t0 \<mapsto> mth\<lparr>t_status := THREAD_RUNNING\<rparr>]\<rparr>) =
   Some ((power_on t1 m)\<lparr>initial_thread := t0, next_tid := 3, all_list := [t0, t1], ready_mlfq_size := - 1,
     queues := (\<lambda>_. [])(Sema_waiters 0 := [t0]), 
     threads := [t0 \<mapsto> mth\<lparr>t_elem := Some (Sema_waiters 0), t_cont := [K_sema_down_loop 0 True]\<rparr>,
                 t1 \<mapsto> ith\<lparr>t_status := THREAD_RUNNING, t_cont := [K_kernel_thread, K_idle 0]\<rparr>]\<rparr>)"
  using assms by (cases m; simp add: boot_simps boot_thread_def; auto)

lemma sort_by_singleton: "sort_by f [x] = [x]"
  by (simp add: sort_by_def)

lemma boot_idle:
  assumes "t0 \<noteq> t1" and "0 < p0" "p0 \<le> 63" and "mth = boot_thread 1 n0 p0"
  and "ith = boot_thread 2 n1 (if m then 63 else 0)"
  shows "(do { s \<leftarrow> kresume ((power_on t1 m)\<lparr>initial_thread := t0, next_tid := 3, all_list := [t0, t1], ready_mlfq_size := - 1,
     queues := (\<lambda>_. [])(Sema_waiters 0 := [t0]), 
     threads := [t0 \<mapsto> mth\<lparr>t_elem := Some (Sema_waiters 0), t_cont := [K_sema_down_loop 0 True]\<rparr>,
                 t1 \<mapsto> ith\<lparr>t_status := THREAD_RUNNING, t_cont := [K_kernel_thread, K_idle 0]\<rparr>]\<rparr>); kresume s }) =
    Some ((power_on t1 m)\<lparr>initial_thread := t0, next_tid := 3, all_list := [t0, t1], ready_mlfq_size := - 1,
     idle_thread := Some t1, sema_value := (\<lambda>_. 0)(0 := 1), queues := (\<lambda>_. [])(Ready (nat p0) := [t0]),
     threads := [t0 \<mapsto> mth\<lparr>t_status := THREAD_READY, t_elem := Some (Ready (nat p0)), t_cont := [K_sema_down_loop 0 True]\<rparr>,
                 t1 \<mapsto> ith\<lparr>t_status := THREAD_RUNNING, t_cont := [K_intr_set_level True, K_idle_loop]\<rparr>]\<rparr>)"
  using assms
  by (cases m; simp add: boot_simps boot_thread_def kresume_def kernel_thread_def idle_def sema_up_def sort_waiters_def sort_by_singleton; auto)

lemma boot_state_kinv:
  assumes "t0 \<noteq> t1" and "0 < p0" "p0 \<le> 63" and "mth = boot_thread 1 n0 p0"
  and "ith = boot_thread 2 n1 (if m then 63 else 0)" "t0 < 2 ^ 20" "t1 < 2 ^ 20"
  shows "kinv ((power_on t1 m)\<lparr>initial_thread := t0, next_tid := 3, all_list := [t0, t1], ready_mlfq_size := - 1,
     idle_thread := Some t1, sema_value := (\<lambda>_. 0)(0 := 1), queues := (\<lambda>_. [])(Ready (nat p0) := [t0]),
     threads := [t0 \<mapsto> mth\<lparr>t_status := THREAD_READY, t_elem := Some (Ready (nat p0)), t_cont := [K_sema_down_loop 0 True]\<rparr>,
                 t1 \<mapsto> ith\<lparr>t_status := THREAD_RUNNING, t_cont := [K_intr_set_level True, K_idle_loop]\<rparr>]\<rparr>)"
  using assms
  by (auto simp: kinv_def kinv_but_def inv_but_def queues_ok_def locks_ok_def all_ok_def cur_running_def power_on_def
     sched_ok_def rest_ok_def stack_kind_def boot_thread_def blank_thread_def PRI_MAX_def)

definition boot_end :: "bool \<Rightarrow> nat \<Rightarrow> nat \<Rightarrow> kstate" where
  "boot_end m t0 t1 = (let p0 = (if m then 63 else 31) in
   (power_on t1 m)\<lparr>initial_thread := t0, next_tid := 3, all_list := [t0, t1], ready_mlfq_size := - 1,
     idle_thread := Some t1, sema_value := (\<lambda>_. 0)(0 := 1), queues := (\<lambda>_. [])(Ready (nat p0) := [t0]),
     threads := [t0 \<mapsto> (boot_thread 1 [109, 97, 105, 110, 0, 0, 0, 0, 0, 0, 0, 0, 0, 0, 0, 0] p0)
                   \<lparr>t_status := THREAD_READY, t_elem := Some (Ready (nat p0)), t_cont := [K_sema_down_loop 0 True]\<rparr>,
                 t1 \<mapsto> (boot_thread 2 [105, 100, 108, 101, 0, 0, 0, 0, 0, 0, 0, 0, 0, 0, 0, 0] (if m then 63 else 0))
                   \<lparr>t_status := THREAD_RUNNING, t_cont := [K_intr_set_level True, K_idle_loop]\<rparr>]\<rparr>)"

lemma boot_eq: "t0 \<noteq> t1 \<Longrightarrow> boot m t0 t1 = Some (boot_end m t0 t1)"
  using boot_start[of t0 t1 "if m then 63 else 31" _ _ _ m] boot_idle[of t0 t1 "if m then 63 else 31" _ _ _ _ m]
  unfolding boot_def boot_init Option.bind_lunit boot_end_def Let_def by simp

lemma boot_kinv_lemma:
  assumes "t0 \<noteq> t1" and "t0 < 2 ^ 20" and "t1 < 2 ^ 20"
  obtains s where "boot m t0 t1 = Some s" and "kinv s"
proof (rule that[OF boot_eq[OF assms(1)]])
  show "kinv (boot_end m t0 t1)"
    unfolding boot_end_def Let_def by (rule boot_state_kinv[OF assms(1) _ _ refl refl assms(2,3)]) simp_all
qed

subsection \<open>Steps\<close>

text \<open>The calls a thread makes, and what their comments ask of the caller. \<open>Thread_exit\<close> is the part of
  \<open>thread_exit\<close> behind \<open>process_exit\<close>; \<open>page\<close> is the page that \<open>thread_create\<close> obtains.\<close>

datatype kop =
    Sema_down nat
  | Sema_try_down nat
  | Sema_up nat
  | Lock_acquire nat
  | Lock_try_acquire nat
  | Lock_release nat
  | Cond_wait nat nat nat
  | Cond_signal nat nat
  | Cond_broadcast nat nat
  | Thread_yield
  | Thread_set_priority int
  | Thread_set_nice int
  | Timer_sleep int
  | Thread_create nat "u8 list" int
  | Thread_exit

fun run_op :: "kop \<Rightarrow> kstate \<Rightarrow> kstate option" where
  "run_op (Sema_down sm) s = sema_down sm s"
| "run_op (Sema_try_down sm) s = map_option fst (sema_try_down sm s)"
| "run_op (Sema_up sm) s = sema_up sm s"
| "run_op (Lock_acquire l) s = lock_acquire l s"
| "run_op (Lock_try_acquire l) s = map_option fst (lock_try_acquire l s)"
| "run_op (Lock_release l) s = lock_release l s"
| "run_op (Cond_wait c l w) s = cond_wait c l w s"
| "run_op (Cond_signal c l) s = cond_signal c l s"
| "run_op (Cond_broadcast c l) s = cond_broadcast c l s"
| "run_op Thread_yield s = thread_yield s"
| "run_op (Thread_set_priority p) s = thread_set_priority p s"
| "run_op (Thread_set_nice n) s = thread_set_nice n s"
| "run_op (Timer_sleep n) s = timer_sleep n s"
| "run_op (Thread_create page name p) s = map_option fst (thread_create (Some page) name p [] s)"
| "run_op Thread_exit s = thread_exit_tail s"

fun op_allowed :: "kop \<Rightarrow> kstate \<Rightarrow> bool" where
  "op_allowed (Lock_acquire l) s = (holder (locks s l) \<noteq> Some (running s))"
| "op_allowed (Lock_try_acquire l) s = (holder (locks s l) \<noteq> Some (running s))"
| "op_allowed (Lock_release l) s = (holder (locks s l) = Some (running s))"
| "op_allowed (Cond_wait c l w) s = (holder (locks s l) = Some (running s) \<and> queues s (Sema_waiters w) = [])"
| "op_allowed (Cond_signal c l) s = (holder (locks s l) = Some (running s))"
| "op_allowed (Cond_broadcast c l) s = (holder (locks s l) = Some (running s))"
| "op_allowed (Thread_set_priority p) s = (0 \<le> p \<and> p \<le> PRI_MAX)"
| "op_allowed (Thread_create page name p) s =
     (threads s page = None \<and> page < 2 ^ 20 \<and> 0 \<in> set name \<and> PRI_MIN \<le> p \<and> p \<le> PRI_MAX)"
| "op_allowed Thread_exit s = (case threads s (running s) of Some th \<Rightarrow> t_owned_locks th = [] | None \<Rightarrow> True)"
| "op_allowed _ s = True"

text \<open>A thread is at a call when none of its earlier calls is unfinished.\<close>

definition at_call :: "kstate \<Rightarrow> bool" where
  "at_call s \<longleftrightarrow> (case threads s (running s) of Some th \<Rightarrow> t_cont th = [] | None \<Rightarrow> False)"

inductive kstep :: "kstate \<Rightarrow> kstate \<Rightarrow> bool" where
  resume: "kstep s s'" if "\<not> at_call s" and "kresume s = Some s'"
| call: "kstep s s'" if "at_call s" and "op_allowed op s" and "run_op op s = Some s'"
| tick: "kstep s s'" if "intr_on s" and "no_preemption s (wrap64 (ticks s + 1)) (queues s Sleep)"
    and "timer_irq s = Some s'"

inductive_cases kstepE: "kstep s s'"

abbreviation kreach :: "kstate \<Rightarrow> kstate \<Rightarrow> bool" where
  "kreach \<equiv> kstep\<^sup>*\<^sup>*"

lemma sema_try_down_kinv:
  assumes k: "kinv_but {running s} s" and cur: "cur_ok (intr_on s) s th" and ext: "\<not> in_external_intr s"
  obtains s' b where "sema_try_down sm s = Some (s', b)" and "kinv s'" and "b \<longleftrightarrow> sema_value s sm > 0"
    and "unat (sema_value s' sm) = unat (sema_value s sm) - (if b then 1 else 0)"
proof -
  define s1 where "s1 = (if sema_value s sm > 0
    then s\<lparr>intr_on := False, sema_value := (sema_value s)(sm := sema_value s sm - 1)\<rparr> else s\<lparr>intr_on := False\<rparr>)"
  have k1: "kinv_but {running s1} s1"
    unfolding s1_def by (auto intro: kinv_but_frame[OF k])
  have c1: "cur_ok (intr_on s) s1 th" using cur by (simp add: s1_def cur_ok_def)
  note r = kinv_set_level[OF k1 c1]
  have "sema_try_down sm s = Some (s1\<lparr>intr_on := intr_on s\<rparr>, sema_value s sm > 0)"
    using r(1) ext by (auto simp: sema_try_down_def intr_disable_def s1_def Let_def)
  moreover have "unat (sema_value s1 sm) = unat (sema_value s sm) - (if sema_value s sm > 0 then 1 else 0)"
    by (auto simp: s1_def unat_minus_one word_gt_0)
  ultimately show thesis using that r(2) ext by (simp add: s1_def)
qed

lemma owns_iff_holder:
  assumes "locks_ok s" and "threads s t = Some th"
  shows "holder (locks s l) = Some t \<longleftrightarrow> l \<in> set (t_owned_locks th)"
  using assms by (auto simp: locks_ok_def)

lemma run_op_kinv:
  assumes inv: "kinv s" and at: "at_call s" and ok: "op_allowed op s"
  obtains s' where "run_op op s = Some s'" and "kinv s'"
proof -
  obtain th where cur: "cur_ok (intr_on s) s th" and k: "kinv_but {running s} s" by (rule kinv_cur_ok[OF inv])
  note d = cur_okD[OF cur]
  have ext: "\<not> in_external_intr s" using inv by (simp add: kinv_def)
  have cont: "t_cont th = []" using at d(1) by (simp add: at_call_def)
  then have acq: "acquires (t_cont th) = []" and on: "intr_on s" and idl: "idle_thread s \<noteq> Some (running s)"
    using d(2,7) by (auto simp: rest_ok_def stack_kind_def)
  have own: "holder (locks s l) = Some (running s) \<longleftrightarrow> l \<in> set (t_owned_locks th)" for l
    by (rule owns_iff_holder[OF kinv_but_parts(2)[OF k] d(1)])
  have dist: "distinct (t_owned_locks th)" using d(7) by (simp add: rest_ok_def)
  have rel: "rest_ok (idle_thread s) (intr_on s) (running s) (th\<lparr>t_owned_locks := remove1 l (t_owned_locks th)\<rparr>)" for l
    using d(2,7) cont by (auto simp: rest_ok_def distinct_remove1)
  have nice: "kinv (upd_thread (running s) (\<lambda>th. th\<lparr>t_nice := n\<rparr>) s)" for n
  proof (rule kinv_intro)
    show "kinv_but {running (upd_thread (running s) (\<lambda>th. th\<lparr>t_nice := n\<rparr>) s)} (upd_thread (running s) (\<lambda>th. th\<lparr>t_nice := n\<rparr>) s)"
      using kinv_but_upd[OF k, of "running s" "\<lambda>th. th\<lparr>t_nice := n\<rparr>"] by simp
  qed (use d ext in \<open>auto simp: cur_ok_def sched_ok_def\<close>)
  have "\<exists>s'. run_op op s = Some s' \<and> kinv s'"
  proof (cases op)
    case (Sema_down sm) with sema_down_kinv[OF k cur ext idl, of sm] show ?thesis by auto
  next
    case (Sema_try_down sm)
    obtain s' b where "sema_try_down sm s = Some (s', b)" "kinv s'" by (rule sema_try_down_kinv[OF k cur ext])
    with Sema_try_down show ?thesis by simp
  next
    case (Sema_up sm) with sema_up_kinv[OF k cur ext, of sm] show ?thesis by auto
  next
    case (Lock_acquire l) with lock_acquire_kinv[OF k cur ext idl acq, of l] ok own show ?thesis by auto
  next
    case (Lock_try_acquire l)
    obtain s' b where "lock_try_acquire l s = Some (s', b)" "kinv s'"
      by (rule lock_try_acquire_kinv[OF k cur ext idl acq, of l]) (use ok own Lock_try_acquire in auto)
    with Lock_try_acquire show ?thesis by simp
  next
    case (Lock_release l)
    with lock_release_kinv[OF k ext d(1,2,6) _ dist rel, of l] ok own show ?thesis by auto
  next
    case (Cond_wait c l w) with cond_wait_kinv[OF k cur ext idl _ cont, of l w c] ok own show ?thesis by auto
  next
    case (Cond_signal c l) with cond_signal_kinv[OF k cur ext, of l c] ok own show ?thesis by auto
  next
    case (Cond_broadcast c l) with cond_broadcast_kinv[OF k cur ext, of l c] ok own show ?thesis by auto
  next
    case Thread_yield with thread_yield_kinv[OF k cur ext] show ?thesis by auto
  next
    case (Thread_set_priority p) with thread_set_priority_kinv[OF k cur ext, of p] ok show ?thesis by auto
  next
    case (Thread_set_nice n) with nice d(8) show ?thesis by (simp add: thread_set_nice_def)
  next
    case (Timer_sleep n) with timer_sleep_kinv[OF k cur ext on idl, of n] show ?thesis by auto
  next
    case (Thread_create t name p)
    then obtain nm rest where "name = nm @ 0 # rest" "0 \<notin> set nm" using ok by (auto dest: split_list_first)
    then have "is_cstr name nm" by simp
    with Thread_create ok obtain s' where "thread_create_with None (Some t) name p [] s = Some (s', next_tid s)" "kinv s'"
      by (auto elim!: thread_create_kinv[OF k cur ext])
    with Thread_create show ?thesis by (simp add: thread_create_def)
  next
    case Thread_exit with thread_exit_tail_kinv[OF k cur ext idl] ok d(1) show ?thesis by auto
  qed
  with that show thesis by blast
qed

lemma at_call_cont:
  assumes "kinv s" and "\<not> at_call s"
  obtains th k ks where "threads s (running s) = Some th" and "t_cont th = k # ks"
  using assms by (auto simp: kinv_def cur_running_def at_call_def neq_Nil_conv split: option.splits)

lemma kresume_returns: "kinv s \<Longrightarrow> \<not> at_call s \<Longrightarrow> \<exists>s'. kresume s = Some s' \<and> kinv s'"
  by (meson at_call_cont kresume_kinv)

lemma kstep_kinv: "kstep s s' \<Longrightarrow> kinv s \<Longrightarrow> kinv s'"
  by (induction rule: kstep.induct) (metis kresume_returns run_op_kinv timer_irq_kinv option.inject)+

lemma kreach_kinv: "kreach s s' \<Longrightarrow> kinv s \<Longrightarrow> kinv s'"
  by (induction rule: rtranclp_induct) (auto intro: kstep_kinv)

subsection \<open>Properties\<close>



text \<open>C4. A lock has at most one holder: in every state that the kernel reaches, the threads that list a
  lock among those they own are exactly the thread its \<open>holder\<close> names, and no two threads own it.\<close>

theorem lock_mutual_exclusion:
  assumes "boot m t0 t1 = Some s0" and "t0 \<noteq> t1" and "t0 < 2 ^ 20" and "t1 < 2 ^ 20" and "kreach s0 s"
  shows "(holder (locks s l) = Some a \<longleftrightarrow> (\<exists>th. threads s a = Some th \<and> l \<in> set (t_owned_locks th))) \<and>
    (\<forall>b tha thb. threads s a = Some tha \<and> threads s b = Some thb \<and> l \<in> set (t_owned_locks tha) \<and>
       l \<in> set (t_owned_locks thb) \<longrightarrow> a = b)"
proof -
  have "kinv s0" using boot_kinv_lemma[OF assms(2-4), of m] assms(1) by auto
  then have "locks_ok s" using kreach_kinv[OF assms(5)] by (simp add: kinv_def kinv_but_def)
  then show ?thesis unfolding locks_ok_def by (metis option.inject)
qed

text \<open>A run: the idle thread goes to sleep, the initial thread leaves \<open>thread_start\<close> and takes a lock.\<close>

definition ex_main :: thread where
  "ex_main = boot_thread 1 [109, 97, 105, 110, 0, 0, 0, 0, 0, 0, 0, 0, 0, 0, 0, 0] 31"

definition ex_idle :: thread where
  "ex_idle = boot_thread 2 [105, 100, 108, 101, 0, 0, 0, 0, 0, 0, 0, 0, 0, 0, 0, 0] 0"

definition ex_run1 :: kstate where
  "ex_run1 = (boot_end False 0 1)\<lparr>intr_on := True,
     threads := [0 \<mapsto> ex_main\<lparr>t_status := THREAD_READY, t_elem := Some (Ready 31), t_cont := [K_sema_down_loop 0 True]\<rparr>,
                 1 \<mapsto> ex_idle\<lparr>t_status := THREAD_RUNNING, t_cont := [K_idle_loop]\<rparr>]\<rparr>"

definition ex_run2 :: kstate where
  "ex_run2 = (boot_end False 0 1)\<lparr>running := 0, queues := (\<lambda>_. []),
     threads := [0 \<mapsto> ex_main\<lparr>t_status := THREAD_RUNNING, t_cont := [K_sema_down_loop 0 True]\<rparr>,
                 1 \<mapsto> ex_idle\<lparr>t_cont := [K_idle_hlt]\<rparr>]\<rparr>"

definition ex_run3 :: kstate where
  "ex_run3 = (boot_end False 0 1)\<lparr>running := 0, queues := (\<lambda>_. []), intr_on := True, sema_value := (\<lambda>_. 0),
     threads := [0 \<mapsto> ex_main\<lparr>t_status := THREAD_RUNNING\<rparr>, 1 \<mapsto> ex_idle\<lparr>t_cont := [K_idle_hlt]\<rparr>]\<rparr>"

definition ex_run4 :: kstate where
  "ex_run4 = ex_run3\<lparr>locks := (locks ex_run3)(5 := \<lparr>holder = Some 0, bounty = 0\<rparr>),
     threads := [0 \<mapsto> ex_main\<lparr>t_status := THREAD_RUNNING, t_owned_locks := [5]\<rparr>, 1 \<mapsto> ex_idle\<lparr>t_cont := [K_idle_hlt]\<rparr>]\<rparr>"

lemmas ex_defs = ex_main_def ex_idle_def ex_run1_def ex_run2_def ex_run3_def ex_run4_def boot_end_def boot_thread_def
  kresume_def kernel_thread_def idle_loop_def lock_acquire_def lock_acquire_loop_def lock_held_by_current_thread_def
  lock_take_def upd_lock_def at_call_def

lemma ex_run_steps:
  "kstep (boot_end False 0 1) ex_run1" "kstep ex_run1 ex_run2" "kstep ex_run2 ex_run3" "kstep ex_run3 ex_run4"
proof -
  show "kstep (boot_end False 0 1) ex_run1"
    by (rule kstep.resume) (simp_all add: ex_defs boot_simps)
  show "kstep ex_run1 ex_run2"
    by (rule kstep.resume) (simp_all add: ex_defs boot_simps, auto simp: fun_eq_iff)
  show "kstep ex_run2 ex_run3"
    by (rule kstep.resume) (simp_all add: ex_defs boot_simps, auto)
  show "kstep ex_run3 ex_run4"
    by (rule kstep.call[where op = "Lock_acquire 5"]) (simp_all add: ex_defs boot_simps, auto simp: fun_eq_iff)
qed

theorem lock_mutual_exclusion_witness:
  "\<exists>s0 s. boot False 0 1 = Some s0 \<and> kreach s0 s \<and> holder (locks s 5) = Some 0"
proof -
  have b: "boot False 0 1 = Some (boot_end False 0 1)" using boot_kinv_lemma[of 0 1 False] boot_eq[of 0 1 False] by simp
  have r: "kreach (boot_end False 0 1) ex_run4" using ex_run_steps by (meson rtranclp.intros converse_rtranclp_into_rtranclp)
  have "threads ex_run4 0 = Some (ex_main\<lparr>t_status := THREAD_RUNNING, t_owned_locks := [5]\<rparr>)" by (simp add: ex_run4_def)
  with lock_mutual_exclusion[OF b _ _ _ r, of 5 0] b r show ?thesis by auto
qed

end
