(* ===== verification/Pintos_Kernel_Props.thy ===== *)
theory Pintos_Kernel_Props
  imports Pintos_Kernel_Runs
begin

section \<open>What the calls of the kernel do\<close>

text \<open>
  Beyond keeping the invariant: which thread runs next, which waiter is woken, what priority is left
  when a donation ends, and which sleeping threads a tick of the timer wakes.
\<close>

subsection \<open>A kernel with threads in every list\<close>

definition ex_thread :: "thread_status \<Rightarrow> int \<Rightarrow> qid option \<Rightarrow> kcall list \<Rightarrow> thread" where
  "ex_thread st p q ks = blank_thread\<lparr>t_status := st, t_priority := p, t_current_priority := p, t_elem := q, t_cont := ks\<rparr>"

text \<open>Thread 0 runs and owns lock 5 with a donated priority; threads 2, 4 and 6 wait for semaphore 3,
  thread 8 is ready, thread 10 sleeps and has priority \<open>p\<close>, thread 1 is idle.\<close>

definition ex_kernel :: "int \<Rightarrow> kstate" where
  "ex_kernel p = (power_on 0 False)\<lparr>idle_thread := Some 1, intr_on := True, all_list := [0, 1, 2, 4, 6, 8, 10],
     locks := (\<lambda>_. \<lparr>holder = None, bounty = 0\<rparr>)(5 := \<lparr>holder = Some 0, bounty = 40\<rparr>),
     queues := (\<lambda>_. [])(Sema_waiters 3 := [2, 4, 6], Ready 40 := [8], Sleep := [10]),
     threads := [0 \<mapsto> (ex_thread THREAD_RUNNING 31 None [])\<lparr>t_current_priority := 40, t_owned_locks := [5]\<rparr>,
       1 \<mapsto> ex_thread THREAD_BLOCKED 0 None [K_idle_hlt],
       2 \<mapsto> ex_thread THREAD_BLOCKED 10 (Some (Sema_waiters 3)) [K_sema_down_loop 3 True],
       4 \<mapsto> ex_thread THREAD_BLOCKED 40 (Some (Sema_waiters 3)) [K_sema_down_loop 3 True],
       6 \<mapsto> ex_thread THREAD_BLOCKED 40 (Some (Sema_waiters 3)) [K_sema_down_loop 3 True],
       8 \<mapsto> ex_thread THREAD_READY 40 (Some (Ready 40)) [K_intr_set_level True],
       10 \<mapsto> ex_thread THREAD_BLOCKED p (Some Sleep) [K_intr_set_level True]]\<rparr>"

lemma ex_kernel_kinv:
  assumes "0 \<le> p" and "p \<le> 63"
  shows "kinv (ex_kernel p)"
proof -
  have "queues_ok (ex_kernel p)"
    unfolding queues_ok_def ex_kernel_def ex_thread_def blank_thread_def power_on_def by (auto split: if_splits)
  moreover have "locks_ok (ex_kernel p)"
    unfolding locks_ok_def ex_kernel_def ex_thread_def blank_thread_def power_on_def PRI_MAX_def
    by (auto split: if_splits)
  moreover have "all_ok (ex_kernel p)"
    unfolding all_ok_def ex_kernel_def ex_thread_def blank_thread_def power_on_def by (auto split: if_splits)
  ultimately show ?thesis
    unfolding kinv_def kinv_but_def inv_but_def cur_running_def using assms
    by (auto simp: ex_kernel_def ex_thread_def blank_thread_def power_on_def sched_ok_def rest_ok_def stack_kind_def
        PRI_MAX_def split: if_splits)
qed

subsection \<open>Scheduling\<close>

text \<open>C11. Giving up the processor is round robin by priority. The running thread goes behind the ready
  threads of its own priority, and then the thread at the head of the highest non-empty ready list
  runs; the idle thread runs only when all ready lists are empty. Nothing else leaves a list.\<close>

theorem thread_yield_round_robin:
  assumes "kinv s" and "threads s (running s) = Some th"
  defines "ready \<equiv> (\<lambda>p. queues s (Ready p) @
    (if idle_thread s \<noteq> Some (running s) \<and> p = nat (t_current_priority th) then [running s] else []))"
  shows "\<exists>s'. thread_yield s = Some s' \<and> kinv s' \<and> (\<forall>p. queues s' (Ready p) = remove1 (running s') (ready p)) \<and>
    ((\<exists>p \<le> 63. ready p \<noteq> [] \<and> running s' = hd (ready p) \<and> (\<forall>p' \<le> 63. p < p' \<longrightarrow> ready p' = [])) \<or>
     (\<forall>p \<le> 63. ready p = []) \<and> idle_thread s = Some (running s'))"
proof -
  obtain th' where cur': "cur_ok (intr_on s) s th'" and k: "kinv_but {running s} s" by (rule kinv_cur_ok[OF assms(1)])
  have cur: "cur_ok (intr_on s) s th" using cur' assms(2) cur_okD(1)[OF cur'] by simp
  have q: "queues (yielding s th) (Ready p) = ready p" for p by (simp add: yielding_def ready_def)
  show ?thesis
    by (rule thread_yield_switch[OF k cur]) (use assms(1) q in \<open>auto simp: next_run_def kinv_def\<close>)
qed

theorem thread_yield_round_robin_witness:
  "\<exists>s'. thread_yield (ex_kernel 20) = Some s' \<and> running s' = 8 \<and> queues s' (Ready 40) = [0]"
proof -
  let ?th = "(ex_thread THREAD_RUNNING 31 None [])\<lparr>t_current_priority := 40, t_owned_locks := [5]\<rparr>"
  have r: "running (ex_kernel 20) = 0" "idle_thread (ex_kernel 20) = Some 1"
    "\<And>p. queues (ex_kernel 20) (Ready p) = (if p = 40 then [8] else [])"
    by (simp_all add: ex_kernel_def power_on_def)
  have "threads (ex_kernel 20) (running (ex_kernel 20)) = Some ?th" by (simp add: r, simp add: ex_kernel_def)
  from thread_yield_round_robin[OF ex_kernel_kinv[of 20] this] show ?thesis by (auto simp: r split: if_splits)
qed

subsection \<open>Waking\<close>

text \<open>C12. \<open>sema_up\<close> adds one to the semaphore and, if threads wait for it, wakes the one of highest
  priority, the longest waiting among equals; the others stay in the list.\<close>

theorem sema_up_wakes_highest:
  assumes "kinv s" and "queues s (Sema_waiters sm) \<noteq> []"
  shows "\<exists>s' w. sema_up sm s = Some s' \<and> kinv s' \<and> sema_value s' sm = sema_value s sm + 1 \<and>
    w \<in> set (queues s (Sema_waiters sm)) \<and> awake s' w \<and>
    (\<forall>u \<in> set (queues s (Sema_waiters sm)). current_priority_of s u \<le> current_priority_of s w) \<and>
    w = hd (filter (\<lambda>u. current_priority_of s u = current_priority_of s w) (queues s (Sema_waiters sm))) \<and>
    mset (queues s' (Sema_waiters sm)) = mset (queues s (Sema_waiters sm)) - {#w#}"
proof -
  let ?ws = "queues s (Sema_waiters sm)" and ?srt = "sort_by (priority_great s) (queues s (Sema_waiters sm))"
  obtain th where cur: "cur_ok (intr_on s) s th" and k: "kinv_but {running s} s" by (rule kinv_cur_ok[OF assms(1)])
  obtain s' where s': "sema_up sm s = Some s'" "kinv s'" "sema_value s' sm = sema_value s sm + 1"
    "awake s' (hd ?srt)" "queues s' (Sema_waiters sm) = tl ?srt"
    by (rule sema_up_effect[OF k cur, of sm]) (use assms in \<open>auto simp: kinv_def\<close>)
  note h = by_priority.hd_sort_by[OF assms(2), of s]
  have "mset (tl ?srt) = mset ?ws - {#hd ?srt#}"
    unfolding mset_sort_by[of "priority_great s" ?ws, symmetric] using h(1) by (cases ?srt) auto
  moreover have "equiv_by (priority_great s) w = (\<lambda>u. current_priority_of s u = current_priority_of s w)" for w
    by (auto simp: fun_eq_iff equiv_by_def priority_great_def)
  ultimately show ?thesis
    using s' h by (intro exI[of _ s'] exI[of _ "hd ?srt"]) (auto simp: priority_great_def not_less)
qed

theorem sema_up_wakes_highest_witness:
  "\<exists>s'. sema_up 3 (ex_kernel 20) = Some s' \<and> awake s' 4 \<and> mset (queues s' (Sema_waiters 3)) = {#2, 6#}"
proof -
  have q: "queues (ex_kernel 20) (Sema_waiters 3) = [2, 4, 6]" "current_priority_of (ex_kernel 20) 2 = 10"
    "current_priority_of (ex_kernel 20) 4 = 40" "current_priority_of (ex_kernel 20) 6 = 40"
    by (simp_all add: ex_kernel_def current_priority_of_def ex_thread_def)
  from sema_up_wakes_highest[OF ex_kernel_kinv[of 20], of 3] obtain s' w where
    s': "sema_up 3 (ex_kernel 20) = Some s'" "awake s' w" "w \<in> {2, 4, 6}"
    "mset (queues s' (Sema_waiters 3)) = {#2, 4, 6#} - {#w#}"
    "\<forall>u \<in> {2, 4, 6}. current_priority_of (ex_kernel 20) u \<le> current_priority_of (ex_kernel 20) w"
    "w = hd (filter (\<lambda>u. current_priority_of (ex_kernel 20) u = current_priority_of (ex_kernel 20) w) [2, 4, 6])"
    by (auto simp: q(1))
  from s'(3,5,6) q have "w = 4" by (auto split: if_splits)
  with s' show ?thesis by auto
qed



subsection \<open>The timer\<close>




text \<open>\<open>thread_sleep\<close> keeps the sleep list sorted.\<close>

lemma set_insert_ordered [simp]: "set (insert_ordered lessf e xs) = insert e (set xs)"
  by (induction xs) auto

lemma sorted_insert_ordered:
  "sorted_wrt (\<lambda>a b. \<not> thread_wakeup_time_comparison s b a) xs \<Longrightarrow>
     sorted_wrt (\<lambda>a b. \<not> thread_wakeup_time_comparison s b a) (insert_ordered (thread_wakeup_time_comparison s) e xs)"
  by (induction xs) (auto simp: by_wakeup.asym dest: by_wakeup.trans by_wakeup.negtrans)

lemma thread_sleep_sorted:
  assumes q: "queues_ok s" and cur: "threads s (running s) = Some th" "t_status th = THREAD_RUNNING" "t_elem th = None"
    and srt: "sorted_wrt (\<lambda>a b. wakeup_time_of s a \<le> wakeup_time_of s b) (queues s Sleep)"
    and s': "thread_sleep w s = Some s'"
  shows "sorted_wrt (\<lambda>a b. wakeup_time_of s' a \<le> wakeup_time_of s' b) (queues s' Sleep)"
proof -
  let ?s = "upd_thread (running s) (\<lambda>th. th\<lparr>t_wakeup_time := w\<rparr>) s"
  have n: "running s \<notin> set (queues s Sleep)" using queues_ok_in[OF q] cur(1,3) by auto
  have same: "wakeup_time_of ?s t = wakeup_time_of s t" if "t \<in> set (queues s Sleep)" for t
    using that n by (auto simp: wakeup_time_of_def)
  have "sorted_wrt (\<lambda>a b. wakeup_time_of ?s a \<le> wakeup_time_of ?s b) (queues s Sleep)"
    by (rule sorted_wrt_mono_rel[OF _ srt]) (simp add: same)
  then have "sorted_wrt (\<lambda>a b. wakeup_time_of ?s a \<le> wakeup_time_of ?s b)
      (insert_ordered (thread_wakeup_time_comparison ?s) (running s) (queues s Sleep))"
    using sorted_insert_ordered[of ?s] by (simp add: thread_wakeup_time_comparison_def not_less)
  moreover have "queues s' Sleep = insert_ordered (thread_wakeup_time_comparison ?s) (running s) (queues s Sleep)"
    "wakeup_time_of s' = wakeup_time_of ?s"
    using s' cur by (auto simp: thread_sleep_def thread_current_def link_elem_def Let_def wakeup_time_of_def fun_eq_iff
        split: option.splits)
  ultimately show ?thesis by simp
qed






end
