(* ===== verification/Pintos_Block.thy ===== *)
theory Pintos_Block
  imports Pintos_String
begin

section \<open>Block devices (devices/block.c)\<close>

text \<open>
  A block device is an array of sectors of 512 bytes with a name, a type and two counters. The driver
  behind \<open>ops\<close> is the disk: a read returns the bytes last written to the sector. Devices are known by
  numbers; \<open>all_blocks\<close> holds them in the order in which they were registered.
\<close>

subsection \<open>State\<close>

datatype block_type = BLOCK_KERNEL | BLOCK_FILESYS | BLOCK_SCRATCH | BLOCK_SWAP | BLOCK_RAW | BLOCK_FOREIGN

definition BLOCK_SECTOR_SIZE :: nat where "BLOCK_SECTOR_SIZE = 512"

text \<open>\<open>role < BLOCK_ROLE_CNT\<close>\<close>

fun is_role :: "block_type \<Rightarrow> bool" where
  "is_role BLOCK_RAW = False"
| "is_role BLOCK_FOREIGN = False"
| "is_role _ = True"

record block =
  b_name :: "u8 list"
  b_type :: block_type
  b_size :: nat
  b_data :: "nat \<Rightarrow> u8 list"
  read_cnt :: u64
  write_cnt :: u64

record block_state =
  blocks :: "nat \<Rightarrow> block option"
  all_blocks :: "nat list"
  block_by_role :: "block_type \<Rightarrow> nat option"

subsection \<open>Operations\<close>

fun block_type_name :: "block_type \<Rightarrow> string" where
  "block_type_name BLOCK_KERNEL = ''kernel''"
| "block_type_name BLOCK_FILESYS = ''filesys''"
| "block_type_name BLOCK_SCRATCH = ''scratch''"
| "block_type_name BLOCK_SWAP = ''swap''"
| "block_type_name BLOCK_RAW = ''raw''"
| "block_type_name BLOCK_FOREIGN = ''foreign''"

definition block_get_role :: "block_type \<Rightarrow> block_state \<Rightarrow> nat option option" where
  "block_get_role role s = do { ASSERT (is_role role); Some (block_by_role s role) }"

definition block_set_role :: "block_type \<Rightarrow> nat option \<Rightarrow> block_state \<Rightarrow> block_state option" where
  "block_set_role role b s = do {
     ASSERT (is_role role);
     Some (s\<lparr>block_by_role := (block_by_role s)(role := b)\<rparr>)
   }"

text \<open>The element behind the last device is the end of the list, which stands for no device.\<close>

definition list_elem_to_block :: "nat list \<Rightarrow> nat option" where
  "list_elem_to_block es = (case es of [] \<Rightarrow> None | e # _ \<Rightarrow> Some e)"

definition block_first :: "block_state \<Rightarrow> nat option" where
  "block_first s = list_elem_to_block (all_blocks s)"

definition block_next :: "nat \<Rightarrow> block_state \<Rightarrow> nat option" where
  "block_next b s = list_elem_to_block (tl (dropWhile (\<lambda>c. c \<noteq> b) (all_blocks s)))"

fun block_get_by_name_loop :: "u8 list \<Rightarrow> nat list \<Rightarrow> block_state \<Rightarrow> nat option option" where
  "block_get_by_name_loop name [] s = Some None"
| "block_get_by_name_loop name (e # es) s = do {
     b \<leftarrow> blocks s e;
     c \<leftarrow> strcmp name (b_name b);
     if c = 0 then Some (Some e) else block_get_by_name_loop name es s
   }"

definition block_get_by_name :: "u8 list \<Rightarrow> block_state \<Rightarrow> nat option option" where
  "block_get_by_name name s = block_get_by_name_loop name (all_blocks s) s"

definition check_sector :: "block \<Rightarrow> nat \<Rightarrow> unit option" where
  "check_sector b sector = ASSERT (sector < b_size b)"

definition block_read :: "block \<Rightarrow> nat \<Rightarrow> (block \<times> u8 list) option" where
  "block_read b sector = do {
     check_sector b sector;
     Some (b\<lparr>read_cnt := read_cnt b + 1\<rparr>, b_data b sector)
   }"

text \<open>\<open>buffer\<close> are the 512 bytes that the pointer passed by the caller leads to.\<close>

definition block_write :: "block \<Rightarrow> nat \<Rightarrow> u8 list \<Rightarrow> block option" where
  "block_write b sector buffer = do {
     check_sector b sector;
     ASSERT (b_type b \<noteq> BLOCK_FOREIGN);
     ASSERT (length buffer \<ge> BLOCK_SECTOR_SIZE);
     Some (b\<lparr>b_data := (b_data b)(sector := take BLOCK_SECTOR_SIZE buffer), write_cnt := write_cnt b + 1\<rparr>)
   }"

definition block_size :: "block \<Rightarrow> nat" where
  "block_size b = b_size b"

text \<open>\<open>mem\<close> is the memory that \<open>malloc\<close> returns, \<open>data\<close> the contents of the disk behind \<open>ops\<close> and \<open>aux\<close>.\<close>

definition block_register ::
  "nat option \<Rightarrow> u8 list \<Rightarrow> block_type \<Rightarrow> nat \<Rightarrow> (nat \<Rightarrow> u8 list) \<Rightarrow> block_state \<Rightarrow> (block_state \<times> nat) option" where
  "block_register mem name type sz data s = do {
     b \<leftarrow> mem;
     (n, _) \<leftarrow> strlcpy (replicate 16 0) name 16;
     Some (s\<lparr>all_blocks := all_blocks s @ [b],
             blocks := (blocks s)(b \<mapsto> \<lparr>b_name = n, b_type = type, b_size = sz, b_data = data,
                                        read_cnt = 0, write_cnt = 0\<rparr>)\<rparr>, b)
   }"

subsection \<open>A device of whole sectors\<close>

definition block_wf :: "block \<Rightarrow> bool" where
  "block_wf b \<longleftrightarrow> b_type b \<noteq> BLOCK_FOREIGN \<and> b_size b \<le> 2 ^ 31 \<and>
     (\<forall>s < b_size b. length (b_data b s) = BLOCK_SECTOR_SIZE)"

lemma block_read_eq:
  "s < b_size b \<Longrightarrow> block_read b s = Some (b\<lparr>read_cnt := read_cnt b + 1\<rparr>, b_data b s)"
  by (simp add: block_read_def check_sector_def)

lemma block_write_eq:
  "block_wf b \<Longrightarrow> s < b_size b \<Longrightarrow> length buf = BLOCK_SECTOR_SIZE \<Longrightarrow>
     block_write b s buf = Some (b\<lparr>b_data := (b_data b)(s := buf), write_cnt := write_cnt b + 1\<rparr>)"
  by (simp add: block_write_def check_sector_def block_wf_def)

lemma block_wf_write:
  "block_wf b \<Longrightarrow> length buf = BLOCK_SECTOR_SIZE \<Longrightarrow> block_wf (b\<lparr>b_data := (b_data b)(s := buf), write_cnt := w\<rparr>)"
  by (simp add: block_wf_def)

lemma block_wf_read [simp]: "block_wf (b\<lparr>read_cnt := r\<rparr>) = block_wf b"
  by (simp add: block_wf_def)

lemma block_past_end: "\<not> s < b_size b \<Longrightarrow> block_read b s = None \<and> block_write b s buf = None"
  by (simp add: block_read_def block_write_def check_sector_def)

end
