(* ===== verification/Pintos_Cache.thy ===== *)
theory Pintos_Cache
  imports Pintos_Block
begin

section \<open>The buffer cache (filesys/cache.c)\<close>

text \<open>
  64 sectors of the file system device are kept in memory. Every operation runs as one step: the locks
  of the entries and of the table protect it against the other threads. The lock of the read-ahead
  list is a flag, because \<open>cache_read_ahead_internal\<close> calls \<open>cache_read\<close> while it holds the lock;
  \<open>malloc_fails\<close> says that there is no memory for an entry of that list.
\<close>

subsection \<open>State\<close>

definition CACHE_SIZE_IN_SECTORS :: nat where "CACHE_SIZE_IN_SECTORS = 64"

record sector_supl =
  present :: bool
  accessed :: bool
  dirty :: bool
  pinned :: int
  sector_index_in_cache :: int
  sector_index :: int

record buffer_cache =
  cache :: "u8 list list"
  cache_aux :: "sector_supl list"
  gLruCursor :: nat
  gReadAheadList :: "int list"
  gReadAheadWakeUpSema :: u32
  gReadAheadLock :: bool
  gIsCacheThreadRunning :: bool
  malloc_fails :: bool
  fs_device :: block

definition upd_aux :: "nat \<Rightarrow> (sector_supl \<Rightarrow> sector_supl) \<Rightarrow> buffer_cache \<Rightarrow> buffer_cache" where
  "upd_aux i f c = c\<lparr>cache_aux := (cache_aux c)[i := f (cache_aux c ! i)]\<rparr>"

text \<open>\<open>memcpy\<close> from and to the data of a sector; leaving the sector is a failure.\<close>

definition sector_get :: "u8 list \<Rightarrow> nat \<Rightarrow> nat \<Rightarrow> u8 list option" where
  "sector_get data offset sz = (if offset + sz \<le> length data then Some (take sz (drop offset data)) else None)"

definition sector_put :: "u8 list \<Rightarrow> nat \<Rightarrow> u8 list \<Rightarrow> nat \<Rightarrow> u8 list option" where
  "sector_put data offset src sz =
     (if offset + sz \<le> length data \<and> sz \<le> length src
      then Some (take offset data @ take sz src @ drop (offset + sz) data) else None)"

subsection \<open>Operations\<close>

definition cache_read_internal :: "nat \<Rightarrow> int \<Rightarrow> buffer_cache \<Rightarrow> buffer_cache option" where
  "cache_read_internal cache_sector_index sector c = do {
     (d, data) \<leftarrow> block_read (fs_device c) (nat (sector mod 2 ^ 32));
     Some (c\<lparr>fs_device := d, cache := (cache c)[cache_sector_index := data]\<rparr>)
   }"

definition cache_dump_entry :: "nat \<Rightarrow> buffer_cache \<Rightarrow> buffer_cache option" where
  "cache_dump_entry index c =
     (if dirty (cache_aux c ! index) then do {
        let c = upd_aux index (\<lambda>a. a\<lparr>dirty := False\<rparr>) c;
        ASSERT (present (cache_aux c ! index));
        d \<leftarrow> block_write (fs_device c) (nat (sector_index (cache_aux c ! index) mod 2 ^ 32)) (cache c ! index);
        Some (c\<lparr>fs_device := d\<rparr>)
      } else Some c)"

fun cache_dump_loop :: "nat list \<Rightarrow> buffer_cache \<Rightarrow> buffer_cache option" where
  "cache_dump_loop [] c = Some c"
| "cache_dump_loop (i # is) c = do { c \<leftarrow> cache_dump_entry i c; cache_dump_loop is c }"

definition cache_dump_all :: "buffer_cache \<Rightarrow> buffer_cache option" where
  "cache_dump_all c = cache_dump_loop [0 ..< CACHE_SIZE_IN_SECTORS] c"

definition advance :: "nat \<Rightarrow> nat" where
  "advance glru = (glru + 1) mod CACHE_SIZE_IN_SECTORS"

definition retreat :: "nat \<Rightarrow> nat" where
  "retreat glru = (glru + CACHE_SIZE_IN_SECTORS - 1) mod CACHE_SIZE_IN_SECTORS"

fun first_absent :: "nat list \<Rightarrow> buffer_cache \<Rightarrow> nat option" where
  "first_absent [] c = None"
| "first_absent (it # is) c = (if \<not> present (cache_aux c ! it) then Some it else first_absent is c)"

text \<open>The second loop of \<open>cache_lru\<close> has no exit but the victim.\<close>

partial_function (option) cache_lru_loop :: "nat \<Rightarrow> buffer_cache \<Rightarrow> (buffer_cache \<times> nat) option" where
  "cache_lru_loop it c =
     (if pinned (cache_aux c ! it) = 0 \<and> \<not> accessed (cache_aux c ! it) \<and> present (cache_aux c ! it)
      then Some (c, it)
      else cache_lru_loop (advance it) (upd_aux it (\<lambda>a. a\<lparr>accessed := False\<rparr>) c))"

definition cache_lru :: "buffer_cache \<Rightarrow> (buffer_cache \<times> nat) option" where
  "cache_lru c =
     (case first_absent [0 ..< CACHE_SIZE_IN_SECTORS] c of
        Some it \<Rightarrow> Some (c, it)
      | None \<Rightarrow> cache_lru_loop (gLruCursor c) c)"

definition cache_evict :: "buffer_cache \<Rightarrow> (buffer_cache \<times> nat) option" where
  "cache_evict c = do {
     (c, ev_id) \<leftarrow> cache_lru c;
     c \<leftarrow> cache_dump_entry ev_id c;
     let c = upd_aux ev_id (\<lambda>a. a\<lparr>present := False\<rparr>) c;
     ASSERT (pinned (cache_aux c ! ev_id) = 0);
     Some (c, ev_id)
   }"

fun find_sector :: "int \<Rightarrow> nat list \<Rightarrow> buffer_cache \<Rightarrow> nat option" where
  "find_sector index [] c = None"
| "find_sector index (i # is) c = (if sector_index (cache_aux c ! i) = index then Some i else find_sector index is c)"

definition cache_atomic_get_supl_data_and_pin ::
  "int \<Rightarrow> buffer_cache \<Rightarrow> (buffer_cache \<times> sector_supl \<times> nat) option" where
  "cache_atomic_get_supl_data_and_pin index c = do {
     (c, found_index) \<leftarrow> (case find_sector index [0 ..< CACHE_SIZE_IN_SECTORS] c of
        Some i \<Rightarrow> Some (c, i)
      | None \<Rightarrow> cache_evict c);
     let c = upd_aux found_index (\<lambda>a. a\<lparr>pinned := pinned a + 1\<rparr>) c;
     Some (c, cache_aux c ! found_index, found_index)
   }"

definition cache_atomic_set_supl_data_and_unpin ::
  "nat \<Rightarrow> sector_supl \<Rightarrow> buffer_cache \<Rightarrow> buffer_cache option" where
  "cache_atomic_set_supl_data_and_unpin cache_sector_index data c = do {
     ASSERT (cache_sector_index < CACHE_SIZE_IN_SECTORS);
     ASSERT (pinned (cache_aux c ! cache_sector_index) \<noteq> 0);
     let c = upd_aux cache_sector_index (\<lambda>_. data) c;
     Some (upd_aux cache_sector_index (\<lambda>a. a\<lparr>pinned := pinned a - 1\<rparr>) c)
   }"

definition cache_read_ahead_asynch :: "int \<Rightarrow> buffer_cache \<Rightarrow> buffer_cache option" where
  "cache_read_ahead_asynch index c = do {
     ASSERT (\<not> gReadAheadLock c);
     ASSERT (\<not> malloc_fails c);
     Some (c\<lparr>gReadAheadList := gReadAheadList c @ [index], gReadAheadWakeUpSema := gReadAheadWakeUpSema c + 1\<rparr>)
   }"

definition cache_write :: "int \<Rightarrow> u8 list \<Rightarrow> nat \<Rightarrow> nat \<Rightarrow> buffer_cache \<Rightarrow> buffer_cache option" where
  "cache_write index buffer offset sz c = do {
     (c, info, sdataIndex) \<leftarrow> cache_atomic_get_supl_data_and_pin index c;
     (c, info) \<leftarrow> (if present info then do {
          let info = info\<lparr>dirty := True, accessed := True\<rparr>;
          let k = nat (sector_index_in_cache info);
          data \<leftarrow> sector_put (cache c ! k) offset buffer sz;
          Some (c\<lparr>cache := (cache c)[k := data]\<rparr>, info)
        } else do {
          c \<leftarrow> cache_read_internal sdataIndex index c;
          let info = info\<lparr>present := True, accessed := True, sector_index_in_cache := int sdataIndex,
                          sector_index := index, dirty := True\<rparr>;
          let k = nat (sector_index_in_cache info);
          data \<leftarrow> sector_put (cache c ! k) offset buffer sz;
          Some (c\<lparr>cache := (cache c)[k := data]\<rparr>, info)
        });
     cache_atomic_set_supl_data_and_unpin sdataIndex info c
   }"

definition cache_read :: "int \<Rightarrow> nat \<Rightarrow> nat \<Rightarrow> buffer_cache \<Rightarrow> (buffer_cache \<times> u8 list) option" where
  "cache_read index offset sz c = do {
     (c, info, sdataIndex) \<leftarrow> cache_atomic_get_supl_data_and_pin index c;
     (c, info, buffer) \<leftarrow> (if present info then do {
          let info = info\<lparr>accessed := True\<rparr>;
          buffer \<leftarrow> sector_get (cache c ! nat (sector_index_in_cache info)) offset sz;
          Some (c, info, buffer)
        } else do {
          c \<leftarrow> cache_read_internal sdataIndex index c;
          let info = info\<lparr>present := True, accessed := True, sector_index_in_cache := int sdataIndex,
                          sector_index := index, dirty := False\<rparr>;
          buffer \<leftarrow> sector_get (cache c ! nat (sector_index_in_cache info)) offset sz;
          c \<leftarrow> cache_read_ahead_asynch (wrap32 (index + 1)) c;
          Some (c, info, buffer)
        });
     c \<leftarrow> cache_atomic_set_supl_data_and_unpin sdataIndex info c;
     Some (c, buffer)
   }"

text \<open>The element behind the current one is fetched before \<open>cache_read\<close> is called.\<close>

fun cache_read_ahead_loop :: "int list \<Rightarrow> buffer_cache \<Rightarrow> buffer_cache option" where
  "cache_read_ahead_loop [] c = Some c"
| "cache_read_ahead_loop (link # es) c = do {
     (c, _) \<leftarrow> cache_read link 0 16 c;
     cache_read_ahead_loop es (c\<lparr>gReadAheadList := remove1 link (gReadAheadList c)\<rparr>)
   }"

definition cache_read_ahead_internal :: "buffer_cache \<Rightarrow> buffer_cache option" where
  "cache_read_ahead_internal c = do {
     ASSERT (\<not> gReadAheadLock c);
     let c = c\<lparr>gReadAheadLock := True\<rparr>;
     c \<leftarrow> cache_read_ahead_loop (gReadAheadList c) c;
     Some (c\<lparr>gReadAheadLock := False\<rparr>)
   }"

text \<open>The two threads that \<open>cache_init\<close> starts run \<open>cache_main_dump\<close> and \<open>cache_main_read_ahead\<close>; these
  are one round of each.\<close>

definition cache_main_dump :: "buffer_cache \<Rightarrow> buffer_cache option" where
  "cache_main_dump c = (if gIsCacheThreadRunning c then cache_dump_all c else Some c)"

definition cache_main_read_ahead :: "buffer_cache \<Rightarrow> buffer_cache option" where
  "cache_main_read_ahead c =
     (if gIsCacheThreadRunning c \<and> gReadAheadWakeUpSema c > 0
      then cache_read_ahead_internal (c\<lparr>gReadAheadWakeUpSema := gReadAheadWakeUpSema c - 1\<rparr>) else Some c)"

definition empty_supl :: sector_supl where
  "empty_supl = \<lparr>present = False, accessed = False, dirty = False, pinned = 0, sector_index_in_cache = 0, sector_index = 0\<rparr>"

definition cache_init :: "block \<Rightarrow> buffer_cache" where
  "cache_init d = \<lparr>cache = replicate CACHE_SIZE_IN_SECTORS (replicate BLOCK_SECTOR_SIZE 0),
     cache_aux = replicate CACHE_SIZE_IN_SECTORS empty_supl, gLruCursor = 0, gReadAheadList = [],
     gReadAheadWakeUpSema = 0, gReadAheadLock = False, gIsCacheThreadRunning = True, malloc_fails = False,
     fs_device = d\<rparr>"

definition cache_close :: "buffer_cache \<Rightarrow> buffer_cache option" where
  "cache_close c = do {
     c \<leftarrow> cache_dump_all c;
     Some (c\<lparr>gIsCacheThreadRunning := False, cache_aux := replicate CACHE_SIZE_IN_SECTORS empty_supl\<rparr>)
   }"

subsection \<open>Well-formed caches\<close>

text \<open>The entries in use are the first \<open>k\<close>; each holds another sector, and one that is not dirty holds what
  is on the disk.\<close>

definition slot_ok :: "buffer_cache \<Rightarrow> nat \<Rightarrow> bool" where
  "slot_ok c i \<longleftrightarrow> (let a = cache_aux c ! i in
     present a \<and> pinned a = 0 \<and> sector_index_in_cache a = int i \<and>
     0 \<le> sector_index a \<and> sector_index a < int (b_size (fs_device c)) \<and> length (cache c ! i) = BLOCK_SECTOR_SIZE \<and>
     (\<not> dirty a \<longrightarrow> cache c ! i = b_data (fs_device c) (nat (sector_index a))))"

definition cache_base :: "buffer_cache \<Rightarrow> bool" where
  "cache_base c \<longleftrightarrow> length (cache c) = CACHE_SIZE_IN_SECTORS \<and> length (cache_aux c) = CACHE_SIZE_IN_SECTORS \<and>
     block_wf (fs_device c) \<and> gLruCursor c < CACHE_SIZE_IN_SECTORS"

text \<open>All slots in use but \<open>f\<close> are good; \<open>cache_wf\<close> is the case of no such exception.\<close>

definition slots_but :: "buffer_cache \<Rightarrow> nat set \<Rightarrow> nat \<Rightarrow> bool" where
  "slots_but c F k \<longleftrightarrow> cache_base c \<and> k \<le> CACHE_SIZE_IN_SECTORS \<and> (\<forall>i < k. i \<notin> F \<longrightarrow> slot_ok c i) \<and>
     (\<forall>i. k \<le> i \<longrightarrow> i < CACHE_SIZE_IN_SECTORS \<longrightarrow> cache_aux c ! i = empty_supl) \<and>
     inj_on (\<lambda>i. sector_index (cache_aux c ! i)) ({..< k} - F)"

definition cache_wf :: "buffer_cache \<Rightarrow> bool" where
  "cache_wf c \<longleftrightarrow> (\<exists>k. slots_but c {} k)"

definition cached :: "buffer_cache \<Rightarrow> nat \<Rightarrow> nat \<Rightarrow> bool" where
  "cached c s i \<longleftrightarrow> present (cache_aux c ! i) \<and> sector_index (cache_aux c ! i) = int s"

text \<open>What the device will hold once everything is written back.\<close>

definition cache_view :: "buffer_cache \<Rightarrow> nat \<Rightarrow> u8 list" where
  "cache_view c s = (case find (cached c s) [0 ..< CACHE_SIZE_IN_SECTORS] of
     Some i \<Rightarrow> cache c ! i | None \<Rightarrow> b_data (fs_device c) s)"

lemma find_unique:
  assumes "P i" and "i < n" and "\<And>j. j < n \<Longrightarrow> P j \<Longrightarrow> j = i"
  shows "find P [0 ..< n] = Some i"
proof (cases "find P [0 ..< n]")
  case None
  with assms(1,2) show ?thesis by (auto simp: find_None_iff)
next
  case (Some j)
  then have "P j" "j < n" by (auto simp: find_Some_iff)
  with assms(3) Some show ?thesis by auto
qed

lemma slots_but_present:
  assumes "slots_but c F k" and "i < CACHE_SIZE_IN_SECTORS" and "i \<notin> F"
  shows "present (cache_aux c ! i) \<longleftrightarrow> i < k"
  using assms by (cases "i < k") (auto simp: slots_but_def slot_ok_def empty_supl_def Let_def)

lemma cached_unique:
  assumes "slots_but c F k" and "cached c s i" and "cached c s j" and "i \<notin> F" and "j \<notin> F"
    and "i < CACHE_SIZE_IN_SECTORS" and "j < CACHE_SIZE_IN_SECTORS"
  shows "i = j"
proof -
  have "i < k" "j < k" using assms slots_but_present[OF assms(1)] by (auto simp: cached_def)
  moreover have "inj_on (\<lambda>i. sector_index (cache_aux c ! i)) ({..< k} - F)" using assms(1) by (simp add: slots_but_def)
  ultimately show ?thesis using assms by (auto simp: inj_on_def cached_def)
qed

lemma cache_view_hit:
  assumes "slots_but c {} k" and "cached c s i" and "i < CACHE_SIZE_IN_SECTORS"
  shows "cache_view c s = cache c ! i"
proof -
  have "find (cached c s) [0 ..< CACHE_SIZE_IN_SECTORS] = Some i"
    by (rule find_unique[of "cached c s" i, OF assms(2,3)]) (rule cached_unique[OF assms(1) _ assms(2)], use assms(3) in auto)
  then show ?thesis by (simp add: cache_view_def)
qed

lemma cache_view_miss:
  assumes "\<And>i. i < CACHE_SIZE_IN_SECTORS \<Longrightarrow> \<not> cached c s i"
  shows "cache_view c s = b_data (fs_device c) s"
proof -
  have "find (cached c s) [0 ..< CACHE_SIZE_IN_SECTORS] = None" using assms by (auto simp: find_None_iff)
  then show ?thesis by (simp add: cache_view_def)
qed

subsection \<open>The victim\<close>

text \<open>States that differ in the marks \<open>accessed\<close> only.\<close>

definition same_but_accessed :: "buffer_cache \<Rightarrow> buffer_cache \<Rightarrow> bool" where
  "same_but_accessed c c' \<longleftrightarrow> (\<exists>aux. c' = c\<lparr>cache_aux := aux\<rparr> \<and>
     list_all2 (\<lambda>a a'. \<exists>b. a' = a\<lparr>accessed := b\<rparr>) (cache_aux c) aux)"

lemma accessed_same: "\<exists>b. a = a\<lparr>accessed := b\<rparr>" for a :: sector_supl
  by (rule exI[of _ "accessed a"]) simp

lemma same_but_accessed_refl: "same_but_accessed c c"
  unfolding same_but_accessed_def by (rule exI[of _ "cache_aux c"]) (simp add: list_all2_refl accessed_same)

lemma same_but_accessed_trans:
  assumes "same_but_accessed c d" and "same_but_accessed d e"
  shows "same_but_accessed c e"
proof -
  obtain x where x: "d = c\<lparr>cache_aux := x\<rparr>" "list_all2 (\<lambda>a a'. \<exists>b. a' = a\<lparr>accessed := b\<rparr>) (cache_aux c) x"
    using assms(1) by (auto simp: same_but_accessed_def)
  obtain y where y: "e = d\<lparr>cache_aux := y\<rparr>" "list_all2 (\<lambda>a a'. \<exists>b. a' = a\<lparr>accessed := b\<rparr>) x y"
    using assms(2) x(1) by (auto simp: same_but_accessed_def)
  have "list_all2 (\<lambda>a a'. \<exists>b. a' = a\<lparr>accessed := b\<rparr>) (cache_aux c) y"
    by (rule list_all2_trans[OF _ x(2) y(2)]) auto
  with x(1) y(1) show ?thesis by (auto simp: same_but_accessed_def)
qed

lemma same_but_accessed_upd: "same_but_accessed c (upd_aux i (\<lambda>a. a\<lparr>accessed := b\<rparr>) c)"
proof -
  have "\<exists>b'. (cache_aux c)[i := (cache_aux c ! i)\<lparr>accessed := b\<rparr>] ! j = (cache_aux c ! j)\<lparr>accessed := b'\<rparr>"
    if "j < length (cache_aux c)" for j
    using that accessed_same[of "cache_aux c ! j"] by (cases "j = i") auto
  then have "list_all2 (\<lambda>a a'. \<exists>b. a' = a\<lparr>accessed := b\<rparr>) (cache_aux c) ((cache_aux c)[i := (cache_aux c ! i)\<lparr>accessed := b\<rparr>])"
    by (simp add: list_all2_conv_all_nth)
  then show ?thesis by (auto simp: same_but_accessed_def upd_aux_def)
qed

lemma same_but_accessed_nth:
  assumes "same_but_accessed c c'" and "i < length (cache_aux c)"
  obtains b where "cache_aux c' ! i = (cache_aux c ! i)\<lparr>accessed := b\<rparr>"
  using assms by (auto simp: same_but_accessed_def list_all2_conv_all_nth)

lemma same_but_accessed_frame:
  assumes "same_but_accessed c c'"
  shows "cache c' = cache c" "fs_device c' = fs_device c" "gLruCursor c' = gLruCursor c"
    "length (cache_aux c') = length (cache_aux c)" "gReadAheadLock c' = gReadAheadLock c" "malloc_fails c' = malloc_fails c"
  using assms by (auto simp: same_but_accessed_def list_all2_lengthD)

lemma cache_lru_loop_returns:
  assumes "length (cache_aux c) = CACHE_SIZE_IN_SECTORS" and "it < CACHE_SIZE_IN_SECTORS"
    and "\<forall>i < CACHE_SIZE_IN_SECTORS. present (cache_aux c ! i) \<and> pinned (cache_aux c ! i) = 0"
  shows "\<exists>c' v. cache_lru_loop it c = Some (c', v) \<and> v < CACHE_SIZE_IN_SECTORS \<and> same_but_accessed c c'"
  using assms
proof (induction "card {i. i < CACHE_SIZE_IN_SECTORS \<and> accessed (cache_aux c ! i)}" arbitrary: c it rule: less_induct)
  case less
  show ?case
  proof (cases "accessed (cache_aux c ! it)")
    case False
    then have "cache_lru_loop it c = Some (c, it)" using less.prems(2,3) by (subst cache_lru_loop.simps) simp
    with less.prems(2) same_but_accessed_refl[of c] show ?thesis by blast
  next
    case True
    let ?c = "upd_aux it (\<lambda>a. a\<lparr>accessed := False\<rparr>) c"
    have aux: "cache_aux ?c ! i = (if i = it then (cache_aux c ! it)\<lparr>accessed := False\<rparr> else cache_aux c ! i)"
      if "i < CACHE_SIZE_IN_SECTORS" for i
      using that less.prems(1) by (simp add: upd_aux_def)
    have "{i. i < CACHE_SIZE_IN_SECTORS \<and> accessed (cache_aux ?c ! i)} =
        {i. i < CACHE_SIZE_IN_SECTORS \<and> accessed (cache_aux c ! i)} - {it}"
      using aux by (auto split: if_splits)
    then have "card {i. i < CACHE_SIZE_IN_SECTORS \<and> accessed (cache_aux ?c ! i)} <
        card {i. i < CACHE_SIZE_IN_SECTORS \<and> accessed (cache_aux c ! i)}"
      using card_Diff1_less[of "{i. i < CACHE_SIZE_IN_SECTORS \<and> accessed (cache_aux c ! i)}" it] True less.prems(2) by simp
    moreover have "advance it < CACHE_SIZE_IN_SECTORS" by (simp add: advance_def CACHE_SIZE_IN_SECTORS_def)
    moreover have "length (cache_aux ?c) = CACHE_SIZE_IN_SECTORS" using less.prems(1) by (simp add: upd_aux_def)
    moreover have "\<forall>i < CACHE_SIZE_IN_SECTORS. present (cache_aux ?c ! i) \<and> pinned (cache_aux ?c ! i) = 0"
      using less.prems(3) aux by simp
    ultimately obtain c' v where r: "cache_lru_loop (advance it) ?c = Some (c', v)" "v < CACHE_SIZE_IN_SECTORS"
      "same_but_accessed ?c c'" using less.hyps[of ?c "advance it"] by blast
    have "cache_lru_loop it c = Some (c', v)" using True r(1) by (subst cache_lru_loop.simps) simp
    with r(2) same_but_accessed_trans[OF same_but_accessed_upd r(3)] show ?thesis by blast
  qed
qed

subsection \<open>Filling a slot\<close>

lemma slots_but_weaken: "slots_but c F k \<Longrightarrow> F \<subseteq> G \<Longrightarrow> slots_but c G k"
  unfolding slots_but_def by (auto intro: inj_on_subset)

text \<open>Two states with the same entries, device contents and cursor.\<close>

definition same_store :: "buffer_cache \<Rightarrow> buffer_cache \<Rightarrow> bool" where
  "same_store c c' \<longleftrightarrow> b_data (fs_device c') = b_data (fs_device c) \<and> b_size (fs_device c') = b_size (fs_device c) \<and>
     b_type (fs_device c') = b_type (fs_device c) \<and> gLruCursor c' = gLruCursor c"

lemma cache_base_len: "slots_but c F k \<Longrightarrow> length (cache c) = CACHE_SIZE_IN_SECTORS \<and> length (cache_aux c) = CACHE_SIZE_IN_SECTORS"
  by (simp add: slots_but_def cache_base_def)

lemma fill_slot:
  assumes s: "slots_but c {f} k" and f: "f < k" and idx: "idx < b_size (fs_device c)"
    and other: "\<And>i. i < CACHE_SIZE_IN_SECTORS \<Longrightarrow> i \<noteq> f \<Longrightarrow> \<not> cached c idx i" and own: "\<And>t. cached c t f \<Longrightarrow> t = idx"
    and c2: "cache c2 = (cache c)[f := d]" "cache_aux c2 = (cache_aux c)[f := a]" "same_store c c2"
    and a: "present a" "pinned a = 0" "sector_index_in_cache a = int f" "sector_index a = int idx"
    and d: "length d = BLOCK_SECTOR_SIZE" "\<not> dirty a \<Longrightarrow> d = b_data (fs_device c) idx"
  shows "slots_but c2 {} k" and "cache_view c2 = (cache_view c)(idx := d)"
proof -
  have f64: "f < CACHE_SIZE_IN_SECTORS" and len: "length (cache c) = CACHE_SIZE_IN_SECTORS" "length (cache_aux c) = CACHE_SIZE_IN_SECTORS"
    and k: "k \<le> CACHE_SIZE_IN_SECTORS" using s f cache_base_len[OF s] by (auto simp: slots_but_def)
  have aux: "cache_aux c2 ! i = (if i = f then a else cache_aux c ! i)" "cache c2 ! i = (if i = f then d else cache c ! i)" for i
    using c2 len f64 by (auto simp: nth_list_update)
  have "cache_base c2" using s c2 len by (auto simp: slots_but_def cache_base_def same_store_def block_wf_def)
  moreover have "slot_ok c2 i" if "i < k" for i
    using that s a d idx c2(3) by (cases "i = f") (auto simp: slots_but_def slot_ok_def aux same_store_def Let_def)
  moreover have "inj_on (\<lambda>i. sector_index (cache_aux c2 ! i)) {..< k}"
  proof -
    have "inj_on (\<lambda>i. sector_index (cache_aux c2 ! i)) ({..< k} - {f})"
      using s by (auto simp: slots_but_def inj_on_def aux)
    moreover have "sector_index (cache_aux c ! i) \<noteq> int idx" if "i < k" "i \<noteq> f" for i
      using other[of i] that k slots_but_present[OF s, of i] by (auto simp: cached_def)
    then have "sector_index (cache_aux c2 ! f) \<notin> (\<lambda>i. sector_index (cache_aux c2 ! i)) ` ({..< k} - {f} - {f})"
      by (auto simp: aux a(4)) (metis a(4))
    ultimately have "inj_on (\<lambda>i. sector_index (cache_aux c2 ! i)) (insert f ({..< k} - {f}))"
      unfolding inj_on_insert by blast
    moreover have "insert f ({..< k} - {f}) = {..< k}" using f by auto
    ultimately show ?thesis by simp
  qed
  ultimately show s2: "slots_but c2 {} k" using s c2 aux f by (auto simp: slots_but_def)
  have cach: "cached c2 t i \<longleftrightarrow> (if i = f then t = idx else cached c t i)" for t i
    using a by (auto simp: cached_def aux)
  show "cache_view c2 = (cache_view c)(idx := d)"
  proof
    fix t
    show "cache_view c2 t = ((cache_view c)(idx := d)) t"
    proof (cases "t = idx")
      case True
      have "cached c2 idx f" by (simp add: cach)
      from cache_view_hit[OF s2 this f64] True show ?thesis by (simp add: aux)
    next
      case False
      have "cached c2 t = cached c t" using False own cach by (auto simp: fun_eq_iff)
      moreover have "cache c2 ! i = cache c ! i" if "find (cached c t) [0 ..< CACHE_SIZE_IN_SECTORS] = Some i" for i
        using that own False by (auto simp: find_Some_iff aux)
      ultimately show ?thesis
        using False c2(3) by (simp add: cache_view_def same_store_def split: option.splits)
    qed
  qed
qed

subsection \<open>Writing back\<close>

lemma cache_view_cong:
  assumes "cache_aux c' = cache_aux c" "cache c' = cache c" "b_data (fs_device c') = b_data (fs_device c)"
  shows "cache_view c' = cache_view c"
proof -
  have "cached c' = cached c" using assms(1) by (intro ext) (simp add: cached_def)
  then show ?thesis using assms by (intro ext) (simp add: cache_view_def split: option.split)
qed

lemma dump_entry_spec:
  assumes s: "slots_but c {} k" and i: "i < CACHE_SIZE_IN_SECTORS"
  obtains c' where "cache_dump_entry i c = Some c'" and "slots_but c' {} k" and "cache_view c' = cache_view c"
    and "cache_aux c' = (cache_aux c)[i := (cache_aux c ! i)\<lparr>dirty := False\<rparr>]" and "cache c' = cache c"
    and "b_size (fs_device c') = b_size (fs_device c)" and "gReadAheadLock c' = gReadAheadLock c" and "malloc_fails c' = malloc_fails c"
    and "gLruCursor c' = gLruCursor c"
proof (cases "dirty (cache_aux c ! i)")
  case False
  then have "(cache_aux c ! i)\<lparr>dirty := False\<rparr> = cache_aux c ! i" by (cases "cache_aux c ! i") simp
  then have "(cache_aux c)[i := (cache_aux c ! i)\<lparr>dirty := False\<rparr>] = cache_aux c" by simp
  with False s that[of c] show thesis by (simp add: cache_dump_entry_def)
next
  case True
  have k: "i < k"
  proof (rule ccontr)
    assume "\<not> i < k" with s i have "cache_aux c ! i = empty_supl" by (simp add: slots_but_def)
    with True show False by (simp add: empty_supl_def)
  qed
  let ?a = "cache_aux c ! i" and ?d = "fs_device c"
  have ok: "slot_ok c i" and wf: "block_wf ?d" and len: "length (cache_aux c) = CACHE_SIZE_IN_SECTORS"
    using s k by (auto simp: slots_but_def cache_base_def)
  define t where "t = nat (sector_index ?a)"
  have t: "sector_index ?a = int t" "t < b_size ?d" "nat (sector_index ?a mod 2 ^ 32) = t"
    using ok wf by (auto simp: slot_ok_def t_def Let_def block_wf_def)
  let ?d' = "?d\<lparr>b_data := (b_data ?d)(t := cache c ! i), write_cnt := write_cnt ?d + 1\<rparr>"
  define c' where "c' = (upd_aux i (\<lambda>a. a\<lparr>dirty := False\<rparr>) c)\<lparr>fs_device := ?d'\<rparr>"
  have f': "cache_aux c' = (cache_aux c)[i := ?a\<lparr>dirty := False\<rparr>]" "cache c' = cache c" "fs_device c' = ?d'"
    "gReadAheadLock c' = gReadAheadLock c" "malloc_fails c' = malloc_fails c" "gLruCursor c' = gLruCursor c"
    by (simp_all add: c'_def upd_aux_def)
  have "block_write ?d t (cache c ! i) = Some ?d'"
    using ok t(2) by (intro block_write_eq[OF wf]) (auto simp: slot_ok_def Let_def)
  then have e: "cache_dump_entry i c = Some c'"
    using True ok t(3) i len by (simp add: cache_dump_entry_def upd_aux_def slot_ok_def Let_def c'_def)
  have wf': "block_wf ?d'" using ok by (intro block_wf_write[OF wf]) (simp add: slot_ok_def Let_def)
  have aux: "cache_aux c' ! j = (if j = i then ?a\<lparr>dirty := False\<rparr> else cache_aux c ! j)" for j
    using i len by (simp add: f' nth_list_update)
  have other: "nat (sector_index (cache_aux c ! j)) \<noteq> t" if "j < k" "j \<noteq> i" for j
  proof
    assume "nat (sector_index (cache_aux c ! j)) = t"
    then have "sector_index (cache_aux c ! j) = sector_index ?a"
      using s that t(1) by (auto simp: slots_but_def slot_ok_def Let_def)
    with s that k show False by (auto simp: slots_but_def inj_on_def)
  qed
  have base: "cache_base c'" using s wf' by (simp add: slots_but_def cache_base_def f')
  have "slot_ok c' j" if "j < k" for j
    using that s ok other[of j] t by (cases "j = i") (auto simp: slots_but_def slot_ok_def Let_def aux f'(2,3))
  moreover have "sector_index (cache_aux c' ! j) = sector_index (cache_aux c ! j)" for j by (simp add: aux)
  then have "inj_on (\<lambda>j. sector_index (cache_aux c' ! j)) {..< k}" using s by (simp add: slots_but_def)
  ultimately have s': "slots_but c' {} k"
    using s base k by (auto simp: slots_but_def aux)
  have "cache_view c' u = cache_view c u" for u
  proof -
    have cach: "cached c' u = cached c u" by (auto simp: cached_def fun_eq_iff aux)
    show ?thesis
    proof (cases "u = t")
      case True
      have "cached c u i" using ok t(1) True by (auto simp: cached_def slot_ok_def Let_def)
      then show ?thesis
        using cache_view_hit[OF s _ i, of u] cache_view_hit[OF s' _ i, of u] by (simp add: cach f'(2))
    next
      case False
      then show ?thesis by (simp add: cache_view_def cach f'(2,3) split: option.split)
    qed
  qed
  then have "cache_view c' = cache_view c" by (simp add: fun_eq_iff)
  from that[OF e s' this] show thesis by (simp add: f')
qed

subsection \<open>Making room\<close>

text \<open>\<open>hole c c1 f k\<close>: \<open>c1\<close> has the free slot \<open>f\<close> and means the same as \<open>c\<close>.\<close>

definition hole :: "buffer_cache \<Rightarrow> buffer_cache \<Rightarrow> nat \<Rightarrow> nat \<Rightarrow> bool" where
  "hole c c1 f k \<longleftrightarrow> slots_but c1 {f} k \<and> f < k \<and> \<not> present (cache_aux c1 ! f) \<and> pinned (cache_aux c1 ! f) = 0 \<and>
     cache_view c1 = cache_view c \<and> b_size (fs_device c1) = b_size (fs_device c) \<and>
     gReadAheadLock c1 = gReadAheadLock c \<and> malloc_fails c1 = malloc_fails c \<and>
     (\<forall>t i. i < CACHE_SIZE_IN_SECTORS \<longrightarrow> cached c1 t i \<longrightarrow> cached c t i)"

lemma hole_at_end:
  assumes s: "slots_but c {} k" and k: "k < CACHE_SIZE_IN_SECTORS"
  shows "hole c c k (Suc k)"
proof -
  have e: "cache_aux c ! k = empty_supl" using s k by (simp add: slots_but_def)
  have "{..< Suc k} - {k} = {..< k}" by auto
  then show ?thesis using s k e by (auto simp: hole_def slots_but_def empty_supl_def less_Suc_eq)
qed

lemma slots_but_accessed:
  assumes s: "slots_but c {} CACHE_SIZE_IN_SECTORS" and a: "same_but_accessed c c'"
  shows "slots_but c' {} CACHE_SIZE_IN_SECTORS" and "cache_view c' = cache_view c"
proof -
  note f = same_but_accessed_frame[OF a]
  have aux: "present (cache_aux c' ! i) = present (cache_aux c ! i)" "pinned (cache_aux c' ! i) = pinned (cache_aux c ! i)"
    "dirty (cache_aux c' ! i) = dirty (cache_aux c ! i)" "sector_index (cache_aux c' ! i) = sector_index (cache_aux c ! i)"
    "sector_index_in_cache (cache_aux c' ! i) = sector_index_in_cache (cache_aux c ! i)"
    if "i < CACHE_SIZE_IN_SECTORS" for i
    using same_but_accessed_nth[OF a, of i] that cache_base_len[OF s] by force+
  have "cache_base c'" using s by (simp add: slots_but_def cache_base_def f)
  moreover have "slot_ok c' i" if "i < CACHE_SIZE_IN_SECTORS" for i
    using s that by (simp add: slots_but_def slot_ok_def aux[OF that] f Let_def)
  moreover have "inj_on (\<lambda>i. sector_index (cache_aux c' ! i)) {..< CACHE_SIZE_IN_SECTORS} =
      inj_on (\<lambda>i. sector_index (cache_aux c ! i)) {..< CACHE_SIZE_IN_SECTORS}"
    by (rule inj_on_cong) (simp add: aux(4))
  ultimately show "slots_but c' {} CACHE_SIZE_IN_SECTORS" using s by (simp add: slots_but_def)
  have "find (cached c' t) [0 ..< CACHE_SIZE_IN_SECTORS] = find (cached c t) [0 ..< CACHE_SIZE_IN_SECTORS]" for t
    by (rule find_cong) (auto simp: cached_def aux)
  then show "cache_view c' = cache_view c" by (intro ext) (simp add: cache_view_def f split: option.split)
qed

lemma drop_slot:
  assumes s: "slots_but c {} k" and i: "i < k" and d: "\<not> dirty (cache_aux c ! i)"
  shows "hole c (upd_aux i (\<lambda>a. a\<lparr>present := False\<rparr>) c) i k"
proof -
  have len: "length (cache_aux c) = CACHE_SIZE_IN_SECTORS" and k: "k \<le> CACHE_SIZE_IN_SECTORS" and ok: "slot_ok c i"
    using s cache_base_len[OF s] i by (auto simp: slots_but_def)
  define c' where "c' = upd_aux i (\<lambda>a. a\<lparr>present := False\<rparr>) c"
  have f: "cache c' = cache c" "fs_device c' = fs_device c" "gLruCursor c' = gLruCursor c" "length (cache_aux c') = length (cache_aux c)"
    "gReadAheadLock c' = gReadAheadLock c" "malloc_fails c' = malloc_fails c"
    by (simp_all add: c'_def upd_aux_def)
  have aux: "cache_aux c' ! j = (if j = i then (cache_aux c ! i)\<lparr>present := False\<rparr> else cache_aux c ! j)" for j
    using len i k by (simp add: c'_def upd_aux_def nth_list_update)
  have "inj_on (\<lambda>j. sector_index (cache_aux c' ! j)) ({..< k} - {i})"
    using s by (auto simp: slots_but_def inj_on_def aux)
  then have "slots_but c' {i} k"
    using s i by (auto simp: slots_but_def cache_base_def f slot_ok_def aux Let_def)
  moreover have "cache_view c' t = cache_view c t" for t
  proof (cases "cached c t i")
    case True
    have "\<not> cached c' t j" if "j < CACHE_SIZE_IN_SECTORS" for j
    proof
      assume "cached c' t j"
      then have j: "j \<noteq> i" "cached c t j" by (auto simp: cached_def aux split: if_splits)
      have "i = j" by (rule cached_unique[OF s True j(2)]) (use that i k in auto)
      with j(1) show False by simp
    qed
    then have "cache_view c' t = b_data (fs_device c) t" using cache_view_miss[of c' t] f(2) by simp
    moreover have "cache_view c t = cache c ! i" using cache_view_hit[OF s True] i k by simp
    moreover have "b_data (fs_device c) t = cache c ! i"
      using ok d True by (simp add: slot_ok_def cached_def Let_def)
    ultimately show ?thesis by simp
  next
    case False
    have "find (cached c' t) [0 ..< CACHE_SIZE_IN_SECTORS] = find (cached c t) [0 ..< CACHE_SIZE_IN_SECTORS]"
      by (rule find_cong) (use False in \<open>auto simp: cached_def aux\<close>)
    then show ?thesis by (simp add: cache_view_def f split: option.split)
  qed
  then have "cache_view c' = cache_view c" by (simp add: fun_eq_iff)
  moreover have "cached c' t j \<Longrightarrow> cached c t j" for t j by (simp add: cached_def aux split: if_splits)
  ultimately show ?thesis
    using ok i by (simp add: hole_def slot_ok_def aux f Let_def flip: c'_def)
qed

lemma first_absent_eq:
  assumes "slots_but c {} k" and "m \<le> CACHE_SIZE_IN_SECTORS"
  shows "first_absent [n ..< m] c = (if max n k < m then Some (max n k) else None)"
  using assms(2)
proof (induction "m - n" arbitrary: n)
  case (Suc d)
  then have "[n ..< m] = n # [Suc n ..< m]" by (simp add: upt_conv_Cons)
  with Suc.hyps(1)[of "Suc n"] Suc.hyps(2) Suc.prems slots_but_present[OF assms(1), of n] show ?case by (auto simp: max_def)
qed simp

lemma cache_evict_spec:
  assumes s: "slots_but c {} k"
  obtains c1 f k1 where "cache_evict c = Some (c1, f)" and "hole c c1 f k1"
proof (cases "k < CACHE_SIZE_IN_SECTORS")
  case True
  have e: "cache_aux c ! k = empty_supl" using s True by (simp add: slots_but_def)
  have "cache_lru c = Some (c, k)" using first_absent_eq[OF s order_refl, of 0] True by (simp add: cache_lru_def)
  moreover have "(cache_aux c)[k := (cache_aux c ! k)\<lparr>present := False\<rparr>] = cache_aux c"
    using e by (simp add: empty_supl_def list_update_same_conv cache_base_len[OF s] True)
  then have "upd_aux k (\<lambda>a. a\<lparr>present := False\<rparr>) c = c" by (simp add: upd_aux_def)
  ultimately have "cache_evict c = Some (c, k)"
    using e by (simp add: cache_evict_def cache_dump_entry_def empty_supl_def)
  then show thesis using that hole_at_end[OF s True] by blast
next
  case False
  then have k: "k = CACHE_SIZE_IN_SECTORS" using s by (simp add: slots_but_def)
  have all: "\<forall>i < CACHE_SIZE_IN_SECTORS. present (cache_aux c ! i) \<and> pinned (cache_aux c ! i) = 0"
    using s k by (auto simp: slots_but_def slot_ok_def Let_def)
  have cur: "gLruCursor c < CACHE_SIZE_IN_SECTORS" using s by (simp add: slots_but_def cache_base_def)
  have len: "length (cache_aux c) = CACHE_SIZE_IN_SECTORS" using cache_base_len[OF s] by simp
  obtain c' v where v: "cache_lru_loop (gLruCursor c) c = Some (c', v)" "v < CACHE_SIZE_IN_SECTORS" "same_but_accessed c c'"
    using cache_lru_loop_returns[OF len cur all] by blast
  note s' = slots_but_accessed[OF s[unfolded k] v(3)] and f = same_but_accessed_frame[OF v(3)]
  have lru: "cache_lru c = Some (c', v)"
    using first_absent_eq[OF s order_refl, of 0] k v(1) by (simp add: cache_lru_def)
  obtain c2 where c2: "cache_dump_entry v c' = Some c2" "slots_but c2 {} CACHE_SIZE_IN_SECTORS" "cache_view c2 = cache_view c'"
    "cache_aux c2 = (cache_aux c')[v := (cache_aux c' ! v)\<lparr>dirty := False\<rparr>]"
    "b_size (fs_device c2) = b_size (fs_device c')" "gReadAheadLock c2 = gReadAheadLock c'" "malloc_fails c2 = malloc_fails c'"
    by (rule dump_entry_spec[OF s'(1) v(2)])
  have nd: "\<not> dirty (cache_aux c2 ! v)" using c2(4) v(2) len f(4) by simp
  let ?c = "upd_aux v (\<lambda>a. a\<lparr>present := False\<rparr>) c2"
  have h: "hole c2 ?c v CACHE_SIZE_IN_SECTORS" by (rule drop_slot[OF c2(2) v(2) nd])
  then have "cache_evict c = Some (?c, v)" using lru c2(1) by (simp add: cache_evict_def hole_def)
  moreover have "cached c t i" if ti: "cached ?c t i" "i < CACHE_SIZE_IN_SECTORS" for t i
  proof -
    have "cached c2 t i" using h ti by (simp add: hole_def)
    then have "cached c' t i" using ti(2) len f(4) 
      by (cases "i = v") (simp_all add: c2(4) cached_def)
    moreover obtain b where "cache_aux c' ! i = (cache_aux c ! i)\<lparr>accessed := b\<rparr>"
      using same_but_accessed_nth[OF v(3), of i] ti(2) len by auto
    ultimately show ?thesis by (simp add: cached_def)
  qed
  ultimately have "hole c ?c v CACHE_SIZE_IN_SECTORS" "cache_evict c = Some (?c, v)"
    using h c2(3,5-7) s'(2) f by (simp_all add: hole_def)
  then show thesis using that by blast
qed

lemma find_sector_eq: "find_sector idx is c = find (\<lambda>i. sector_index (cache_aux c ! i) = idx) is"
  by (induction "is") auto

lemma find_sector_cases:
  assumes s: "slots_but c {} k"
  obtains i where "i < k" and "cached c idx i" and "find_sector (int idx) [0 ..< CACHE_SIZE_IN_SECTORS] c = Some i"
  | "\<forall>i < CACHE_SIZE_IN_SECTORS. \<not> cached c idx i" and "k < CACHE_SIZE_IN_SECTORS"
    and "find_sector (int idx) [0 ..< CACHE_SIZE_IN_SECTORS] c = Some k"
  | "\<forall>i < CACHE_SIZE_IN_SECTORS. \<not> cached c idx i" and "find_sector (int idx) [0 ..< CACHE_SIZE_IN_SECTORS] c = None"
proof (cases "find_sector (int idx) [0 ..< CACHE_SIZE_IN_SECTORS] c")
  case None
  then have "\<forall>i < CACHE_SIZE_IN_SECTORS. \<not> cached c idx i" by (auto simp: find_sector_eq find_None_iff cached_def)
  with None that(3) show thesis by blast
next
  case (Some j)
  then have j: "j < CACHE_SIZE_IN_SECTORS" "sector_index (cache_aux c ! j) = int idx"
    "\<And>i. i < j \<Longrightarrow> sector_index (cache_aux c ! i) \<noteq> int idx"
    by (auto simp: find_sector_eq find_Some_iff)
  note pr = slots_but_present[OF s]
  show thesis
  proof (cases "j < k")
    case True
    with that(1) j pr[of j] Some show thesis by (simp add: cached_def)
  next
    case False
    then have k: "k < CACHE_SIZE_IN_SECTORS" using j(1) by simp
    have "cache_aux c ! j = empty_supl" "cache_aux c ! k = empty_supl" using s False j(1) k by (auto simp: slots_but_def)
    then have "j = k" using j(2) j(3)[of k] False by (cases "k < j") (auto simp: empty_supl_def)
    moreover have "\<forall>i < CACHE_SIZE_IN_SECTORS. \<not> cached c idx i"
      using pr j(3) \<open>j = k\<close> by (auto simp: cached_def)
    ultimately show thesis using that(2) k Some by blast
  qed
qed

subsection \<open>Reading and writing\<close>

lemma upd_aux_upd_aux [simp]: "i < length (cache_aux c) \<Longrightarrow> upd_aux i g (upd_aux i f c) = upd_aux i (g \<circ> f) c"
  by (simp add: upd_aux_def)

lemma pin_cases:
  assumes s: "slots_but c {} k"
  obtains (hit) i where "i < k" and "cached c idx i"
      and "cache_atomic_get_supl_data_and_pin (int idx) c =
        Some (upd_aux i (\<lambda>a. a\<lparr>pinned := 1\<rparr>) c, (cache_aux c ! i)\<lparr>pinned := 1\<rparr>, i)"
  | (miss) c1 f k1 where "hole c c1 f k1" and "\<forall>i < CACHE_SIZE_IN_SECTORS. \<not> cached c1 idx i"
      and "\<forall>i < CACHE_SIZE_IN_SECTORS. \<not> cached c idx i"
      and "cache_atomic_get_supl_data_and_pin (int idx) c =
        Some (upd_aux f (\<lambda>a. a\<lparr>pinned := 1\<rparr>) c1, (cache_aux c1 ! f)\<lparr>pinned := 1\<rparr>, f)"
proof (rule find_sector_cases[OF s, of idx])
  have len: "length (cache_aux c) = CACHE_SIZE_IN_SECTORS" and k: "k \<le> CACHE_SIZE_IN_SECTORS"
    using cache_base_len[OF s] s by (auto simp: slots_but_def)
  {
    fix i assume i: "i < k" "cached c idx i" "find_sector (int idx) [0 ..< CACHE_SIZE_IN_SECTORS] c = Some i"
    have "pinned (cache_aux c ! i) = 0" using s i(1) by (auto simp: slots_but_def slot_ok_def Let_def)
    then have "cache_atomic_get_supl_data_and_pin (int idx) c =
        Some (upd_aux i (\<lambda>a. a\<lparr>pinned := 1\<rparr>) c, (cache_aux c ! i)\<lparr>pinned := 1\<rparr>, i)"
      using i len k by (simp add: cache_atomic_get_supl_data_and_pin_def upd_aux_def)
    with i hit show thesis by blast
  next
    assume n: "\<forall>i < CACHE_SIZE_IN_SECTORS. \<not> cached c idx i" "k < CACHE_SIZE_IN_SECTORS"
      "find_sector (int idx) [0 ..< CACHE_SIZE_IN_SECTORS] c = Some k"
    have h: "hole c c k (Suc k)" by (rule hole_at_end[OF s n(2)])
    then have "cache_atomic_get_supl_data_and_pin (int idx) c =
        Some (upd_aux k (\<lambda>a. a\<lparr>pinned := 1\<rparr>) c, (cache_aux c ! k)\<lparr>pinned := 1\<rparr>, k)"
      using n len by (simp add: cache_atomic_get_supl_data_and_pin_def upd_aux_def hole_def)
    with h n(1) miss show thesis by blast
  next
    assume n: "\<forall>i < CACHE_SIZE_IN_SECTORS. \<not> cached c idx i"
      "find_sector (int idx) [0 ..< CACHE_SIZE_IN_SECTORS] c = None"
    obtain c1 f k1 where e: "cache_evict c = Some (c1, f)" and h: "hole c c1 f k1" by (rule cache_evict_spec[OF s])
    have "f < CACHE_SIZE_IN_SECTORS" "length (cache_aux c1) = CACHE_SIZE_IN_SECTORS"
      using h by (auto simp: hole_def slots_but_def cache_base_def)
    then have "cache_atomic_get_supl_data_and_pin (int idx) c =
        Some (upd_aux f (\<lambda>a. a\<lparr>pinned := 1\<rparr>) c1, (cache_aux c1 ! f)\<lparr>pinned := 1\<rparr>, f)"
      using n e h by (simp add: cache_atomic_get_supl_data_and_pin_def upd_aux_def hole_def)
    moreover have "\<forall>i < CACHE_SIZE_IN_SECTORS. \<not> cached c1 idx i" using h n(1) by (auto simp: hole_def)
    ultimately show thesis using miss[OF h] n(1) by blast
  }
qed

lemma cache_view_length:
  assumes s: "slots_but c {} k" and "t < b_size (fs_device c)"
  shows "length (cache_view c t) = BLOCK_SECTOR_SIZE"
proof (cases "\<exists>i < CACHE_SIZE_IN_SECTORS. cached c t i")
  case True
  then obtain i where i: "i < CACHE_SIZE_IN_SECTORS" "cached c t i" by blast
  then have "i < k" using slots_but_present[OF s i(1)] by (simp add: cached_def)
  then show ?thesis using cache_view_hit[OF s i(2,1)] s by (auto simp: slots_but_def slot_ok_def Let_def)
next
  case False
  then show ?thesis using cache_view_miss[of c t] s assms(2) by (simp add: slots_but_def cache_base_def block_wf_def)
qed

text \<open>What is left alone by reads and writes.\<close>

definition cache_frame :: "buffer_cache \<Rightarrow> buffer_cache \<Rightarrow> bool" where
  "cache_frame c c' \<longleftrightarrow> b_size (fs_device c') = b_size (fs_device c) \<and> gReadAheadLock c' = gReadAheadLock c \<and>
     malloc_fails c' = malloc_fails c"

lemma unpin_eq:
  assumes "f < CACHE_SIZE_IN_SECTORS" and "length (cache_aux c) = CACHE_SIZE_IN_SECTORS" and "pinned (cache_aux c ! f) = 1"
  shows "cache_atomic_set_supl_data_and_unpin f a c = Some (c\<lparr>cache_aux := (cache_aux c)[f := a\<lparr>pinned := pinned a - 1\<rparr>]\<rparr>)"
  using assms by (simp add: cache_atomic_set_supl_data_and_unpin_def upd_aux_def)

lemma hole_facts:
  assumes h: "hole c c1 f k1" and idx: "idx < b_size (fs_device c)" and no: "\<forall>i < CACHE_SIZE_IN_SECTORS. \<not> cached c1 idx i"
  shows "slots_but c1 {f} k1" and "f < k1" and "f < CACHE_SIZE_IN_SECTORS" and "length (cache_aux c1) = CACHE_SIZE_IN_SECTORS"
    and "length (cache c1) = CACHE_SIZE_IN_SECTORS" and "\<not> present (cache_aux c1 ! f)" and "idx < b_size (fs_device c1)"
    and "block_wf (fs_device c1)" and "cache_view c1 = cache_view c" and "b_size (fs_device c1) = b_size (fs_device c)"
    and "gReadAheadLock c1 = gReadAheadLock c" and "malloc_fails c1 = malloc_fails c"
    and "cache_view c idx = b_data (fs_device c1) idx" and "nat (int idx mod 2 ^ 32) = idx"
proof -
  show 1: "slots_but c1 {f} k1" "f < k1" "f < CACHE_SIZE_IN_SECTORS" "length (cache_aux c1) = CACHE_SIZE_IN_SECTORS"
      "length (cache c1) = CACHE_SIZE_IN_SECTORS" "\<not> present (cache_aux c1 ! f)" "idx < b_size (fs_device c1)"
      "block_wf (fs_device c1)" "cache_view c1 = cache_view c" "b_size (fs_device c1) = b_size (fs_device c)"
      "gReadAheadLock c1 = gReadAheadLock c" "malloc_fails c1 = malloc_fails c"
    using h idx by (auto simp: hole_def slots_but_def cache_base_def)
  show "cache_view c idx = b_data (fs_device c1) idx" using cache_view_miss[of c1 idx] no 1(9) by simp
  show "nat (int idx mod 2 ^ 32) = idx" using 1(7,8) by (simp add: block_wf_def nat_mod_as_int)
qed

lemma cache_write_spec:
  assumes s: "slots_but c {} k" and idx: "idx < b_size (fs_device c)" and n: "off + n \<le> BLOCK_SECTOR_SIZE" "n \<le> length buf"
  obtains c' k' where "cache_write (int idx) buf off n c = Some c'" and "slots_but c' {} k'" and "cache_frame c c'"
    and "cache_view c' = (cache_view c)(idx := take off (cache_view c idx) @ take n buf @ drop (off + n) (cache_view c idx))"
proof (rule pin_cases[OF s, of idx])
  let ?d = "take off (cache_view c idx) @ take n buf @ drop (off + n) (cache_view c idx)"
  have len: "length (cache_aux c) = CACHE_SIZE_IN_SECTORS" "length (cache c) = CACHE_SIZE_IN_SECTORS" and k: "k \<le> CACHE_SIZE_IN_SECTORS"
    using cache_base_len[OF s] s by (auto simp: slots_but_def)
  have lv: "length (cache_view c idx) = BLOCK_SECTOR_SIZE" by (rule cache_view_length[OF s idx])
  then have ld: "length ?d = BLOCK_SECTOR_SIZE" using n by simp
  {
    fix i assume i: "i < k" "cached c idx i" "cache_atomic_get_supl_data_and_pin (int idx) c =
        Some (upd_aux i (\<lambda>a. a\<lparr>pinned := 1\<rparr>) c, (cache_aux c ! i)\<lparr>pinned := 1\<rparr>, i)"
    have i64: "i < CACHE_SIZE_IN_SECTORS" using i(1) k by simp
    have v: "cache_view c idx = cache c ! i" by (rule cache_view_hit[OF s i(2) i64])
    have ok: "slot_ok c i" using s i(1) by (simp add: slots_but_def)
    let ?a = "(cache_aux c ! i)\<lparr>dirty := True, accessed := True, pinned := 0\<rparr>"
    let ?c = "c\<lparr>cache := (cache c)[i := ?d], cache_aux := (cache_aux c)[i := ?a]\<rparr>"
    have "cache_write (int idx) buf off n c = Some ?c"
      using i(3) ok n lv i64 len v
      by (simp add: cache_write_def sector_put_def slot_ok_def Let_def unpin_eq upd_aux_def)
    moreover have other: "\<not> cached c idx j" if "j < CACHE_SIZE_IN_SECTORS" "j \<noteq> i" for j
      using cached_unique[OF s i(2) _ _ _ i64 that(1)] that(2) by auto
    have "slots_but ?c {} k" "cache_view ?c = (cache_view c)(idx := ?d)"
      by (rule fill_slot[where a = ?a and d = ?d, OF slots_but_weaken[OF s, of "{i}"] i(1) idx other _ _ _ _ _ _ _ _ ld];
          use i(2) ok in \<open>simp add: cached_def same_store_def slot_ok_def Let_def\<close>)+
    ultimately show thesis using that by (simp add: cache_frame_def)
  next
    fix c1 f k1 assume h: "hole c c1 f k1" and no: "\<forall>i < CACHE_SIZE_IN_SECTORS. \<not> cached c1 idx i"
      "\<forall>i < CACHE_SIZE_IN_SECTORS. \<not> cached c idx i"
      and p: "cache_atomic_get_supl_data_and_pin (int idx) c =
        Some (upd_aux f (\<lambda>a. a\<lparr>pinned := 1\<rparr>) c1, (cache_aux c1 ! f)\<lparr>pinned := 1\<rparr>, f)"
    note s1 = hole_facts(1,2)[OF h idx no(1)] and f = hole_facts(3-)[OF h idx no(1)]
    let ?a = "(cache_aux c1 ! f)\<lparr>present := True, accessed := True, sector_index_in_cache := int f,
      sector_index := int idx, dirty := True, pinned := 0\<rparr>"
    obtain d' where r: "block_read (fs_device c1) idx = Some (d', b_data (fs_device c1) idx)"
      "b_size d' = b_size (fs_device c1)" "b_data d' = b_data (fs_device c1)" "b_type d' = b_type (fs_device c1)"
      using f(5,6) by (auto simp: block_read_eq)
    let ?c = "c1\<lparr>fs_device := d', cache := (cache c1)[f := ?d], cache_aux := (cache_aux c1)[f := ?a]\<rparr>"
    have "cache_write (int idx) buf off n c = Some ?c"
      using p r(1) n lv f
      by (simp add: cache_write_def cache_read_internal_def sector_put_def unpin_eq upd_aux_def)
    moreover have "slots_but ?c {} k1" "cache_view ?c = (cache_view c1)(idx := ?d)"
      by (rule fill_slot[where a = ?a and d = ?d, OF s1(1,2) f(5) _ _ _ _ _ _ _ _ _ ld];
          use no f(4) r(2-4) in \<open>simp add: cached_def same_store_def\<close>)+
    ultimately show thesis using that f(7-10) r(2) by (simp add: cache_frame_def)
  }
qed

lemma cache_read_spec:
  assumes s: "slots_but c {} k" and idx: "idx < b_size (fs_device c)" and n: "off + n \<le> BLOCK_SECTOR_SIZE"
    and ahead: "\<not> gReadAheadLock c" "\<not> malloc_fails c"
  obtains c' k' where "cache_read (int idx) off n c = Some (c', take n (drop off (cache_view c idx)))"
    and "slots_but c' {} k'" and "cache_frame c c'" and "cache_view c' = cache_view c"
proof (rule pin_cases[OF s, of idx])
  let ?d = "cache_view c idx"
  have len: "length (cache_aux c) = CACHE_SIZE_IN_SECTORS" "length (cache c) = CACHE_SIZE_IN_SECTORS" and k: "k \<le> CACHE_SIZE_IN_SECTORS"
    using cache_base_len[OF s] s by (auto simp: slots_but_def)
  have ld: "length ?d = BLOCK_SECTOR_SIZE" by (rule cache_view_length[OF s idx])
  {
    fix i assume i: "i < k" "cached c idx i" "cache_atomic_get_supl_data_and_pin (int idx) c =
        Some (upd_aux i (\<lambda>a. a\<lparr>pinned := 1\<rparr>) c, (cache_aux c ! i)\<lparr>pinned := 1\<rparr>, i)"
    have i64: "i < CACHE_SIZE_IN_SECTORS" using i(1) k by simp
    have v: "cache_view c idx = cache c ! i" by (rule cache_view_hit[OF s i(2) i64])
    have ok: "slot_ok c i" using s i(1) by (simp add: slots_but_def)
    let ?a = "(cache_aux c ! i)\<lparr>accessed := True, pinned := 0\<rparr>"
    let ?c = "c\<lparr>cache_aux := (cache_aux c)[i := ?a]\<rparr>"
    have "cache_read (int idx) off n c = Some (?c, take n (drop off ?d))"
      using i(3) ok n ld i64 len v
      by (simp add: cache_read_def sector_get_def slot_ok_def Let_def unpin_eq upd_aux_def)
    moreover have other: "\<not> cached c idx j" if "j < CACHE_SIZE_IN_SECTORS" "j \<noteq> i" for j
      using cached_unique[OF s i(2) _ _ _ i64 that(1)] that(2) by auto
    have "slots_but ?c {} k" "cache_view ?c = (cache_view c)(idx := ?d)"
      by (rule fill_slot[where a = ?a and d = ?d, OF slots_but_weaken[OF s, of "{i}"] i(1) idx other _ _ _ _ _ _ _ _ ld];
          use i(2) ok v in \<open>simp add: cached_def same_store_def slot_ok_def Let_def\<close>)+
    ultimately show thesis using that by (simp add: cache_frame_def)
  next
    fix c1 f k1 assume h: "hole c c1 f k1" and no: "\<forall>i < CACHE_SIZE_IN_SECTORS. \<not> cached c1 idx i"
      "\<forall>i < CACHE_SIZE_IN_SECTORS. \<not> cached c idx i"
      and p: "cache_atomic_get_supl_data_and_pin (int idx) c =
        Some (upd_aux f (\<lambda>a. a\<lparr>pinned := 1\<rparr>) c1, (cache_aux c1 ! f)\<lparr>pinned := 1\<rparr>, f)"
    note s1 = hole_facts(1,2)[OF h idx no(1)] and f = hole_facts(3-)[OF h idx no(1)]
    let ?a = "(cache_aux c1 ! f)\<lparr>present := True, accessed := True, sector_index_in_cache := int f,
      sector_index := int idx, dirty := False, pinned := 0\<rparr>"
    obtain d' where r: "block_read (fs_device c1) idx = Some (d', b_data (fs_device c1) idx)"
      "b_size d' = b_size (fs_device c1)" "b_data d' = b_data (fs_device c1)" "b_type d' = b_type (fs_device c1)"
      using f(5,6) by (auto simp: block_read_eq)
    let ?c = "c1\<lparr>fs_device := d', cache := (cache c1)[f := ?d], gReadAheadList := gReadAheadList c1 @ [wrap32 (int idx + 1)],
      gReadAheadWakeUpSema := gReadAheadWakeUpSema c1 + 1, cache_aux := (cache_aux c1)[f := ?a]\<rparr>"
    have "cache_read (int idx) off n c = Some (?c, take n (drop off ?d))"
      using p r(1) n ld f ahead
      by (simp add: cache_read_def cache_read_internal_def cache_read_ahead_asynch_def sector_get_def unpin_eq upd_aux_def)
    moreover have "slots_but ?c {} k1" "cache_view ?c = (cache_view c1)(idx := ?d)"
      by (rule fill_slot[where a = ?a and d = ?d, OF s1(1,2) f(5) _ _ _ _ _ _ _ _ _ ld];
          use no f(4,11) r(2-4) in \<open>simp add: cached_def same_store_def\<close>)+
    ultimately show thesis using that f(7-10) r(2) by (simp add: cache_frame_def)
  }
qed

subsection \<open>Start and shutdown\<close>

lemma cache_init_slots: "block_wf d \<Longrightarrow> slots_but (cache_init d) {} 0"
  by (simp add: slots_but_def cache_init_def cache_base_def CACHE_SIZE_IN_SECTORS_def)

lemma empty_not_cached: "i < CACHE_SIZE_IN_SECTORS \<Longrightarrow> cache_aux c = replicate CACHE_SIZE_IN_SECTORS empty_supl \<Longrightarrow> \<not> cached c s i"
  by (simp add: cached_def empty_supl_def)

lemma cache_init_view: "cache_view (cache_init d) = b_data d"
  by (rule ext, subst cache_view_miss) (simp_all add: cached_def cache_init_def empty_supl_def)

lemma cache_dump_loop_spec:
  assumes "slots_but c {} k" and "\<forall>i \<in> set is. i < CACHE_SIZE_IN_SECTORS"
  shows "\<exists>c'. cache_dump_loop is c = Some c' \<and> slots_but c' {} k \<and> cache_view c' = cache_view c \<and> cache_frame c c' \<and>
    (\<forall>i < CACHE_SIZE_IN_SECTORS. dirty (cache_aux c' ! i) \<longrightarrow> dirty (cache_aux c ! i) \<and> i \<notin> set is)"
  using assms
proof (induction "is" arbitrary: c)
  case Nil
  then show ?case by (simp add: cache_frame_def)
next
  case (Cons i "is")
  obtain c1 where c1: "cache_dump_entry i c = Some c1" "slots_but c1 {} k" "cache_view c1 = cache_view c"
    "cache_aux c1 = (cache_aux c)[i := (cache_aux c ! i)\<lparr>dirty := False\<rparr>]" "cache_frame c c1"
    using dump_entry_spec[OF Cons.prems(1), of i] Cons.prems(2) by (auto simp: cache_frame_def)
  obtain c2 where c2: "cache_dump_loop is c1 = Some c2" "slots_but c2 {} k" "cache_view c2 = cache_view c1" "cache_frame c1 c2"
    "\<forall>j < CACHE_SIZE_IN_SECTORS. dirty (cache_aux c2 ! j) \<longrightarrow> dirty (cache_aux c1 ! j) \<and> j \<notin> set is"
    using Cons.IH[OF c1(2)] Cons.prems(2) by auto
  have len: "length (cache_aux c) = CACHE_SIZE_IN_SECTORS" using cache_base_len[OF Cons.prems(1)] by simp
  have "dirty (cache_aux c ! j) \<and> j \<notin> set (i # is)" if j: "j < CACHE_SIZE_IN_SECTORS" "dirty (cache_aux c2 ! j)" for j
  proof -
    have "dirty (cache_aux c1 ! j)" "j \<notin> set is" using c2(5) j by auto
    then show ?thesis using c1(4) len j(1) by (cases "j = i") auto
  qed
  then show ?case using c1 c2 by (auto simp: cache_frame_def)
qed

lemma clean_view:
  assumes s: "slots_but c {} k" and clean: "\<forall>i < CACHE_SIZE_IN_SECTORS. \<not> dirty (cache_aux c ! i)"
  shows "cache_view c = b_data (fs_device c)"
proof
  fix t show "cache_view c t = b_data (fs_device c) t"
  proof (cases "\<exists>i < CACHE_SIZE_IN_SECTORS. cached c t i")
    case True
    then obtain i where i: "i < CACHE_SIZE_IN_SECTORS" "cached c t i" by blast
    then have "i < k" using slots_but_present[OF s i(1)] by (simp add: cached_def)
    then show ?thesis using cache_view_hit[OF s i(2,1)] s i clean by (simp add: slots_but_def slot_ok_def Let_def cached_def)
  next
    case False
    then show ?thesis by (intro cache_view_miss) auto
  qed
qed

lemma cache_dump_all_spec:
  assumes "slots_but c {} k"
  obtains c' where "cache_dump_all c = Some c'" and "slots_but c' {} k" and "cache_view c' = cache_view c"
    and "b_data (fs_device c') = cache_view c" and "cache_frame c c'"
proof -
  obtain c' where c': "cache_dump_all c = Some c'" "slots_but c' {} k" "cache_view c' = cache_view c" "cache_frame c c'"
    "\<forall>i < CACHE_SIZE_IN_SECTORS. \<not> dirty (cache_aux c' ! i)"
    using cache_dump_loop_spec[OF assms, of "[0 ..< CACHE_SIZE_IN_SECTORS]"] by (auto simp: cache_dump_all_def)
  have "b_data (fs_device c') = cache_view c" using clean_view[OF c'(2,5)] c'(3) by simp
  then show thesis by (rule that[OF c'(1-3) _ c'(4)])
qed

lemma cache_close_spec:
  assumes "slots_but c {} k"
  obtains c' where "cache_close c = Some c'" and "slots_but c' {} 0" and "b_data (fs_device c') = cache_view c"
proof -
  obtain c1 where c1: "cache_dump_all c = Some c1" "slots_but c1 {} k" "b_data (fs_device c1) = cache_view c"
    by (rule cache_dump_all_spec[OF assms])
  let ?c = "c1\<lparr>gIsCacheThreadRunning := False, cache_aux := replicate CACHE_SIZE_IN_SECTORS empty_supl\<rparr>"
  have "slots_but ?c {} 0" using c1(2) by (simp add: slots_but_def cache_base_def)
  moreover have "cache_close c = Some ?c" using c1(1) by (simp add: cache_close_def)
  moreover have "b_data (fs_device ?c) = cache_view c" using c1(3) by simp
  ultimately show thesis by (intro that)
qed

end
