(* ===== verification/Pintos_Store.thy ===== *)
theory Pintos_Store
  imports Pintos_Cache
begin

section \<open>A store of sectors\<close>

text \<open>What the file system relies on: sectors that are read and written in part.\<close>

locale sector_store =
  fixes ok :: "'s \<Rightarrow> bool" and sectors :: "'s \<Rightarrow> nat" and view :: "'s \<Rightarrow> nat \<Rightarrow> u8 list"
    and rd :: "int \<Rightarrow> nat \<Rightarrow> nat \<Rightarrow> 's \<Rightarrow> ('s \<times> u8 list) option"
    and wr :: "int \<Rightarrow> u8 list \<Rightarrow> nat \<Rightarrow> nat \<Rightarrow> 's \<Rightarrow> 's option"
  assumes view_length: "ok s \<Longrightarrow> t < sectors s \<Longrightarrow> length (view s t) = BLOCK_SECTOR_SIZE"
    and rd_law: "ok s \<Longrightarrow> t < sectors s \<Longrightarrow> off + n \<le> BLOCK_SECTOR_SIZE \<Longrightarrow>
      \<exists>s'. rd (int t) off n s = Some (s', take n (drop off (view s t))) \<and> ok s' \<and> sectors s' = sectors s \<and> view s' = view s"
    and wr_law: "ok s \<Longrightarrow> t < sectors s \<Longrightarrow> off + n \<le> BLOCK_SECTOR_SIZE \<Longrightarrow> n \<le> length buf \<Longrightarrow>
      \<exists>s'. wr (int t) buf off n s = Some s' \<and> ok s' \<and> sectors s' = sectors s \<and>
        view s' = (view s)(t := take off (view s t) @ take n buf @ drop (off + n) (view s t))"

text \<open>A store that is written back to a device now and then.\<close>

locale flushed_store = sector_store +
  fixes flush :: "'a \<Rightarrow> 'a option" and on_device :: "'a \<Rightarrow> nat \<Rightarrow> u8 list"
  assumes flush_law: "ok s \<Longrightarrow>
      \<exists>s'. flush s = Some s' \<and> ok s' \<and> sectors s' = sectors s \<and> view s' = view s \<and> on_device s' = view s"

text \<open>Programs over a store, and the same programs over sectors that are a function.\<close>

datatype store_op = Read_op nat nat nat | Write_op nat "u8 list" nat nat | Flush_op

definition op_ok :: "nat \<Rightarrow> store_op \<Rightarrow> bool" where
  "op_ok n op = (case op of
     Read_op t off m \<Rightarrow> t < n \<and> off + m \<le> BLOCK_SECTOR_SIZE
   | Write_op t buf off m \<Rightarrow> t < n \<and> off + m \<le> BLOCK_SECTOR_SIZE \<and> m \<le> length buf
   | Flush_op \<Rightarrow> True)"

fun run_store :: "(int \<Rightarrow> nat \<Rightarrow> nat \<Rightarrow> 's \<Rightarrow> ('s \<times> u8 list) option) \<Rightarrow> (int \<Rightarrow> u8 list \<Rightarrow> nat \<Rightarrow> nat \<Rightarrow> 's \<Rightarrow> 's option) \<Rightarrow>
    ('s \<Rightarrow> 's option) \<Rightarrow> store_op list \<Rightarrow> 's \<Rightarrow> ('s \<times> u8 list list) option" where
  "run_store rd wr fl [] s = Some (s, [])"
| "run_store rd wr fl (Read_op t off n # ops) s = do {
     (s, b) \<leftarrow> rd (int t) off n s;
     (s, bs) \<leftarrow> run_store rd wr fl ops s;
     Some (s, b # bs)
   }"
| "run_store rd wr fl (Write_op t buf off n # ops) s = do {
     s \<leftarrow> wr (int t) buf off n s;
     run_store rd wr fl ops s
   }"
| "run_store rd wr fl (Flush_op # ops) s = do {
     s \<leftarrow> fl s;
     run_store rd wr fl ops s
   }"

fun run_disk :: "store_op list \<Rightarrow> (nat \<Rightarrow> u8 list) \<Rightarrow> (nat \<Rightarrow> u8 list) \<times> u8 list list" where
  "run_disk [] m = (m, [])"
| "run_disk (Read_op t off n # ops) m = (let (m', bs) = run_disk ops m in (m', take n (drop off (m t)) # bs))"
| "run_disk (Write_op t buf off n # ops) m = run_disk ops (m(t := take off (m t) @ take n buf @ drop (off + n) (m t)))"
| "run_disk (Flush_op # ops) m = run_disk ops m"

context flushed_store
begin

lemma run_store_refines:
  assumes "ok s" and "\<forall>op \<in> set ops. op_ok (sectors s) op"
  shows "\<exists>s'. run_store rd wr flush ops s = Some (s', snd (run_disk ops (view s))) \<and> ok s' \<and>
    view s' = fst (run_disk ops (view s)) \<and> sectors s' = sectors s"
  using assms
proof (induction ops arbitrary: s)
  case Nil
  then show ?case by simp
next
  case (Cons op ops)
  show ?case
  proof (cases op)
    case (Read_op t off n)
    then obtain s1 where "rd (int t) off n s = Some (s1, take n (drop off (view s t)))" "ok s1" "sectors s1 = sectors s" "view s1 = view s"
      using rd_law[of s t off n] Cons.prems by (auto simp: op_ok_def)
    with Cons.IH[of s1] Cons.prems Read_op show ?thesis by (auto split: prod.split)
  next
    case (Write_op t buf off n)
    then obtain s1 where "wr (int t) buf off n s = Some s1" "ok s1" "sectors s1 = sectors s"
      "view s1 = (view s)(t := take off (view s t) @ take n buf @ drop (off + n) (view s t))"
      using wr_law[of s t off n buf] Cons.prems by (auto simp: op_ok_def)
    with Cons.IH[of s1] Cons.prems Write_op show ?thesis by (auto simp: fun_upd_def)
  next
    case Flush_op
    with flush_law[of s] Cons.IH Cons.prems show ?thesis by fastforce
  qed
qed

end

definition cache_ok :: "buffer_cache \<Rightarrow> bool" where
  "cache_ok c \<longleftrightarrow> cache_wf c \<and> \<not> gReadAheadLock c \<and> \<not> malloc_fails c"

abbreviation cache_sectors :: "buffer_cache \<Rightarrow> nat" where
  "cache_sectors c \<equiv> b_size (fs_device c)"

interpretation cached_disk: sector_store cache_ok cache_sectors cache_view cache_read cache_write
proof
  fix s :: buffer_cache and t off n :: nat and buf :: "u8 list"
  assume ok: "cache_ok s" and t: "t < cache_sectors s"
  obtain k where k: "slots_but s {} k" and a: "\<not> gReadAheadLock s" "\<not> malloc_fails s"
    using ok by (auto simp: cache_ok_def cache_wf_def)
  show "length (cache_view s t) = BLOCK_SECTOR_SIZE" by (rule cache_view_length[OF k t])
  assume n: "off + n \<le> BLOCK_SECTOR_SIZE"
  obtain c1 k1 where "cache_read (int t) off n s = Some (c1, take n (drop off (cache_view s t)))" "slots_but c1 {} k1"
    "cache_frame s c1" "cache_view c1 = cache_view s" by (rule cache_read_spec[OF k t n a])
  then show "\<exists>s'. cache_read (int t) off n s = Some (s', take n (drop off (cache_view s t))) \<and> cache_ok s' \<and>
      cache_sectors s' = cache_sectors s \<and> cache_view s' = cache_view s"
    using a by (auto simp: cache_frame_def cache_ok_def cache_wf_def)
  assume b: "n \<le> length buf"
  obtain c2 k2 where "cache_write (int t) buf off n s = Some c2" "slots_but c2 {} k2" "cache_frame s c2"
    "cache_view c2 = (cache_view s)(t := take off (cache_view s t) @ take n buf @ drop (off + n) (cache_view s t))"
    by (rule cache_write_spec[OF k t n b])
  then show "\<exists>s'. cache_write (int t) buf off n s = Some s' \<and> cache_ok s' \<and> cache_sectors s' = cache_sectors s \<and>
      cache_view s' = (cache_view s)(t := take off (cache_view s t) @ take n buf @ drop (off + n) (cache_view s t))"
    using a by (auto simp: cache_frame_def cache_ok_def cache_wf_def)
qed

interpretation cached_disk: flushed_store cache_ok cache_sectors cache_view cache_read cache_write cache_dump_all "\<lambda>c. b_data (fs_device c)"
proof
  fix s assume ok: "cache_ok s"
  then obtain k where "slots_but s {} k" by (auto simp: cache_ok_def cache_wf_def)
  then obtain c where "cache_dump_all s = Some c" "slots_but c {} k" "cache_view c = cache_view s"
    "b_data (fs_device c) = cache_view s" "cache_frame s c" by (rule cache_dump_all_spec)
  then show "\<exists>s'. cache_dump_all s = Some s' \<and> cache_ok s' \<and> cache_sectors s' = cache_sectors s \<and>
      cache_view s' = cache_view s \<and> b_data (fs_device s') = cache_view s"
    using ok by (auto simp: cache_ok_def cache_wf_def cache_frame_def)
qed

lemma cache_init_ok: "block_wf d \<Longrightarrow> cache_ok (cache_init d)"
  using cache_init_slots[of d] by (auto simp: cache_ok_def cache_wf_def cache_init_def)

subsection \<open>The read-ahead thread\<close>

text \<open>\<open>cache_read_ahead_internal\<close> holds the lock of the list while it reads, and a read that misses takes it.\<close>

lemma cache_read_miss_locked:
  assumes s: "slots_but c {} k" and no: "\<forall>i < CACHE_SIZE_IN_SECTORS. \<not> cached c t i" and l: "gReadAheadLock c"
  shows "cache_read (int t) off n c = None"
proof (rule pin_cases[OF s, of t])
  fix i assume "i < k" "cached c t i"
  then show ?thesis using no s by (auto simp: slots_but_def)
next
  fix c1 f k1 assume h: "hole c c1 f k1" and p: "cache_atomic_get_supl_data_and_pin (int t) c =
      Some (upd_aux f (\<lambda>a. a\<lparr>pinned := 1\<rparr>) c1, (cache_aux c1 ! f)\<lparr>pinned := 1\<rparr>, f)"
  from h l have "\<not> present (cache_aux c1 ! f)" "gReadAheadLock c1" by (auto simp: hole_def)
  then show ?thesis
    using p by (auto simp: cache_read_def cache_read_internal_def cache_read_ahead_asynch_def upd_aux_def
        split: option.split Option.bind_splits)
qed

lemma init_aux [simp]: "i < CACHE_SIZE_IN_SECTORS \<Longrightarrow> cache_aux (cache_init d) ! i = empty_supl"
  by (simp add: cache_init_def)

lemma evict_init: "cache_evict (cache_init d) = Some (cache_init d, 0)"
proof -
  have z: "0 < CACHE_SIZE_IN_SECTORS" by (simp add: CACHE_SIZE_IN_SECTORS_def)
  then have "first_absent [0 ..< CACHE_SIZE_IN_SECTORS] (cache_init d) = Some 0"
    by (simp add: upt_conv_Cons empty_supl_def)
  moreover have "upd_aux 0 (\<lambda>a. a\<lparr>present := False\<rparr>) (cache_init d) = cache_init d"
    using z by (simp add: upd_aux_def cache_init_def empty_supl_def)
      (simp add: list_eq_iff_nth_eq nth_list_update)
  ultimately show ?thesis
    using z by (simp add: cache_evict_def cache_lru_def cache_dump_entry_def) (simp add: empty_supl_def)
qed

lemma pin_init:
  "cache_atomic_get_supl_data_and_pin (int t) (cache_init d) =
    Some (upd_aux 0 (\<lambda>a. a\<lparr>pinned := 1\<rparr>) (cache_init d), empty_supl\<lparr>pinned := 1\<rparr>, 0)"
proof -
  have z: "0 < CACHE_SIZE_IN_SECTORS" and l: "length (cache_aux (cache_init d)) = CACHE_SIZE_IN_SECTORS"
    by (simp_all add: CACHE_SIZE_IN_SECTORS_def cache_init_def)
  have e: "pinned empty_supl = 0" "sector_index empty_supl = 0" by (simp_all add: empty_supl_def)
  have "find_sector (int t) [0 ..< CACHE_SIZE_IN_SECTORS] (cache_init d) = (if t = 0 then Some 0 else None)"
  proof (cases "t = 0")
    case True
    then show ?thesis using z e by (simp add: upt_conv_Cons)
  next
    case False
    then show ?thesis using e by (simp add: find_sector_eq find_None_iff)
  qed
  then show ?thesis
    using z l e by (simp add: cache_atomic_get_supl_data_and_pin_def evict_init upd_aux_def)
qed

lemma cache_init_fields:
  "fs_device (cache_init d) = d" "\<not> gReadAheadLock (cache_init d)" "\<not> malloc_fails (cache_init d)"
  "gReadAheadList (cache_init d) = []" "gReadAheadWakeUpSema (cache_init d) = 0" "gIsCacheThreadRunning (cache_init d)"
  "length (cache (cache_init d)) = CACHE_SIZE_IN_SECTORS" "length (cache_aux (cache_init d)) = CACHE_SIZE_IN_SECTORS"
  by (simp_all add: cache_init_def)

lemma first_read:
  assumes wf: "block_wf d" and t: "t < b_size d" and n: "off + n \<le> BLOCK_SECTOR_SIZE"
  obtains d' where "cache_read (int t) off n (cache_init d) = Some
     ((cache_init d)\<lparr>fs_device := d', cache := (cache (cache_init d))[0 := b_data d t],
        gReadAheadList := [wrap32 (int t + 1)], gReadAheadWakeUpSema := 1,
        cache_aux := (cache_aux (cache_init d))[0 := empty_supl\<lparr>present := True, accessed := True,
          sector_index_in_cache := 0, sector_index := int t, dirty := False\<rparr>]\<rparr>, take n (drop off (b_data d t)))"
proof -
  let ?d = "d\<lparr>read_cnt := read_cnt d + 1\<rparr>"
  have "block_read d t = Some (?d, b_data d t)" by (rule block_read_eq[OF t])
  moreover have "nat (int t mod 2 ^ 32) = t" using wf t by (simp add: block_wf_def nat_mod_as_int)
  moreover have "length (b_data d t) = BLOCK_SECTOR_SIZE" using wf t by (simp add: block_wf_def)
  ultimately show thesis
    using n by (intro that[of ?d])
      (simp add: cache_read_def pin_init cache_read_internal_def cache_read_ahead_asynch_def sector_get_def
        unpin_eq upd_aux_def cache_init_fields CACHE_SIZE_IN_SECTORS_def, simp add: empty_supl_def)
qed

subsection \<open>Properties of the buffer cache\<close>

text \<open>C3. The buffer cache cannot be told from the disk it caches. Any sequence of \<open>cache_read\<close>,
  \<open>cache_write\<close> and \<open>cache_dump_all\<close> calls on a fresh cache returns, read by read, what the same reads and
  writes return on the plain sectors, whatever is evicted in between, and after \<open>cache_close\<close> the device
  holds exactly what the plain sectors hold.\<close>

theorem cache_equals_disk:
  assumes "block_wf d" and "\<forall>op \<in> set ops. op_ok (b_size d) op"
  shows "\<exists>c c'. run_store cache_read cache_write cache_dump_all ops (cache_init d) = Some (c, snd (run_disk ops (b_data d))) \<and>
    cache_close c = Some c' \<and> b_data (fs_device c') = fst (run_disk ops (b_data d))"
proof -
  obtain c where c: "run_store cache_read cache_write cache_dump_all ops (cache_init d) = Some (c, snd (run_disk ops (b_data d)))"
    "cache_ok c" "cache_view c = fst (run_disk ops (b_data d))"
    using cached_disk.run_store_refines[OF cache_init_ok[OF assms(1)], of ops] assms(2)
    by (auto simp: cache_init_fields cache_init_view)
  obtain k where "slots_but c {} k" using c(2) by (auto simp: cache_ok_def cache_wf_def)
  then obtain c' where "cache_close c = Some c'" "b_data (fs_device c') = cache_view c" by (rule cache_close_spec)
  with c show ?thesis by auto
qed

definition ex_disk :: block where
  "ex_disk = \<lparr>b_name = [0x68, 0x64, 0x61, 0], b_type = BLOCK_FILESYS, b_size = 4, b_data = (\<lambda>s. replicate BLOCK_SECTOR_SIZE 0),
     read_cnt = 0, write_cnt = 0\<rparr>"

lemma ex_disk_wf: "block_wf ex_disk"
  by (simp add: block_wf_def ex_disk_def)

theorem cache_equals_disk_witness:
  "\<exists>c c'. run_store cache_read cache_write cache_dump_all [Write_op 1 [1, 2, 3] 5 3, Flush_op, Read_op 1 4 4] (cache_init ex_disk) =
      Some (c, [[0, 1, 2, 3]]) \<and>
    cache_close c = Some c' \<and> drop 5 (take 8 (b_data (fs_device c') 1)) = [1, 2, 3]"
proof -
  have "\<forall>op \<in> set [Write_op 1 [1, 2, 3] 5 3, Flush_op, Read_op 1 4 4]. op_ok (b_size ex_disk) op"
    by (simp add: op_ok_def ex_disk_def BLOCK_SECTOR_SIZE_def)
  from cache_equals_disk[OF ex_disk_wf this] show ?thesis
    by (auto simp: ex_disk_def BLOCK_SECTOR_SIZE_def)
qed

text \<open>C20. The first read after \<open>cache_init\<close> queues the following sector for the read-ahead thread, and that
  thread panics in its first round: \<open>cache_read_ahead_internal\<close> holds the lock of the list while \<open>cache_read\<close>
  misses and calls \<open>cache_read_ahead_asynch\<close>, whose \<open>lock_acquire\<close> asserts that the lock is not held.\<close>

theorem read_ahead_thread_panics:
  assumes "block_wf d" and "t + 1 < b_size d" and "off + n \<le> BLOCK_SECTOR_SIZE"
  shows "\<exists>c. cache_read (int t) off n (cache_init d) = Some (c, take n (drop off (b_data d t))) \<and> cache_main_read_ahead c = None"
proof -
  have t: "t < b_size d" using assms(2) by simp
  have w: "wrap32 (int t + 1) = int (t + 1)" 
    using assms(1,2) by (subst wrap32_id) (auto simp: block_wf_def)
  obtain d' c where r: "cache_read (int t) off n (cache_init d) = Some (c, take n (drop off (b_data d t)))"
    and c: "c = (cache_init d)\<lparr>fs_device := d', cache := (cache (cache_init d))[0 := b_data d t],
        gReadAheadList := [wrap32 (int t + 1)], gReadAheadWakeUpSema := 1,
        cache_aux := (cache_aux (cache_init d))[0 := empty_supl\<lparr>present := True, accessed := True,
          sector_index_in_cache := 0, sector_index := int t, dirty := False\<rparr>]\<rparr>"
    using first_read[OF assms(1) t assms(3)] by metis
  have t': "t < b_size (fs_device (cache_init d))" using t by (simp add: cache_init_fields)
  obtain c1 k where "cache_read (int t) off n (cache_init d) = Some (c1, take n (drop off (cache_view (cache_init d) t)))"
    "slots_but c1 {} k"
    by (rule cache_read_spec[OF cache_init_slots[OF assms(1)] t' assms(3) cache_init_fields(2,3)])
  with r have s: "slots_but c {} k" by simp
  let ?c = "c\<lparr>gReadAheadWakeUpSema := 0, gReadAheadLock := True\<rparr>"
  have "slots_but ?c {} k" using s by (simp add: slots_but_def cache_base_def slot_ok_def)
  moreover have "\<forall>i < CACHE_SIZE_IN_SECTORS. \<not> cached ?c (t + 1) i"
    by (auto simp: cached_def c cache_init_fields nth_list_update CACHE_SIZE_IN_SECTORS_def) (simp_all add: empty_supl_def)
  ultimately have "cache_read (int (t + 1)) 0 16 ?c = None" by (rule cache_read_miss_locked) simp
  then have "cache_main_read_ahead c = None"
    using w by (simp add: cache_main_read_ahead_def cache_read_ahead_internal_def c cache_init_fields)
  with r show ?thesis by blast
qed

theorem read_ahead_thread_panics_witness:
  "\<exists>c. cache_read 0 0 4 (cache_init ex_disk) = Some (c, replicate 4 0) \<and> cache_main_read_ahead c = None"
  using read_ahead_thread_panics[OF ex_disk_wf, of 0 0 4] by (simp add: ex_disk_def BLOCK_SECTOR_SIZE_def)

end
