(* ===== verification/Pintos_Bytes.thy ===== *)
theory Pintos_Bytes
  imports Pintos_Prelude
begin

unbundle bit_operations_syntax

section \<open>Integers in memory and on disk\<close>

text \<open>The little-endian bytes of a 32-bit integer, as structures on disk hold them.\<close>

definition le32 :: "u32 \<Rightarrow> u8 list" where
  "le32 w = [ucast w, ucast (drop_bit 8 w), ucast (drop_bit 16 w), ucast (drop_bit 24 w)]"

fun un_le32 :: "u8 list \<Rightarrow> u32" where
  "un_le32 [a, b, c, d] = ucast a OR push_bit 8 (ucast b) OR push_bit 16 (ucast c) OR push_bit 24 (ucast d)"
| "un_le32 _ = 0"

definition get32 :: "u8 list \<Rightarrow> nat \<Rightarrow> u32" where
  "get32 bs ofs = un_le32 (take 4 (drop ofs bs))"

definition words_bytes :: "u32 list \<Rightarrow> u8 list" where
  "words_bytes ws = concat (map le32 ws)"

fun bytes_words :: "u8 list \<Rightarrow> u32 list" where
  "bytes_words (a # b # c # d # bs) = un_le32 [a, b, c, d] # bytes_words bs"
| "bytes_words _ = []"

lemma length_le32 [simp]: "length (le32 w) = 4"
  by (simp add: le32_def)

lemma un_le32_le32 [simp]: "un_le32 (le32 w) = w"
proof (rule bit_word_eqI)
  fix n assume "n < LENGTH(32)"
  then have n: "n < 32" by simp
  consider "n < 8" | "8 \<le> n" "n < 16" | "16 \<le> n" "n < 24" | "24 \<le> n" "n < 32" using n by linarith
  then show "bit (un_le32 (le32 w)) n \<longleftrightarrow> bit w n"
    by cases (auto simp: le32_def bit_simps)
qed

lemma le32_un_le32:
  assumes "length bs = 4"
  shows "le32 (un_le32 bs) = bs"
proof -
  obtain a b c d where bs: "bs = [a, b, c, d]"
    using assms by (auto simp: length_Suc_conv numeral_eq_Suc)
  have "ucast (un_le32 bs) = a" "ucast (drop_bit 8 (un_le32 bs)) = b" "ucast (drop_bit 16 (un_le32 bs)) = c"
    "ucast (drop_bit 24 (un_le32 bs)) = d"
    by (rule bit_word_eqI; auto simp: bs bit_simps dest: bit_imp_le_length)+
  then show ?thesis by (simp add: le32_def bs)
qed

lemma words_bytes_simps [simp]: "words_bytes [] = []" "words_bytes (w # ws) = le32 w @ words_bytes ws"
  by (simp_all add: words_bytes_def)

lemma length_words_bytes [simp]: "length (words_bytes ws) = 4 * length ws"
  by (induction ws) auto

lemma bytes_words_words_bytes [simp]: "bytes_words (words_bytes ws) = ws"
proof (induction ws)
  case (Cons w ws)
  have "bytes_words (le32 w @ bs) = w # bytes_words bs" for bs
    using un_le32_le32[of w] by (simp add: le32_def)
  with Cons show ?case by simp
qed simp

lemma get32_append:
  assumes "length xs = ofs"
  shows "get32 (xs @ le32 w @ ys) ofs = w"
  using assms by (simp add: get32_def)

end
