(* ===== verification/Pintos_Inode.thy ===== *)
theory Pintos_Inode
  imports Pintos_Store Pintos_Bytes Pintos_Bitmap
begin

section \<open>Inodes (filesys/inode.c)\<close>

text \<open>
  The configuration of the file system build: subdirectories and the buffer cache, no growing files.
  An inode on disk is one sector; an open inode is an object of the heap of the file system state. The
  loops that move data take the operations of the sectors below as arguments: \<open>rd\<close> and \<open>wr\<close> are
  \<open>cache_read\<close> and \<open>cache_write\<close>.
\<close>

subsection \<open>Structures\<close>

definition INODE_MAGIC :: u32 where "INODE_MAGIC = 0x494e4f44"

record inode_disk =
  id_start :: u32
  id_length :: int
  id_unused :: "u8 list"
  parent_dir_inode :: u32
  id_magic :: u32

record inode =
  i_sector :: u32
  open_cnt :: int
  removed :: bool
  deny_write_cnt :: int
  i_data :: inode_disk

text \<open>The bytes of a \<open>struct inode_disk\<close>.\<close>

definition inode_disk_bytes :: "inode_disk \<Rightarrow> u8 list" where
  "inode_disk_bytes d = le32 (id_start d) @ le32 (word_of_int (id_length d)) @ id_unused d @
     le32 (parent_dir_inode d) @ le32 (id_magic d)"

definition bytes_inode_disk :: "u8 list \<Rightarrow> inode_disk" where
  "bytes_inode_disk bs = \<lparr>id_start = get32 bs 0, id_length = sint (get32 bs 4), id_unused = take 496 (drop 8 bs),
     parent_dir_inode = get32 bs 504, id_magic = get32 bs 508\<rparr>"

definition inode_disk_wf :: "inode_disk \<Rightarrow> bool" where
  "inode_disk_wf d \<longleftrightarrow> - (2 ^ 31) \<le> id_length d \<and> id_length d < 2 ^ 31 \<and> length (id_unused d) = 496"

lemma length_inode_disk_bytes: "inode_disk_wf d \<Longrightarrow> length (inode_disk_bytes d) = BLOCK_SECTOR_SIZE"
  by (simp add: inode_disk_bytes_def inode_disk_wf_def BLOCK_SECTOR_SIZE_def)

lemma sint_word_of_int: "- (2 ^ 31) \<le> x \<Longrightarrow> x < 2 ^ 31 \<Longrightarrow> sint (word_of_int x :: u32) = x"
  by (simp add: signed_of_int signed_take_bit_int_eq_self)

lemma bytes_inode_disk_bytes [simp]:
  assumes "inode_disk_wf d"
  shows "bytes_inode_disk (inode_disk_bytes d) = d"
proof -
  let ?bs = "inode_disk_bytes d"
  have u: "length (id_unused d) = 496" using assms by (simp add: inode_disk_wf_def)
  have "get32 ?bs 0 = id_start d"
    using get32_append[of "[]" 0 "id_start d"] by (simp add: inode_disk_bytes_def)
  moreover have "get32 ?bs 4 = word_of_int (id_length d)"
    using get32_append[of "le32 (id_start d)" 4] by (simp add: inode_disk_bytes_def)
  moreover have "take 496 (drop 8 ?bs) = id_unused d" using u by (simp add: inode_disk_bytes_def)
  moreover have "get32 ?bs 504 = parent_dir_inode d"
    using get32_append[of "le32 (id_start d) @ le32 (word_of_int (id_length d)) @ id_unused d" 504 "parent_dir_inode d"] u
    by (simp add: inode_disk_bytes_def)
  moreover have "get32 ?bs 508 = id_magic d"
    using get32_append[of "le32 (id_start d) @ le32 (word_of_int (id_length d)) @ id_unused d @ le32 (parent_dir_inode d)"
        508 "id_magic d" "[]"] u
    by (simp add: inode_disk_bytes_def)
  ultimately show ?thesis
    using assms by (simp add: bytes_inode_disk_def sint_word_of_int inode_disk_wf_def)
qed

lemma bytes_inode_disk_wf: "length bs = BLOCK_SECTOR_SIZE \<Longrightarrow> inode_disk_wf (bytes_inode_disk bs)"
  using sint_ge[of "get32 bs 4"] sint_lt[of "get32 bs 4"]
  by (simp add: inode_disk_wf_def bytes_inode_disk_def BLOCK_SECTOR_SIZE_def)

subsection \<open>Reading and writing at an offset\<close>

definition bytes_to_sectors :: "int \<Rightarrow> nat" where
  "bytes_to_sectors sz = nat ((wrap32 (sz + int BLOCK_SECTOR_SIZE - 1) sdiv int BLOCK_SECTOR_SIZE) mod 2 ^ 32)"

definition byte_to_sector :: "inode \<Rightarrow> int \<Rightarrow> u32" where
  "byte_to_sector i p =
     (if p < id_length (i_data i) then id_start (i_data i) + word_of_int (p sdiv int BLOCK_SECTOR_SIZE) else - 1)"

definition inode_length :: "inode \<Rightarrow> int" where
  "inode_length i = id_length (i_data i)"

definition chunk_size :: "inode \<Rightarrow> int \<Rightarrow> int \<Rightarrow> int" where
  "chunk_size i sz offset =
     (let sector_ofs = offset smod int BLOCK_SECTOR_SIZE;
          inode_left = wrap32 (inode_length i - offset);
          sector_left = int BLOCK_SECTOR_SIZE - sector_ofs;
          min_left = (if inode_left < sector_left then inode_left else sector_left)
      in if sz < min_left then sz else min_left)"

lemma chunk_size_le: "chunk_size i sz offset \<le> sz"
  by (simp add: chunk_size_def Let_def)

text \<open>A negative offset inside a sector is an access in front of the data of the cache entry.\<close>

function inode_read_loop :: "(int \<Rightarrow> nat \<Rightarrow> nat \<Rightarrow> 's \<Rightarrow> ('s \<times> u8 list) option) \<Rightarrow> inode \<Rightarrow> int \<Rightarrow> int \<Rightarrow> 's \<Rightarrow>
    ('s \<times> u8 list) option" where
  "inode_read_loop rd i sz offset s =
     (if 0 < sz then
        if chunk_size i sz offset \<le> 0 then Some (s, [])
        else do {
          let sector_idx = byte_to_sector i offset;
          let sector_ofs = offset smod int BLOCK_SECTOR_SIZE;
          ASSERT (0 \<le> sector_ofs);
          (s, b) \<leftarrow> rd (sint sector_idx) (nat sector_ofs) (nat (chunk_size i sz offset)) s;
          (s, bs) \<leftarrow> inode_read_loop rd i (sz - chunk_size i sz offset) (wrap32 (offset + chunk_size i sz offset)) s;
          Some (s, b @ bs)
        }
      else Some (s, []))"
  by pat_completeness auto
termination by (relation "measure (\<lambda>(_, _, sz, _). nat sz)") auto

function inode_write_loop :: "(int \<Rightarrow> u8 list \<Rightarrow> nat \<Rightarrow> nat \<Rightarrow> 's \<Rightarrow> 's option) \<Rightarrow> inode \<Rightarrow> int \<Rightarrow> int \<Rightarrow> u8 list \<Rightarrow> 's \<Rightarrow>
    ('s \<times> int) option" where
  "inode_write_loop wr i sz offset buffer s =
     (if 0 < sz then
        if chunk_size i sz offset \<le> 0 then Some (s, 0)
        else do {
          let sector_idx = byte_to_sector i offset;
          let sector_ofs = offset smod int BLOCK_SECTOR_SIZE;
          ASSERT (0 \<le> sector_ofs);
          s \<leftarrow> wr (sint sector_idx) buffer (nat sector_ofs) (nat (chunk_size i sz offset)) s;
          (s, n) \<leftarrow> inode_write_loop wr i (sz - chunk_size i sz offset) (wrap32 (offset + chunk_size i sz offset))
            (drop (nat (chunk_size i sz offset)) buffer) s;
          Some (s, chunk_size i sz offset + n)
        }
      else Some (s, 0))"
  by pat_completeness auto
termination by (relation "measure (\<lambda>(_, _, sz, _). nat sz)") auto

declare inode_read_loop.simps [simp del] inode_write_loop.simps [simp del]

subsection \<open>The bytes of a file\<close>

definition disk_byte :: "(nat \<Rightarrow> u8 list) \<Rightarrow> nat \<Rightarrow> u8" where
  "disk_byte v p = v (p div BLOCK_SECTOR_SIZE) ! (p mod BLOCK_SECTOR_SIZE)"

definition inode_first :: "inode_disk \<Rightarrow> nat" where
  "inode_first d = unat (id_start d) * BLOCK_SECTOR_SIZE"

definition inode_bytes :: "(nat \<Rightarrow> u8 list) \<Rightarrow> inode_disk \<Rightarrow> u8 list" where
  "inode_bytes v d = map (\<lambda>k. disk_byte v (inode_first d + k)) [0 ..< nat (id_length d)]"

definition data_sectors :: "inode_disk \<Rightarrow> nat set" where
  "data_sectors d = {unat (id_start d) ..< unat (id_start d) + (nat (id_length d) + 511) div 512}"

text \<open>The data of the inode is inside a store of \<open>n\<close> sectors.\<close>

definition inode_fits :: "nat \<Rightarrow> inode_disk \<Rightarrow> bool" where
  "inode_fits n d \<longleftrightarrow> inode_disk_wf d \<and> 0 \<le> id_length d \<and> id_length d + 511 < 2 ^ 31 \<and> n \<le> 2 ^ 31 \<and>
     unat (id_start d) + (nat (id_length d) + 511) div 512 \<le> n"

lemma inode_fits_sectors: "inode_fits n d \<Longrightarrow> t \<in> data_sectors d \<Longrightarrow> t < n"
  by (auto simp: inode_fits_def data_sectors_def)

lemma length_inode_bytes [simp]: "length (inode_bytes v d) = nat (id_length d)"
  by (simp add: inode_bytes_def)

lemma nth_inode_bytes: "k < nat (id_length d) \<Longrightarrow> inode_bytes v d ! k = disk_byte v (inode_first d + k)"
  by (simp add: inode_bytes_def)

lemma smod_nonneg: "0 \<le> (x :: int) \<Longrightarrow> 0 < y \<Longrightarrow> x smod y = x mod y"
  by (cases "x = 0") (simp_all add: signed_modulo_int_def sgn_if)

text \<open>Where an offset inside the file is on the disk.\<close>

lemma offset_facts:
  assumes fits: "inode_fits n (i_data i)" and off: "off < nat (inode_length i)" and sz: "0 < sz"
  defines "t \<equiv> unat (id_start (i_data i)) + off div 512" and "o' \<equiv> off mod 512" and "m \<equiv> nat (chunk_size i sz (int off))"
  shows "sint (byte_to_sector i (int off)) = int t" and "t < n" and "int off smod int BLOCK_SECTOR_SIZE = int o'"
    and "chunk_size i sz (int off) = int m" and "0 < m" and "o' + m \<le> 512" and "off + m \<le> nat (inode_length i)"
    and "int m \<le> sz" and "wrap32 (int off + int m) = int (off + m)"
    and "m < nat sz \<Longrightarrow> off + m < nat (inode_length i) \<Longrightarrow> o' + m = 512"
    and "t \<in> data_sectors (i_data i)"
proof -
  let ?d = "i_data i"
  have L: "0 \<le> id_length ?d" "id_length ?d < 2 ^ 31" "n \<le> 2 ^ 31"
    using fits by (auto simp: inode_fits_def inode_disk_wf_def)
  have o: "off < nat (id_length ?d)" using off by (simp add: inode_length_def)
  have s: "int off smod int BLOCK_SECTOR_SIZE = int o'"
    by (simp add: smod_nonneg BLOCK_SECTOR_SIZE_def o'_def zmod_int)
  then show "int off smod int BLOCK_SECTOR_SIZE = int o'" .
  show t: "t \<in> data_sectors ?d" using o unfolding data_sectors_def t_def by auto
  then show tn: "t < n" using fits by (rule inode_fits_sectors[rotated])
  have c: "chunk_size i sz (int off) = min sz (min (id_length ?d - int off) (512 - int o'))"
    using s L o by (simp add: chunk_size_def inode_length_def BLOCK_SECTOR_SIZE_def min_def Let_def)
  have o': "o' < 512" by (simp add: o'_def)
  show m: "chunk_size i sz (int off) = int m" "0 < m" using c o o' sz by (auto simp: m_def)
  show "o' + m \<le> 512" "off + m \<le> nat (inode_length i)" "int m \<le> sz" "m < nat sz \<Longrightarrow> off + m < nat (inode_length i) \<Longrightarrow> o' + m = 512"
    using c m o o' by (auto simp: inode_length_def)
  then show "wrap32 (int off + int m) = int (off + m)" using L by (subst wrap32_id) (auto simp: inode_length_def)
  have "int off sdiv int BLOCK_SECTOR_SIZE = int (off div 512)" by (simp add: sdiv_nonneg BLOCK_SECTOR_SIZE_def zdiv_int)
  then have b: "byte_to_sector i (int off) = id_start ?d + word_of_nat (off div 512)"
    using o by (simp add: byte_to_sector_def zless_nat_eq_int_zless)
  have "unat (byte_to_sector i (int off)) = t"
    using tn L(3) unfolding b t_def by (simp add: unat_word_ariths unat_of_nat)
  then show "sint (byte_to_sector i (int off)) = int t" using tn L(3) by (simp add: sint_unat)
qed

lemma chunk_past_end:
  assumes "inode_fits n (i_data i)" and "nat (inode_length i) \<le> off" and "off < 2 ^ 31"
  shows "chunk_size i sz (int off) \<le> 0"
proof -
  have "id_length (i_data i) - int off \<le> 0" "- (2 ^ 31) \<le> id_length (i_data i) - int off"
    using assms by (auto simp: inode_fits_def inode_length_def)
  then have "wrap32 (inode_length i - int off) \<le> 0" by (subst wrap32_id) (auto simp: inode_length_def)
  moreover have "0 \<le> int off smod int BLOCK_SECTOR_SIZE" "int off smod int BLOCK_SECTOR_SIZE < 512"
    by (simp_all add: smod_nonneg BLOCK_SECTOR_SIZE_def)
  ultimately show ?thesis by (auto simp: chunk_size_def Let_def BLOCK_SECTOR_SIZE_def)
qed

lemma div_mod_off:
  assumes "off mod 512 + k < 512"
  shows "(a * 512 + off + k) div 512 = a + off div 512" and "(a * 512 + off + k) mod 512 = off mod (512 :: nat) + k"
proof -
  have "a * 512 + off + k = 512 * (a + off div 512) + (off mod 512 + k)" by (simp add: algebra_simps)
  then show "(a * 512 + off + k) div 512 = a + off div 512" "(a * 512 + off + k) mod 512 = off mod 512 + k"
    using assms by (simp_all only: div_mult_self4 mod_mult_self4 div_less mod_less)
qed

lemma splice_nth:
  assumes "o' + m \<le> length v" and "m \<le> length b" and "r < length v"
  shows "(take o' v @ take m b @ drop (o' + m) v) ! r = (if o' \<le> r \<and> r < o' + m then b ! (r - o') else v ! r)"
  using assms by (auto simp: nth_append min_def)

context sector_store
begin

lemma read_chunk:
  assumes fits: "inode_fits (sectors s) (i_data i)" and ok: "ok s" and t: "unat (id_start (i_data i)) + off div 512 < sectors s"
    and m: "off mod 512 + m \<le> 512" "off + m \<le> nat (inode_length i)"
  shows "take m (drop (off mod 512) (view s (unat (id_start (i_data i)) + off div 512))) =
    take m (drop off (inode_bytes (view s) (i_data i)))"
proof (rule nth_equalityI)
  have l: "length (view s (unat (id_start (i_data i)) + off div 512)) = 512"
    using view_length[OF ok t] by (simp add: BLOCK_SECTOR_SIZE_def)
  then show "length (take m (drop (off mod 512) (view s (unat (id_start (i_data i)) + off div 512)))) =
    length (take m (drop off (inode_bytes (view s) (i_data i))))"
    using m by (simp add: inode_length_def)
  fix k assume "k < length (take m (drop (off mod 512) (view s (unat (id_start (i_data i)) + off div 512))))"
  then have k: "k < m" by simp
  then have "off mod 512 + k < 512" using m(1) by simp
  from div_mod_off[OF this, of "unat (id_start (i_data i))"] k m l
  show "take m (drop (off mod 512) (view s (unat (id_start (i_data i)) + off div 512))) ! k =
    take m (drop off (inode_bytes (view s) (i_data i))) ! k"
    by (simp add: nth_inode_bytes inode_length_def disk_byte_def inode_first_def BLOCK_SECTOR_SIZE_def add.assoc)
qed

lemma inode_read_loop_spec:
  assumes "ok s" and "inode_fits (sectors s) (i_data i)" and "off < 2 ^ 31"
  shows "\<exists>s'. inode_read_loop rd i sz (int off) s = Some (s', take (nat sz) (drop off (inode_bytes (view s) (i_data i)))) \<and>
    ok s' \<and> sectors s' = sectors s \<and> view s' = view s"
  using assms
proof (induction "nat sz" arbitrary: sz off s rule: less_induct)
  case less
  show ?case
  proof (cases "0 < sz \<and> off < nat (inode_length i)")
    case False
    then have "inode_read_loop rd i sz (int off) s = Some (s, [])"
      using chunk_past_end[OF less.prems(2) _ less.prems(3), of sz] by (subst inode_read_loop.simps) auto
    with False less.prems show ?thesis by (auto simp: inode_length_def)
  next
    case True
    define m where "m = nat (chunk_size i sz (int off))"
    note f = offset_facts[OF less.prems(2) conjunct2[OF True] conjunct1[OF True], folded m_def]
    let ?t = "unat (id_start (i_data i)) + off div 512"
    let ?bs = "inode_bytes (view s) (i_data i)"
    obtain s1 where s1: "rd (int ?t) (off mod 512) m s = Some (s1, take m (drop off ?bs))"
      "ok s1" "sectors s1 = sectors s" "view s1 = view s"
      using rd_law[OF less.prems(1) f(2), of "off mod 512" m] f(6) read_chunk[OF less.prems(2,1) f(2,6,7)]
      by (auto simp: BLOCK_SECTOR_SIZE_def)
    have o: "off + m < 2 ^ 31" using f(7) less.prems(2) by (auto simp: inode_fits_def inode_disk_wf_def inode_length_def)
    have "nat (sz - int m) < nat sz" using f(5) True by simp
    from less.hyps[OF this s1(2) _ o] s1(3,4) less.prems(2) obtain s2 where s2:
      "inode_read_loop rd i (sz - int m) (int (off + m)) s1 = Some (s2, take (nat (sz - int m)) (drop (off + m) ?bs))"
      "ok s2" "sectors s2 = sectors s" "view s2 = view s" by auto
    have nat_split: "nat sz = m + nat (sz - int m)" using f(8) by simp
    have "take (nat sz) (drop off ?bs) = take m (drop off ?bs) @ take (nat (sz - int m)) (drop (off + m) ?bs)"
      using f(8) by (subst nat_split) (simp_all add: take_add add.commute)
    moreover have "inode_read_loop rd i sz (int off) s =
        Some (s2, take m (drop off ?bs) @ take (nat (sz - int m)) (drop (off + m) ?bs))"
      using True s1(1) s2(1) f(1,3-5,9) by (subst inode_read_loop.simps) simp
    ultimately show ?thesis using s2 by auto
  qed
qed

lemma write_chunk:
  assumes ok: "ok s" and t: "unat (id_start (i_data i)) + off div 512 < sectors s"
    and m: "off mod 512 + m \<le> 512" "off + m \<le> nat (inode_length i)" "m \<le> length buf"
  defines "t \<equiv> unat (id_start (i_data i)) + off div 512" and "bs \<equiv> inode_bytes (view s) (i_data i)"
  shows "inode_bytes ((view s)(t := take (off mod 512) (view s t) @ take m buf @ drop (off mod 512 + m) (view s t))) (i_data i) =
    take off bs @ take m buf @ drop (off + m) bs" (is "?l = ?r")
proof (rule nth_equalityI)
  have l: "length (view s t) = 512" using view_length[OF ok t] by (simp add: BLOCK_SECTOR_SIZE_def t_def)
  have L: "length bs = nat (inode_length i)" by (simp add: bs_def inode_length_def)
  then show "length ?l = length ?r" using m by (simp add: inode_length_def)
  fix k assume "k < length ?l"
  then have k: "k < nat (inode_length i)" by (simp add: inode_length_def)
  have q: "k = 512 * (k div 512) + k mod 512" "off = 512 * (off div 512) + off mod 512" "k mod 512 < 512" by simp_all
  have p: "inode_first (i_data i) + k = unat (id_start (i_data i)) * 512 + k + 0"
    by (simp add: inode_first_def BLOCK_SECTOR_SIZE_def)
  have dm: "(inode_first (i_data i) + k) div 512 = unat (id_start (i_data i)) + k div 512" "(inode_first (i_data i) + k) mod 512 = k mod 512"
    unfolding p using div_mod_off[of k 0 "unat (id_start (i_data i))"] q(3) by simp_all
  have b: "bs ! k = view s (unat (id_start (i_data i)) + k div 512) ! (k mod 512)"
    using k dm by (simp add: bs_def nth_inode_bytes inode_length_def disk_byte_def BLOCK_SECTOR_SIZE_def)
  have r: "?r ! k = (if off \<le> k \<and> k < off + m then buf ! (k - off) else bs ! k)"
    using m k L by (intro splice_nth) auto
  have lk: "?l ! k = (if k div 512 = off div 512
      then (take (off mod 512) (view s t) @ take m buf @ drop (off mod 512 + m) (view s t)) ! (k mod 512) else bs ! k)"
    unfolding b using k dm by (simp add: nth_inode_bytes inode_length_def disk_byte_def BLOCK_SECTOR_SIZE_def t_def)
  show "?l ! k = ?r ! k"
  proof (cases "k div 512 = off div 512")
    case True
    then have "k - off = k mod 512 - off mod 512" "off \<le> k \<and> k < off + m \<longleftrightarrow> off mod 512 \<le> k mod 512 \<and> k mod 512 < off mod 512 + m"
      using q by linarith+
    moreover have "(take (off mod 512) (view s t) @ take m buf @ drop (off mod 512 + m) (view s t)) ! (k mod 512) =
        (if off mod 512 \<le> k mod 512 \<and> k mod 512 < off mod 512 + m then buf ! (k mod 512 - off mod 512) else view s t ! (k mod 512))"
      using m l q(3) by (intro splice_nth) auto
    moreover have "bs ! k = view s t ! (k mod 512)" unfolding b t_def True by (rule refl)
    ultimately show ?thesis unfolding r lk by (simp only: True refl if_True)
  next
    case False
    then have "\<not> (off \<le> k \<and> k < off + m)" using q m(1) by linarith
    then show ?thesis unfolding r lk by (simp only: False if_False refl)
  qed
qed

lemma inode_write_loop_spec:
  assumes "ok s" and "inode_fits (sectors s) (i_data i)" and "off < 2 ^ 31" and "nat sz \<le> length buf"
  shows "\<exists>s'. inode_write_loop wr i sz (int off) buf s = Some (s', int (min (nat sz) (nat (inode_length i) - off))) \<and>
    ok s' \<and> sectors s' = sectors s \<and> (\<forall>t. t \<notin> data_sectors (i_data i) \<longrightarrow> view s' t = view s t) \<and>
    inode_bytes (view s') (i_data i) = take off (inode_bytes (view s) (i_data i)) @
      take (min (nat sz) (nat (inode_length i) - off)) buf @
      drop (off + min (nat sz) (nat (inode_length i) - off)) (inode_bytes (view s) (i_data i))"
  using assms
proof (induction "nat sz" arbitrary: sz off buf s rule: less_induct)
  case less
  show ?case
  proof (cases "0 < sz \<and> off < nat (inode_length i)")
    case False
    then have "inode_write_loop wr i sz (int off) buf s = Some (s, 0)"
      using chunk_past_end[OF less.prems(2) _ less.prems(3), of sz] by (subst inode_write_loop.simps) auto
    moreover have "min (nat sz) (nat (inode_length i) - off) = 0" using False by auto
    ultimately show ?thesis using less.prems by simp
  next
    case True
    define m where "m = nat (chunk_size i sz (int off))"
    note f = offset_facts[OF less.prems(2) conjunct2[OF True] conjunct1[OF True], folded m_def]
    let ?t = "unat (id_start (i_data i)) + off div 512"
    define bs where "bs = inode_bytes (view s) (i_data i)"
    have mb: "m \<le> length buf" using f(8) less.prems(4) by linarith
    obtain s1 where s1: "wr (int ?t) buf (off mod 512) m s = Some s1" "ok s1" "sectors s1 = sectors s"
      "view s1 = (view s)(?t := take (off mod 512) (view s ?t) @ take m buf @ drop (off mod 512 + m) (view s ?t))"
      using wr_law[OF less.prems(1) f(2), of "off mod 512" m buf] f(6) mb by (auto simp: BLOCK_SECTOR_SIZE_def)
    have b1: "inode_bytes (view s1) (i_data i) = take off bs @ take m buf @ drop (off + m) bs"
      unfolding s1(4) bs_def by (rule write_chunk[OF less.prems(1) f(2,6,7) mb])
    have o: "off + m < 2 ^ 31" using f(7) less.prems(2) by (auto simp: inode_fits_def inode_disk_wf_def inode_length_def)
    define n' where "n' = min (nat (sz - int m)) (nat (inode_length i) - (off + m))"
    have n: "min (nat sz) (nat (inode_length i) - off) = m + n'" using f(7,8) unfolding n'_def by linarith
    have "nat (sz - int m) < nat sz" using f(5) True by simp
    moreover have "nat (sz - int m) \<le> length (drop m buf)" using less.prems(4) unfolding length_drop by linarith
    moreover have "inode_fits (sectors s1) (i_data i)" using less.prems(2) s1(3) by simp
    ultimately obtain s2 where s2:
      "inode_write_loop wr i (sz - int m) (int (off + m)) (drop m buf) s1 = Some (s2, int n')"
      "ok s2" "sectors s2 = sectors s" "\<forall>t. t \<notin> data_sectors (i_data i) \<longrightarrow> view s2 t = view s1 t"
      "inode_bytes (view s2) (i_data i) = take (off + m) (inode_bytes (view s1) (i_data i)) @ take n' (drop m buf) @
         drop (off + m + n') (inode_bytes (view s1) (i_data i))"
      using less.hyps[OF _ s1(2) _ o, of "sz - int m" "drop m buf"] s1(3) unfolding n'_def by auto
    have "inode_write_loop wr i sz (int off) buf s = Some (s2, int (m + n'))"
      using True s1(1) s2(1) f(1,3-5,9) by (subst inode_write_loop.simps) simp
    moreover have "\<forall>t. t \<notin> data_sectors (i_data i) \<longrightarrow> view s2 t = view s t" using s2(4) s1(4) f(11) by auto
    moreover have "length bs = nat (inode_length i)" by (simp add: bs_def inode_length_def)
    then have "inode_bytes (view s2) (i_data i) = take off bs @ take (m + n') buf @ drop (off + (m + n')) bs"
      unfolding s2(5) b1 using f(7) mb by (simp add: take_add ac_simps)
    ultimately show ?thesis unfolding n bs_def using s2(2,3) by blast
  qed
qed

end

end
