(* ===== verification/Pintos_File.thy ===== *)
theory Pintos_File
  imports Pintos_Inode
begin

section \<open>Open inodes, files and the free map (filesys/inode.c, file.c, free-map.c)\<close>

text \<open>
  The state of the file system: the buffer cache over the device, the heap objects of open inodes,
  files and directories, the list of open inodes, the free map and the root directory. Pointers are numbers, null is \<open>None\<close>, and a pointer to
  a freed object cannot be followed. \<open>malloc_fails\<close> of the cache state tells whether memory is left.
\<close>

record open_file =
  f_inode :: nat
  pos :: int
  f_deny_write :: bool

record open_dir =
  d_inode :: "nat option"
  d_pos :: int

record fs =
  buf :: buffer_cache
  inodes :: "nat \<Rightarrow> inode option"
  open_inodes :: "nat list"
  files :: "nat \<Rightarrow> open_file option"
  fresh :: nat
  free_map :: bitmap
  free_map_file :: "nat option"
  dirs :: "nat \<Rightarrow> open_dir option"
  root_dir :: "nat option"

definition FREE_MAP_SECTOR :: nat where "FREE_MAP_SECTOR = 0"
definition ROOT_DIR_SECTOR :: nat where "ROOT_DIR_SECTOR = 1"

definition set_inode :: "nat \<Rightarrow> inode \<Rightarrow> fs \<Rightarrow> fs" where
  "set_inode p i s = s\<lparr>inodes := (inodes s)(p \<mapsto> i)\<rparr>"

subsection \<open>Open inodes\<close>

definition inode_init :: "fs \<Rightarrow> fs" where
  "inode_init s = s\<lparr>open_inodes := []\<rparr>"

definition inode_reopen :: "nat option \<Rightarrow> fs \<Rightarrow> (fs \<times> nat option) option" where
  "inode_reopen ip s = (case ip of
     None \<Rightarrow> Some (s, None)
   | Some p \<Rightarrow> do {
       i \<leftarrow> inodes s p;
       Some (set_inode p (i\<lparr>open_cnt := wrap32 (open_cnt i + 1)\<rparr>) s, Some p)
     })"

fun inode_open_loop :: "u32 \<Rightarrow> nat list \<Rightarrow> fs \<Rightarrow> nat option option" where
  "inode_open_loop sector [] s = Some None"
| "inode_open_loop sector (p # ps) s = do {
     i \<leftarrow> inodes s p;
     if i_sector i = sector then Some (Some p) else inode_open_loop sector ps s
   }"

definition inode_open :: "u32 \<Rightarrow> fs \<Rightarrow> (fs \<times> nat option) option" where
  "inode_open sector s = do {
     r \<leftarrow> inode_open_loop sector (open_inodes s) s;
     case r of
       Some p \<Rightarrow> inode_reopen (Some p) s
     | None \<Rightarrow>
         if malloc_fails (buf s) then Some (s, None)
         else do {
           let p = fresh s;
           (c, bs) \<leftarrow> cache_read (sint sector) 0 BLOCK_SECTOR_SIZE (buf s);
           let i = \<lparr>i_sector = sector, open_cnt = 1, removed = False, deny_write_cnt = 0, i_data = bytes_inode_disk bs\<rparr>;
           Some ((set_inode p i s)\<lparr>buf := c, open_inodes := p # open_inodes s, fresh := fresh s + 1\<rparr>, Some p)
         }
   }"

definition inode_parent :: "nat \<Rightarrow> fs \<Rightarrow> (fs \<times> nat option) option" where
  "inode_parent p s = do { i \<leftarrow> inodes s p; inode_open (parent_dir_inode (i_data i)) s }"

definition inode_get_inumber :: "nat \<Rightarrow> fs \<Rightarrow> u32 option" where
  "inode_get_inumber p s = map_option i_sector (inodes s p)"

definition inode_open_cnt :: "nat \<Rightarrow> fs \<Rightarrow> int option" where
  "inode_open_cnt p s = map_option open_cnt (inodes s p)"

definition inode_remove :: "nat option \<Rightarrow> fs \<Rightarrow> fs option" where
  "inode_remove ip s = do {
     p \<leftarrow> ip;
     i \<leftarrow> inodes s p;
     Some (set_inode p (i\<lparr>removed := True\<rparr>) s)
   }"

definition inode_read_at :: "nat \<Rightarrow> int \<Rightarrow> int \<Rightarrow> fs \<Rightarrow> (fs \<times> u8 list) option" where
  "inode_read_at p sz offset s = do {
     i \<leftarrow> inodes s p;
     (c, bs) \<leftarrow> inode_read_loop cache_read i sz offset (buf s);
     Some (s\<lparr>buf := c\<rparr>, bs)
   }"

definition inode_write_at :: "nat \<Rightarrow> u8 list \<Rightarrow> int \<Rightarrow> int \<Rightarrow> fs \<Rightarrow> (fs \<times> int) option" where
  "inode_write_at p buffer sz offset s = do {
     i \<leftarrow> inodes s p;
     if deny_write_cnt i \<noteq> 0 then Some (s, 0)
     else do {
       (c, n) \<leftarrow> inode_write_loop cache_write i sz offset buffer (buf s);
       Some (s\<lparr>buf := c\<rparr>, n)
     }
   }"

definition inode_deny_write :: "nat \<Rightarrow> fs \<Rightarrow> fs option" where
  "inode_deny_write p s = do {
     i \<leftarrow> inodes s p;
     let i = i\<lparr>deny_write_cnt := wrap32 (deny_write_cnt i + 1)\<rparr>;
     ASSERT (deny_write_cnt i \<le> open_cnt i);
     Some (set_inode p i s)
   }"

definition inode_allow_write :: "nat \<Rightarrow> fs \<Rightarrow> fs option" where
  "inode_allow_write p s = do {
     i \<leftarrow> inodes s p;
     ASSERT (deny_write_cnt i > 0);
     ASSERT (deny_write_cnt i \<le> open_cnt i);
     Some (set_inode p (i\<lparr>deny_write_cnt := deny_write_cnt i - 1\<rparr>) s)
   }"

subsection \<open>Reading and writing files\<close>

definition file_read :: "nat \<Rightarrow> int \<Rightarrow> fs \<Rightarrow> (fs \<times> u8 list) option" where
  "file_read fp sz s = do {
     f \<leftarrow> files s fp;
     (s, bs) \<leftarrow> inode_read_at (f_inode f) sz (pos f) s;
     Some (s\<lparr>files := (files s)(fp \<mapsto> f\<lparr>pos := wrap32 (pos f + int (length bs))\<rparr>)\<rparr>, bs)
   }"

definition file_read_at :: "nat \<Rightarrow> int \<Rightarrow> int \<Rightarrow> fs \<Rightarrow> (fs \<times> u8 list) option" where
  "file_read_at fp sz file_ofs s = do { f \<leftarrow> files s fp; inode_read_at (f_inode f) sz file_ofs s }"

definition file_write :: "nat \<Rightarrow> u8 list \<Rightarrow> int \<Rightarrow> fs \<Rightarrow> (fs \<times> int) option" where
  "file_write fp buffer sz s = do {
     f \<leftarrow> files s fp;
     (s, n) \<leftarrow> inode_write_at (f_inode f) buffer sz (pos f) s;
     Some (s\<lparr>files := (files s)(fp \<mapsto> f\<lparr>pos := wrap32 (pos f + n)\<rparr>)\<rparr>, n)
   }"

definition file_write_at :: "nat \<Rightarrow> u8 list \<Rightarrow> int \<Rightarrow> int \<Rightarrow> fs \<Rightarrow> (fs \<times> int) option" where
  "file_write_at fp buffer sz file_ofs s = do { f \<leftarrow> files s fp; inode_write_at (f_inode f) buffer sz file_ofs s }"

definition file_length :: "nat option \<Rightarrow> fs \<Rightarrow> int option" where
  "file_length fp s = do { p \<leftarrow> fp; f \<leftarrow> files s p; i \<leftarrow> inodes s (f_inode f); Some (inode_length i) }"

definition file_seek :: "nat option \<Rightarrow> int \<Rightarrow> fs \<Rightarrow> fs option" where
  "file_seek fp new_pos s = do {
     p \<leftarrow> fp;
     ASSERT (new_pos \<ge> 0);
     f \<leftarrow> files s p;
     Some (s\<lparr>files := (files s)(p \<mapsto> f\<lparr>pos := new_pos\<rparr>)\<rparr>)
   }"

definition file_tell :: "nat option \<Rightarrow> fs \<Rightarrow> int option" where
  "file_tell fp s = do { p \<leftarrow> fp; f \<leftarrow> files s p; Some (pos f) }"

definition file_get_inode :: "nat \<Rightarrow> fs \<Rightarrow> nat option" where
  "file_get_inode fp s = map_option f_inode (files s fp)"

definition file_deny_write :: "nat option \<Rightarrow> fs \<Rightarrow> fs option" where
  "file_deny_write fp s = do {
     p \<leftarrow> fp;
     f \<leftarrow> files s p;
     if \<not> f_deny_write f
     then inode_deny_write (f_inode f) (s\<lparr>files := (files s)(p \<mapsto> f\<lparr>f_deny_write := True\<rparr>)\<rparr>)
     else Some s
   }"

definition file_allow_write :: "nat option \<Rightarrow> fs \<Rightarrow> fs option" where
  "file_allow_write fp s = do {
     p \<leftarrow> fp;
     f \<leftarrow> files s p;
     if f_deny_write f
     then inode_allow_write (f_inode f) (s\<lparr>files := (files s)(p \<mapsto> f\<lparr>f_deny_write := False\<rparr>)\<rparr>)
     else Some s
   }"

subsection \<open>The free map\<close>

text \<open>\<open>bitmap_read\<close> and \<open>bitmap_write\<close> transfer the array through the file operations. A short read leaves the
  rest of the array as it is.\<close>

definition bitmap_file_read :: "nat option \<Rightarrow> u32 list \<Rightarrow> nat \<Rightarrow> fs \<Rightarrow> (fs \<times> u32 list \<times> int) option" where
  "bitmap_file_read fp ws sz s = do {
     p \<leftarrow> fp;
     (s, bs) \<leftarrow> file_read_at p (int sz) 0 s;
     Some (s, bytes_words (bs @ drop (length bs) (words_bytes ws)), int (length bs))
   }"

definition bitmap_file_write :: "nat option \<Rightarrow> u32 list \<Rightarrow> nat \<Rightarrow> fs \<Rightarrow> (fs \<times> int) option" where
  "bitmap_file_write fp ws sz s = do { p \<leftarrow> fp; file_write_at p (words_bytes ws) (int sz) 0 s }"

definition free_map_init :: "bool \<Rightarrow> (nat \<Rightarrow> u32 list option) \<Rightarrow> fs \<Rightarrow> fs option" where
  "free_map_init m1 m2 s = do {
     r \<leftarrow> bitmap_create m1 m2 (block_size (fs_device (buf s)));
     b \<leftarrow> r;
     b \<leftarrow> bitmap_mark b FREE_MAP_SECTOR;
     b \<leftarrow> bitmap_mark b ROOT_DIR_SECTOR;
     Some (s\<lparr>free_map := b\<rparr>)
   }"

definition free_map_allocate :: "nat \<Rightarrow> fs \<Rightarrow> (fs \<times> nat option) option" where
  "free_map_allocate cnt s = do {
     (m, sector) \<leftarrow> bitmap_scan_and_flip (free_map s) 0 cnt False;
     let s = s\<lparr>free_map := m\<rparr>;
     if sector \<noteq> BITMAP_ERROR \<and> free_map_file s \<noteq> None then do {
       (s, ok) \<leftarrow> bitmap_write m (bitmap_file_write (free_map_file s)) s;
       if ok then Some (s, Some sector)
       else do {
         m \<leftarrow> bitmap_set_multiple (free_map s) sector cnt False;
         Some (s\<lparr>free_map := m\<rparr>, None)
       }
     }
     else Some (s, if sector \<noteq> BITMAP_ERROR then Some sector else None)
   }"

definition free_map_release :: "nat \<Rightarrow> nat \<Rightarrow> fs \<Rightarrow> fs option" where
  "free_map_release sector cnt s = do {
     a \<leftarrow> bitmap_all (free_map s) sector cnt;
     ASSERT a;
     m \<leftarrow> bitmap_set_multiple (free_map s) sector cnt False;
     let s = s\<lparr>free_map := m\<rparr>;
     (s, _) \<leftarrow> bitmap_write m (bitmap_file_write (free_map_file s)) s;
     Some s
   }"

subsection \<open>Creating and closing\<close>

text \<open>The sectors of zeros that \<open>inode_create\<close> writes.\<close>

fun zero_sectors :: "u32 \<Rightarrow> nat list \<Rightarrow> buffer_cache \<Rightarrow> buffer_cache option" where
  "zero_sectors start [] c = Some c"
| "zero_sectors start (k # ks) c = do {
     c \<leftarrow> cache_write (sint (start + word_of_nat k)) (replicate BLOCK_SECTOR_SIZE 0) 0 BLOCK_SECTOR_SIZE c;
     zero_sectors start ks c
   }"

definition inode_create :: "u32 \<Rightarrow> int \<Rightarrow> u32 \<Rightarrow> fs \<Rightarrow> (fs \<times> bool) option" where
  "inode_create sector len parent_sector s = do {
     ASSERT (len \<ge> 0);
     if malloc_fails (buf s) then Some (s, False)
     else do {
       let sectors = bytes_to_sectors len;
       (s, r) \<leftarrow> free_map_allocate sectors s;
       case r of
         None \<Rightarrow> Some (s, False)
       | Some start \<Rightarrow> do {
           let disk_inode = \<lparr>id_start = word_of_nat start, id_length = len, id_unused = replicate 496 0,
             parent_dir_inode = parent_sector, id_magic = INODE_MAGIC\<rparr>;
           c \<leftarrow> cache_write (sint sector) (inode_disk_bytes disk_inode) 0 BLOCK_SECTOR_SIZE (buf s);
           c \<leftarrow> (if sectors > 0 then zero_sectors (id_start disk_inode) [0 ..< sectors] c else Some c);
           Some (s\<lparr>buf := c\<rparr>, True)
         }
     }
   }"

definition inode_close :: "nat option \<Rightarrow> fs \<Rightarrow> fs option" where
  "inode_close ip s = (case ip of
     None \<Rightarrow> Some s
   | Some p \<Rightarrow> do {
       i \<leftarrow> inodes s p;
       let i = i\<lparr>open_cnt := wrap32 (open_cnt i - 1)\<rparr>;
       let s = set_inode p i s;
       if open_cnt i = 0 then do {
         c \<leftarrow> cache_write (sint (i_sector i)) (inode_disk_bytes (i_data i)) 0 BLOCK_SECTOR_SIZE (buf s);
         let s = s\<lparr>buf := c, open_inodes := remove1 p (open_inodes s)\<rparr>;
         s \<leftarrow> (if removed i then do {
                s \<leftarrow> free_map_release (unat (i_sector i)) 1 s;
                free_map_release (unat (id_start (i_data i))) (bytes_to_sectors (id_length (i_data i))) s
              } else Some s);
         Some (s\<lparr>inodes := (inodes s)(p := None)\<rparr>)
       }
       else Some s
     })"

definition file_open :: "nat option \<Rightarrow> fs \<Rightarrow> (fs \<times> nat option) option" where
  "file_open ip s = (case ip of
     Some p \<Rightarrow>
       if malloc_fails (buf s) then do { s \<leftarrow> inode_close (Some p) s; Some (s, None) }
       else Some (s\<lparr>files := (files s)(fresh s \<mapsto> \<lparr>f_inode = p, pos = 0, f_deny_write = False\<rparr>), fresh := fresh s + 1\<rparr>,
                  Some (fresh s))
   | None \<Rightarrow> Some (s, None))"

definition file_reopen :: "nat \<Rightarrow> fs \<Rightarrow> (fs \<times> nat option) option" where
  "file_reopen fp s = do {
     f \<leftarrow> files s fp;
     (s, ip) \<leftarrow> inode_reopen (Some (f_inode f)) s;
     file_open ip s
   }"

definition file_close :: "nat option \<Rightarrow> fs \<Rightarrow> fs option" where
  "file_close fp s = (case fp of
     None \<Rightarrow> Some s
   | Some p \<Rightarrow> do {
       s \<leftarrow> file_allow_write (Some p) s;
       f \<leftarrow> files s p;
       s \<leftarrow> inode_close (Some (f_inode f)) s;
       Some (s\<lparr>files := (files s)(p := None)\<rparr>)
     })"

definition free_map_open :: "fs \<Rightarrow> fs option" where
  "free_map_open s = do {
     (s, ip) \<leftarrow> inode_open (word_of_nat FREE_MAP_SECTOR) s;
     (s, fp) \<leftarrow> file_open ip s;
     let s = s\<lparr>free_map_file := fp\<rparr>;
     ASSERT (fp \<noteq> None);
     (s, m, ok) \<leftarrow> bitmap_read (free_map s) (bitmap_file_read fp) s;
     ASSERT ok;
     Some (s\<lparr>free_map := m\<rparr>)
   }"

definition free_map_close :: "fs \<Rightarrow> fs option" where
  "free_map_close s = file_close (free_map_file s) s"

definition free_map_create :: "fs \<Rightarrow> fs option" where
  "free_map_create s = do {
     (s, ok) \<leftarrow> inode_create (word_of_nat FREE_MAP_SECTOR) (int (bitmap_file_size (free_map s))) (word_of_nat FREE_MAP_SECTOR) s;
     ASSERT ok;
     (s, ip) \<leftarrow> inode_open (word_of_nat FREE_MAP_SECTOR) s;
     (s, fp) \<leftarrow> file_open ip s;
     let s = s\<lparr>free_map_file := fp\<rparr>;
     ASSERT (fp \<noteq> None);
     (s, ok) \<leftarrow> bitmap_write (free_map s) (bitmap_file_write fp) s;
     ASSERT ok;
     Some s
   }"

end
