(* ===== verification/Pintos_File_Inv.thy ===== *)
theory Pintos_File_Inv
  imports Pintos_File
begin

section \<open>Files on the disk\<close>

text \<open>
  A layout gives the inode of every file, by the sector of the inode. The sectors of inodes and of data
  are pairwise different, inside the disk, and marked in the free map.
\<close>

type_synonym layout = "nat \<Rightarrow> inode_disk option"

definition owned :: "layout \<Rightarrow> nat set" where
  "owned L = dom L \<union> (\<Union>d \<in> ran L. data_sectors d)"

definition layout_ok :: "nat \<Rightarrow> layout \<Rightarrow> bool" where
  "layout_ok n L \<longleftrightarrow> (\<forall>t d. L t = Some d \<longrightarrow> t < n \<and> inode_fits n d \<and> dom L \<inter> data_sectors d = {}) \<and>
     (\<forall>t t' d d'. L t = Some d \<longrightarrow> L t' = Some d' \<longrightarrow> t \<noteq> t' \<longrightarrow> data_sectors d \<inter> data_sectors d' = {})"

abbreviation fs_view :: "fs \<Rightarrow> nat \<Rightarrow> u8 list" where
  "fs_view s \<equiv> cache_view (buf s)"

definition on_disk :: "(nat \<Rightarrow> u8 list) \<Rightarrow> layout \<Rightarrow> bool" where
  "on_disk v L \<longleftrightarrow> (\<forall>t d. L t = Some d \<longrightarrow> bytes_inode_disk (v t) = d)"

definition map_ok :: "fs \<Rightarrow> layout \<Rightarrow> bool" where
  "map_ok s L \<longleftrightarrow> bitmap_wf (free_map s) \<and> bit_cnt (free_map s) = cache_sectors (buf s) \<and> (\<forall>t \<in> owned L. bit_at (free_map s) t)"

definition opened :: "fs \<Rightarrow> layout \<Rightarrow> nat \<Rightarrow> bool" where
  "opened s L p \<longleftrightarrow> p < fresh s \<and> (\<exists>i. inodes s p = Some i \<and> L (unat (i_sector i)) = Some (i_data i) \<and> 0 < open_cnt i \<and> open_cnt i < 2 ^ 31)"

definition open_ok :: "fs \<Rightarrow> layout \<Rightarrow> bool" where
  "open_ok s L \<longleftrightarrow> (\<forall>p \<in> set (open_inodes s). opened s L p) \<and> distinct (open_inodes s) \<and>
     inj_on (\<lambda>p. map_option i_sector (inodes s p)) (set (open_inodes s))"

definition map_file_ok :: "fs \<Rightarrow> layout \<Rightarrow> bool" where
  "map_file_ok s L \<longleftrightarrow> (case free_map_file s of
     None \<Rightarrow> True
   | Some fp \<Rightarrow> \<exists>f i. files s fp = Some f \<and> f_inode f \<in> set (open_inodes s) \<and> inodes s (f_inode f) = Some i \<and>
       unat (i_sector i) = FREE_MAP_SECTOR)"

definition fs_inv :: "fs \<Rightarrow> layout \<Rightarrow> bool" where
  "fs_inv s L \<longleftrightarrow> cache_ok (buf s) \<and> layout_ok (cache_sectors (buf s)) L \<and> on_disk (fs_view s) L \<and> map_ok s L \<and>
     open_ok s L \<and> map_file_ok s L"

text \<open>What the file with its inode in sector \<open>t\<close> holds.\<close>

definition contents :: "fs \<Rightarrow> layout \<Rightarrow> nat \<Rightarrow> u8 list" where
  "contents s L t = inode_bytes (fs_view s) (the (L t))"

lemma cache_ok_sectors: "cache_ok c \<Longrightarrow> cache_sectors c \<le> 2 ^ 31"
  by (auto simp: cache_ok_def cache_wf_def slots_but_def cache_base_def block_wf_def)

lemma inode_bytes_cong:
  assumes "\<And>t. t \<in> data_sectors d \<Longrightarrow> v t = v' t"
  shows "inode_bytes v d = inode_bytes v' d"
proof -
  have "disk_byte v (inode_first d + k) = disk_byte v' (inode_first d + k)" if "k < nat (id_length d)" for k
  proof -
    have "k mod 512 + 0 < 512" by simp
    from div_mod_off(1)[OF this, of "unat (id_start d)"]
    have "(inode_first d + k) div 512 = unat (id_start d) + k div 512" by (simp add: inode_first_def BLOCK_SECTOR_SIZE_def)
    moreover have "unat (id_start d) + k div 512 \<in> data_sectors d" using that unfolding data_sectors_def by auto
    ultimately show ?thesis using assms by (simp add: disk_byte_def BLOCK_SECTOR_SIZE_def)
  qed
  then show ?thesis by (simp add: inode_bytes_def)
qed

lemma contents_cong:
  assumes "L t = Some d" and "\<And>u. u \<in> data_sectors d \<Longrightarrow> fs_view s' u = fs_view s u"
  shows "contents s' L t = contents s L t"
  using assms by (auto simp: contents_def intro: inode_bytes_cong)

lemma on_disk_frame:
  assumes "on_disk v L" and "\<And>t. t \<in> dom L \<Longrightarrow> v' t = v t"
  shows "on_disk v' L"
  using assms unfolding on_disk_def by (metis domI)

lemma layout_disjoint:
  assumes "layout_ok n L" and "L t = Some d" and "L t' = Some d'" and "t \<noteq> t'"
  shows "data_sectors d \<inter> data_sectors d' = {}" and "t' \<notin> data_sectors d"
  using assms unfolding layout_ok_def by blast+

subsection \<open>Reading and writing\<close>

text \<open>A state that differs in the cache only, whose inode sectors are unchanged, keeps the invariant.\<close>

lemma fs_inv_buf:
  assumes inv: "fs_inv s L" and c: "cache_ok c" "cache_sectors c = cache_sectors (buf s)"
    and v: "\<And>t. t \<in> dom L \<Longrightarrow> cache_view c t = fs_view s t"
  shows "fs_inv (s\<lparr>buf := c\<rparr>) L"
proof -
  have "on_disk (cache_view c) L" using inv v by (auto simp: fs_inv_def intro: on_disk_frame)
  then show ?thesis
    using inv c by (simp add: fs_inv_def map_ok_def open_ok_def opened_def map_file_ok_def split: option.splits)
qed

lemma opened_inode:
  assumes "fs_inv s L" and "p \<in> set (open_inodes s)"
  obtains i where "inodes s p = Some i" and "L (unat (i_sector i)) = Some (i_data i)" and "0 < open_cnt i" and "open_cnt i < 2 ^ 31"
    and "inode_fits (cache_sectors (buf s)) (i_data i)" and "cache_ok (buf s)"
  using assms unfolding fs_inv_def open_ok_def opened_def layout_ok_def by metis

lemma open_inode_facts:
  assumes "fs_inv s L" and "p \<in> set (open_inodes s)" and "inodes s p = Some i"
  shows "L (unat (i_sector i)) = Some (i_data i)" and "inode_fits (cache_sectors (buf s)) (i_data i)" and "cache_ok (buf s)"
    and "open_cnt i < 2 ^ 31" and "layout_ok (cache_sectors (buf s)) L"
  using opened_inode[OF assms(1,2)] assms(1,3) by (auto simp: fs_inv_def)

lemma inode_read_at_spec:
  assumes inv: "fs_inv s L" and p: "p \<in> set (open_inodes s)" "inodes s p = Some i" and off: "0 \<le> off" "off < 2 ^ 31"
  obtains c where "inode_read_at p sz off s = Some (s\<lparr>buf := c\<rparr>, take (nat sz) (drop (nat off) (contents s L (unat (i_sector i)))))"
    and "fs_inv (s\<lparr>buf := c\<rparr>) L" and "cache_view c = fs_view s"
proof -
  have i: "L (unat (i_sector i)) = Some (i_data i)" "inode_fits (cache_sectors (buf s)) (i_data i)" "cache_ok (buf s)"
    using opened_inode[OF inv p(1)] p(2) by auto
  have o: "nat off < 2 ^ 31" using off by simp
  obtain c where c: "inode_read_loop cache_read i sz off (buf s) = Some (c, take (nat sz) (drop (nat off) (inode_bytes (fs_view s) (i_data i))))"
    "cache_ok c" "cache_sectors c = cache_sectors (buf s)" "cache_view c = fs_view s"
    using cached_disk.inode_read_loop_spec[OF i(3,2) o, of sz] off(1) by auto
  show thesis
  proof (rule that)
    show "inode_read_at p sz off s = Some (s\<lparr>buf := c\<rparr>, take (nat sz) (drop (nat off) (contents s L (unat (i_sector i)))))"
      using c(1) p(2) i(1) by (simp add: inode_read_at_def contents_def)
    show "fs_inv (s\<lparr>buf := c\<rparr>) L" by (rule fs_inv_buf[OF inv c(2,3)]) (simp add: c(4))
  qed (rule c(4))
qed

lemma inode_write_at_spec:
  assumes inv: "fs_inv s L" and p: "p \<in> set (open_inodes s)" "inodes s p = Some i" "deny_write_cnt i = 0"
    and off: "0 \<le> off" "off < 2 ^ 31" and b: "nat sz \<le> length b"
  defines "t \<equiv> unat (i_sector i)" and "n \<equiv> min (nat sz) (nat (inode_length i) - nat off)"
  obtains c where "inode_write_at p b sz off s = Some (s\<lparr>buf := c\<rparr>, int n)" and "fs_inv (s\<lparr>buf := c\<rparr>) L"
    and "contents (s\<lparr>buf := c\<rparr>) L t = take (nat off) (contents s L t) @ take n b @ drop (nat off + n) (contents s L t)"
    and "\<forall>u. u \<notin> data_sectors (i_data i) \<longrightarrow> cache_view c u = fs_view s u"
    and "cache_sectors c = cache_sectors (buf s)"
proof -
  have i: "L t = Some (i_data i)" "inode_fits (cache_sectors (buf s)) (i_data i)" "cache_ok (buf s)"
    using opened_inode[OF inv p(1)] p(2) by (auto simp: t_def)
  have o: "nat off < 2 ^ 31" using off by simp
  obtain c where c: "inode_write_loop cache_write i sz off b (buf s) = Some (c, int n)" "cache_ok c"
    "cache_sectors c = cache_sectors (buf s)" "\<forall>u. u \<notin> data_sectors (i_data i) \<longrightarrow> cache_view c u = fs_view s u"
    "inode_bytes (cache_view c) (i_data i) = take (nat off) (inode_bytes (fs_view s) (i_data i)) @ take n b @
       drop (nat off + n) (inode_bytes (fs_view s) (i_data i))"
    using cached_disk.inode_write_loop_spec[OF i(3,2) o b] off(1) unfolding n_def by auto
  show thesis
  proof (rule that)
    show "inode_write_at p b sz off s = Some (s\<lparr>buf := c\<rparr>, int n)" using c(1) p by (simp add: inode_write_at_def)
    have "dom L \<inter> data_sectors (i_data i) = {}" using inv i(1) by (auto simp: fs_inv_def layout_ok_def)
    then show "fs_inv (s\<lparr>buf := c\<rparr>) L" using c(4) by (intro fs_inv_buf[OF inv c(2,3)]) auto
    show "contents (s\<lparr>buf := c\<rparr>) L t = take (nat off) (contents s L t) @ take n b @ drop (nat off + n) (contents s L t)"
      using c(5) i(1) by (simp add: contents_def)
  qed (use c in auto)
qed

subsection \<open>The free map\<close>

text \<open>The sectors that hold the free map.\<close>

definition map_sectors :: "layout \<Rightarrow> nat set" where
  "map_sectors L = (case L FREE_MAP_SECTOR of None \<Rightarrow> {} | Some d \<Rightarrow> data_sectors d)"

lemma byte_cnt_int: "bit_cnt m \<le> 2 ^ 31 \<Longrightarrow> bitmap_wf m \<Longrightarrow> byte_cnt (bit_cnt m) \<le> length (words_bytes (bits m)) \<and> byte_cnt (bit_cnt m) < 2 ^ 31"
  by (auto simp: byte_cnt_def bitmap_wf_def elem_cnt_def ELEM_BITS_def size_add_def) 

lemma map_write:
  assumes inv: "fs_inv s L" and m: "bitmap_wf m" "bit_cnt m \<le> 2 ^ 31" and f: "free_map_file s = Some fp"
  obtains c ok where "bitmap_write m (bitmap_file_write (free_map_file s)) s = Some (s\<lparr>buf := c\<rparr>, ok)" and "fs_inv (s\<lparr>buf := c\<rparr>) L"
    and "\<forall>u. u \<notin> map_sectors L \<longrightarrow> cache_view c u = fs_view s u" and "cache_sectors c = cache_sectors (buf s)"
proof -
  obtain f i where fi: "files s fp = Some f" "f_inode f \<in> set (open_inodes s)" "inodes s (f_inode f) = Some i"
    "unat (i_sector i) = FREE_MAP_SECTOR"
    using inv f by (auto simp: fs_inv_def map_file_ok_def)
  let ?b = "words_bytes (bits m)" and ?n = "int (byte_cnt (bit_cnt m))"
  have L: "L FREE_MAP_SECTOR = Some (i_data i)" using opened_inode[OF inv fi(2)] fi(3,4) by auto
  have w: "bitmap_write m (bitmap_file_write (free_map_file s)) s =
      (inode_write_at (f_inode f) ?b ?n 0 s) \<bind> (\<lambda>(s, k). Some (s, k = ?n))"
    by (simp add: bitmap_write_def bitmap_file_write_def file_write_at_def f fi(1) Let_def)
  show thesis
  proof (cases "deny_write_cnt i = 0")
    case True
    have le: "nat ?n \<le> length ?b" "(0 :: int) \<le> 0" "(0 :: int) < 2 ^ 31" using byte_cnt_int[OF m(2,1)] by simp_all
    obtain c k where
      c: "inode_write_at (f_inode f) ?b ?n 0 s = Some (s\<lparr>buf := c\<rparr>, k)" "fs_inv (s\<lparr>buf := c\<rparr>) L"
      "\<forall>u. u \<notin> data_sectors (i_data i) \<longrightarrow> cache_view c u = fs_view s u" "cache_sectors c = cache_sectors (buf s)"
      by (rule inode_write_at_spec[OF inv fi(2,3) True le(2,3,1)]) blast
    show thesis
      by (rule that[of c "k = ?n"]) (use c L w in \<open>simp_all add: map_sectors_def\<close>)
  next
    case False
    then have "inode_write_at (f_inode f) ?b ?n 0 s = Some (s\<lparr>buf := buf s\<rparr>, 0)" using fi(3) by (simp add: inode_write_at_def)
    then show thesis by (intro that[of "buf s" "0 = ?n"]) (use w inv in simp_all)
  qed
qed

lemma fs_inv_map:
  assumes "fs_inv s L" and "bitmap_wf m" and "bit_cnt m = bit_cnt (free_map s)"
    and "\<And>t. t \<in> owned L \<Longrightarrow> bit_at (free_map s) t \<Longrightarrow> bit_at m t"
  shows "fs_inv (s\<lparr>free_map := m\<rparr>) L"
  using assms by (auto simp: fs_inv_def map_ok_def open_ok_def opened_def map_file_ok_def split: option.splits)

lemma map_sectors_owned: "layout_ok n L \<Longrightarrow> L t = Some d \<Longrightarrow> t \<noteq> FREE_MAP_SECTOR \<Longrightarrow> data_sectors d \<inter> map_sectors L = {}"
  by (auto simp: map_sectors_def split: option.splits dest: layout_disjoint(1))

lemma map_sectors_dom: "layout_ok n L \<Longrightarrow> dom L \<inter> map_sectors L = {}"
  by (auto simp: map_sectors_def layout_ok_def split: option.splits)

text \<open>What stays the same when the free map changes.\<close>

definition map_frame :: "layout \<Rightarrow> fs \<Rightarrow> fs \<Rightarrow> bool" where
  "map_frame L s s' \<longleftrightarrow> inodes s' = inodes s \<and> open_inodes s' = open_inodes s \<and> files s' = files s \<and> fresh s' = fresh s \<and>
     free_map_file s' = free_map_file s \<and> cache_sectors (buf s') = cache_sectors (buf s) \<and>
     (\<forall>u. u \<notin> map_sectors L \<longrightarrow> fs_view s' u = fs_view s u)"

lemma free_map_allocate_spec:
  assumes inv: "fs_inv s L"
  obtains s' r where "free_map_allocate cnt s = Some (s', r)" and "fs_inv s' L" and "map_frame L s s'"
    and "\<forall>j. bit_at (free_map s) j \<longrightarrow> j < bit_cnt (free_map s) \<longrightarrow> bit_at (free_map s') j"
    and "\<forall>k. r = Some k \<longrightarrow> k + cnt \<le> bit_cnt (free_map s) \<and> (\<forall>j \<in> {k ..< k + cnt}. \<not> bit_at (free_map s) j \<and> bit_at (free_map s') j)"
    and "r = None \<longrightarrow> (\<forall>j < bit_cnt (free_map s). bit_at (free_map s') j = bit_at (free_map s) j)"
proof -
  let ?m = "free_map s" and ?n = "bit_cnt (free_map s)"
  have m: "bitmap_wf ?m" "?n = cache_sectors (buf s)" "\<forall>t \<in> owned L. bit_at ?m t" using inv by (auto simp: fs_inv_def map_ok_def)
  have le0: "0 \<le> ?n" by simp
  have n31: "?n \<le> 2 ^ 31" using inv cache_ok_sectors by (simp add: m(2) fs_inv_def)
  show thesis
  proof (cases "no_run ?m 0 cnt False")
    case True
    then have "free_map_allocate cnt s = Some (s\<lparr>free_map := ?m, buf := buf s\<rparr>, None)"
      using bitmap_scan_and_flip_none[OF m(1) _ True] by (simp add: free_map_allocate_def)
    then show thesis by (rule that) (use inv in \<open>auto simp: map_frame_def\<close>)
  next
    case False
    obtain b' k where b': "bitmap_scan_and_flip ?m 0 cnt False = Some (b', k)" "k \<noteq> BITMAP_ERROR" "bitmap_wf b'"
      "bit_cnt b' = ?n" "k + cnt \<le> ?n" "bit_run ?m k cnt False" "\<forall>j < ?n. bit_at b' j = (if j \<in> {k ..< k + cnt} then \<not> False else bit_at ?m j)"
      by (rule bitmap_scan_and_flip_found[OF m(1) le0 False])
    have own: "t < ?n" if "t \<in> owned L" for t
      using inv that unfolding fs_inv_def layout_ok_def m(2) owned_def by (auto simp: ran_def dest: inode_fits_sectors)
    let ?s = "s\<lparr>free_map := b'\<rparr>"
    have inv1: "fs_inv ?s L" by (rule fs_inv_map[OF inv b'(3,4)]) (use b'(7) own in auto)
    have mono: "\<forall>j. bit_at ?m j \<longrightarrow> j < ?n \<longrightarrow> bit_at b' j" using b'(7) by auto
    have got: "k + cnt \<le> ?n \<and> (\<forall>j \<in> {k ..< k + cnt}. \<not> bit_at ?m j \<and> bit_at b' j)" using b'(5-7) by (auto simp: bit_run_def)
    show thesis
    proof (cases "free_map_file s")
      case None
      then have "free_map_allocate cnt s = Some (?s, Some k)" using b' by (simp add: free_map_allocate_def)
      then show thesis
        by (rule that[OF _ inv1]) (use mono got in \<open>auto simp: map_frame_def\<close>)
    next
      case (Some fp)
      obtain c ok where c: "bitmap_write b' (bitmap_file_write (free_map_file ?s)) ?s = Some (?s\<lparr>buf := c\<rparr>, ok)"
        "fs_inv (?s\<lparr>buf := c\<rparr>) L" "\<forall>u. u \<notin> map_sectors L \<longrightarrow> cache_view c u = fs_view ?s u" "cache_sectors c = cache_sectors (buf ?s)"
        by (rule map_write[OF inv1 b'(3), of fp]) (use b'(4) n31 Some in simp_all)
      show thesis
      proof (cases ok)
        case True
        then have "free_map_allocate cnt s = Some (?s\<lparr>buf := c\<rparr>, Some k)" using b' c(1) Some by (simp add: free_map_allocate_def)
        then show thesis
          by (rule that[OF _ c(2)]) (use mono got c(3,4) in \<open>auto simp: map_frame_def\<close>)
      next
        case False
        obtain b'' where b'': "bitmap_set_multiple b' k cnt False = Some b''" "bitmap_wf b''" "bit_cnt b'' = bit_cnt b'"
          "bitmap_abs b'' = take k (bitmap_abs b') @ replicate cnt False @ drop (k + cnt) (bitmap_abs b')"
          by (rule bitmap_set_multiple_abs[OF b'(3), of k cnt]) (use b'(4,5) in simp_all)
        have same: "bit_at b'' j = bit_at ?m j" if "j < ?n" for j
          using bit_at_range[OF b''(4), of j] b'(4-7) b''(3) that by (auto simp: bit_run_def)
        let ?s2 = "s\<lparr>buf := c, free_map := b''\<rparr>"
        have "free_map_allocate cnt s = Some (?s2, None)" using b' c(1) Some False b''(1) by (simp add: free_map_allocate_def)
        moreover have "fs_inv ?s2 L"
          using fs_inv_map[OF c(2) b''(2)] b''(3) same own m(3) by auto
        ultimately show thesis by (rule that) (use same c(3,4) in \<open>auto simp: map_frame_def\<close>)
      qed
    qed
  qed
qed

subsection \<open>Creating files\<close>

text \<open>The rounding up in \<open>bytes_to_sectors\<close> overflows for the largest sizes; the number of sectors is then
  larger than any disk.\<close>

lemma bytes_to_sectors_eq:
  assumes "0 \<le> len" and "len + 511 < 2 ^ 31"
  shows "bytes_to_sectors len = (nat len + 511) div 512"
proof -
  have "(511 + len) div 512 < 2 ^ 32" using assms by simp
  moreover have "nat ((511 + len) div 512) = (nat len + 511) div 512"
    using assms(1) by (simp add: nat_div_distrib nat_add_distrib add.commute)
  ultimately show ?thesis using assms by (simp add: bytes_to_sectors_def BLOCK_SECTOR_SIZE_def sdiv_nonneg)
qed

lemma bytes_to_sectors_overflow:
  assumes "2 ^ 31 \<le> len + 511" and "len < 2 ^ 31"
  shows "2 ^ 31 < bytes_to_sectors len"
proof -
  have w: "wrap32 (511 + len) = len + 511 - 2 ^ 32"
  proof -
    have "wrap32 (511 + len) = wrap32 (511 + len - 2 ^ 32)"
      using minus_mod_self2[of "len + 2147484159" 4294967296]
      by (simp add: wrap32_def signed_take_bit_eq_take_bit_shift take_bit_eq_mod algebra_simps)
    also have "\<dots> = len + 511 - 2 ^ 32" using assms by (subst wrap32_id) auto
    finally show ?thesis .
  qed
  let ?x = "(2 ^ 32 - len - 511) div 512"
  have q: "(len + 511 - 2 ^ 32) sdiv 512 = - ?x" using assms(2) by (subst sdiv_neg) auto
  have x: "0 < ?x" "?x \<le> 2 ^ 23" using assms by auto
  then have "(- ?x) mod 2 ^ 32 = 2 ^ 32 - ?x" by (subst zmod_zminus1_eq_if) auto
  then have "bytes_to_sectors len = nat (2 ^ 32 - ?x)" using w q by (simp add: bytes_to_sectors_def BLOCK_SECTOR_SIZE_def)
  with x show ?thesis by simp
qed

lemma zero_sectors_spec:
  assumes "cache_ok c" and "\<forall>k \<in> set ks. unat start + k < cache_sectors c"
  shows "\<exists>c'. zero_sectors start ks c = Some c' \<and> cache_ok c' \<and> cache_sectors c' = cache_sectors c \<and>
    cache_view c' = (\<lambda>u. if u \<in> (+) (unat start) ` set ks then replicate BLOCK_SECTOR_SIZE 0 else cache_view c u)"
  using assms
proof (induction ks arbitrary: c)
  case Nil
  then show ?case by simp
next
  case (Cons k ks)
  have lt: "unat start + k < cache_sectors c" using Cons.prems(2) by simp
  then have "unat (start + word_of_nat k) = unat start + k"
    using cache_ok_sectors[OF Cons.prems(1)] by (simp add: unat_word_ariths unat_of_nat)
  then have si: "sint (start + word_of_nat k) = int (unat start + k)"
    using lt cache_ok_sectors[OF Cons.prems(1)] by (subst sint_unat) auto
  obtain c1 where c1: "cache_write (int (unat start + k)) (replicate BLOCK_SECTOR_SIZE 0) 0 BLOCK_SECTOR_SIZE c = Some c1"
    "cache_ok c1" "cache_sectors c1 = cache_sectors c"
    "cache_view c1 = (cache_view c)(unat start + k := replicate BLOCK_SECTOR_SIZE 0)"
    using cached_disk.wr_law[OF Cons.prems(1) lt, of 0 BLOCK_SECTOR_SIZE "replicate BLOCK_SECTOR_SIZE 0"]
      cached_disk.view_length[OF Cons.prems(1) lt] by auto
  obtain c2 where c2: "zero_sectors start ks c1 = Some c2" "cache_ok c2" "cache_sectors c2 = cache_sectors c1"
    "cache_view c2 = (\<lambda>u. if u \<in> (+) (unat start) ` set ks then replicate BLOCK_SECTOR_SIZE 0 else cache_view c1 u)"
    using Cons.IH[OF c1(2)] Cons.prems(2) c1(3) by auto
  have "zero_sectors start (k # ks) c = Some c2" using c1(1) c2(1) si by simp
  moreover have "cache_view c2 = (\<lambda>u. if u \<in> (+) (unat start) ` set (k # ks) then replicate BLOCK_SECTOR_SIZE 0 else cache_view c u)"
    unfolding c2(4) c1(4) by (rule ext) auto
  ultimately show ?case using c1(3) c2(2,3) by auto
qed

lemma zero_contents:
  assumes "\<And>u. u \<in> data_sectors d \<Longrightarrow> v u = replicate BLOCK_SECTOR_SIZE 0"
  shows "inode_bytes v d = replicate (nat (id_length d)) 0"
proof -
  have "inode_bytes v d = inode_bytes (\<lambda>_. replicate BLOCK_SECTOR_SIZE 0) d" using assms by (rule inode_bytes_cong)
  also have "\<dots> = replicate (nat (id_length d)) 0"
    by (simp add: inode_bytes_def disk_byte_def BLOCK_SECTOR_SIZE_def map_replicate_const)
  finally show ?thesis .
qed

text \<open>A new file in sectors that no file owns.\<close>

lemma layout_ok_add:
  assumes "layout_ok n L" and "t < n" and "inode_fits n d" and "t \<notin> owned L" and "data_sectors d \<inter> owned L = {}" and "t \<notin> data_sectors d"
  shows "layout_ok n (L(t \<mapsto> d))"
  using assms unfolding layout_ok_def owned_def by (auto simp: ran_def split: if_splits)

lemma owned_add: "L t = None \<Longrightarrow> owned (L(t \<mapsto> d)) = insert t (data_sectors d \<union> owned L)"
  by (auto simp: owned_def ran_map_upd)

lemma fs_inv_new_file:
  assumes inv: "fs_inv s L" and t: "t < cache_sectors (buf s)" "t \<notin> owned L" "t \<notin> data_sectors d"
    and d: "inode_fits (cache_sectors (buf s)) d" "data_sectors d \<inter> owned L = {}"
    and bits: "bit_at (free_map s) t" "\<forall>j \<in> data_sectors d. bit_at (free_map s) j"
    and c: "cache_ok c" "cache_sectors c = cache_sectors (buf s)" "cache_view c t = inode_disk_bytes d"
      "\<And>u. u \<notin> insert t (data_sectors d) \<Longrightarrow> cache_view c u = fs_view s u"
  shows "fs_inv (s\<lparr>buf := c\<rparr>) (L(t \<mapsto> d))"
proof -
  have tn: "L t = None" using t(2) by (auto simp: owned_def)
  have "layout_ok (cache_sectors c) (L(t \<mapsto> d))"
    unfolding c(2) using inv t d by (intro layout_ok_add) (auto simp: fs_inv_def)
  moreover have "cache_view c u = fs_view s u" if "L u = Some e" for u e
    by (rule c(4)) (use that t(2) d(2) tn in \<open>auto simp: owned_def\<close>)
  then have "on_disk (cache_view c) (L(t \<mapsto> d))"
    using inv c(3) d(1) by (auto simp: on_disk_def fs_inv_def inode_fits_def)
  moreover have "map_ok (s\<lparr>buf := c\<rparr>) (L(t \<mapsto> d))"
    using inv bits c(2) by (auto simp: fs_inv_def map_ok_def owned_add[of L t d, OF tn])
  moreover have "open_ok (s\<lparr>buf := c\<rparr>) (L(t \<mapsto> d))"
  proof -
    have "opened (s\<lparr>buf := c\<rparr>) (L(t \<mapsto> d)) p" if "opened s L p" for p
      using that tn by (auto simp: opened_def)
    then show ?thesis using inv by (simp add: fs_inv_def open_ok_def)
  qed
  moreover have "map_file_ok (s\<lparr>buf := c\<rparr>) (L(t \<mapsto> d))"
    using inv by (simp add: fs_inv_def map_file_ok_def split: option.splits)
  ultimately show ?thesis using c(1) by (simp add: fs_inv_def)
qed

lemma inode_create_spec:
  assumes inv: "fs_inv s L" and sec: "unat sec < cache_sectors (buf s)" "unat sec \<notin> owned L" "bit_at (free_map s) (unat sec)"
    and len: "0 \<le> len" "len < 2 ^ 31"
  shows "(\<exists>s'. inode_create sec len par s = Some (s', False) \<and> fs_inv s' L \<and> map_frame L s s') \<or>
    (\<exists>s' d. inode_create sec len par s = Some (s', True) \<and> id_length d = len \<and> parent_dir_inode d = par \<and>
       fs_inv s' (L(unat sec \<mapsto> d)) \<and> contents s' (L(unat sec \<mapsto> d)) (unat sec) = replicate (nat len) 0 \<and>
       open_inodes s' = open_inodes s \<and> (\<forall>u \<in> owned L. u \<notin> map_sectors L \<longrightarrow> fs_view s' u = fs_view s u))"
proof -
  let ?cnt = "bytes_to_sectors len" and ?n = "cache_sectors (buf s)"
  have n: "bit_cnt (free_map s) = ?n" "?n \<le> 2 ^ 31" "\<forall>t \<in> owned L. bit_at (free_map s) t" "layout_ok ?n L" "\<not> malloc_fails (buf s)"
    using inv cache_ok_sectors by (auto simp: fs_inv_def map_ok_def cache_ok_def)
  obtain s1 r where s1: "free_map_allocate ?cnt s = Some (s1, r)" "fs_inv s1 L" "map_frame L s s1"
    "\<forall>j. bit_at (free_map s) j \<longrightarrow> j < bit_cnt (free_map s) \<longrightarrow> bit_at (free_map s1) j"
    "\<forall>k. r = Some k \<longrightarrow> k + ?cnt \<le> bit_cnt (free_map s) \<and> (\<forall>j \<in> {k ..< k + ?cnt}. \<not> bit_at (free_map s) j \<and> bit_at (free_map s1) j)"
    by (rule free_map_allocate_spec[OF inv])
  show ?thesis
  proof (cases r)
    case None
    then have "inode_create sec len par s = Some (s1, False)" using s1(1) len(1) n(5) by (simp add: inode_create_def)
    with s1(2,3) show ?thesis by blast
  next
    case (Some k)
    have k: "k + ?cnt \<le> ?n" "\<forall>j \<in> {k ..< k + ?cnt}. \<not> bit_at (free_map s) j \<and> bit_at (free_map s1) j"
      using s1(5) Some n(1) by auto
    have big: "len + 511 < 2 ^ 31" using bytes_to_sectors_overflow[OF _ len(2)] k(1) n(2) by linarith
    then have cnt: "?cnt = (nat len + 511) div 512" by (rule bytes_to_sectors_eq[OF len(1)])
    define d where "d = \<lparr>id_start = word_of_nat k, id_length = len, id_unused = replicate 496 0, parent_dir_inode = par, id_magic = INODE_MAGIC\<rparr>"
    let ?L = "L(unat sec \<mapsto> d)" and ?t = "unat sec"
    have start: "unat (id_start d) = k" using k(1) n(2) by (simp add: d_def unat_of_nat)
    have ds: "data_sectors d = {k ..< k + ?cnt}" unfolding data_sectors_def start cnt by (simp add: d_def)
    have dwf: "inode_disk_wf d" using len by (simp add: inode_disk_wf_def d_def)
    have fits: "inode_fits ?n d" using dwf k(1) n(2) len big start cnt unfolding inode_fits_def by (auto simp: d_def)
    have free: "data_sectors d \<inter> owned L = {}" "?t \<notin> data_sectors d" using k(2) n(3) sec(3) unfolding ds by auto
    have s1c: "cache_ok (buf s1)" "cache_sectors (buf s1) = ?n" using s1(2,3) by (auto simp: fs_inv_def map_frame_def)
    have si: "sint sec = int ?t" using sec(1) n(2) by (subst sint_unat) auto
    obtain c1 where c1: "cache_write (int ?t) (inode_disk_bytes d) 0 BLOCK_SECTOR_SIZE (buf s1) = Some c1" "cache_ok c1"
      "cache_sectors c1 = ?n" "cache_view c1 = (fs_view s1)(?t := inode_disk_bytes d)"
      using cached_disk.wr_law[OF s1c(1), of ?t 0 BLOCK_SECTOR_SIZE "inode_disk_bytes d"] sec(1) s1c
        cached_disk.view_length[OF s1c(1), of ?t] length_inode_disk_bytes[OF dwf] by auto
    obtain c2 where c2: "zero_sectors (id_start d) [0 ..< ?cnt] c1 = Some c2" "cache_ok c2" "cache_sectors c2 = ?n"
      "cache_view c2 = (\<lambda>u. if u \<in> (+) (unat (id_start d)) ` set [0 ..< ?cnt] then replicate BLOCK_SECTOR_SIZE 0 else cache_view c1 u)"
      using zero_sectors_spec[OF c1(2), of "[0 ..< ?cnt]" "id_start d"] k(1) c1(3) start by auto
    have im: "(+) (unat (id_start d)) ` set [0 ..< ?cnt] = data_sectors d" unfolding ds start by (auto simp: image_add_atLeastLessThan)
    have run: "inode_create sec len par s = Some (s1\<lparr>buf := c2\<rparr>, True)"
      using s1(1) Some len(1) n(5) c1(1) c2(1) si by (auto simp: inode_create_def d_def Let_def)
    have "fs_inv (s1\<lparr>buf := c2\<rparr>) ?L"
    proof (rule fs_inv_new_file[OF s1(2)])
      show "bit_at (free_map s1) ?t" "\<forall>j \<in> data_sectors d. bit_at (free_map s1) j"
        using s1(4) sec(1,3) n(1) k(2) unfolding ds by auto
      show "cache_view c2 ?t = inode_disk_bytes d" unfolding c2(4) im c1(4) using free(2) by simp
      show "cache_view c2 u = fs_view s1 u" if "u \<notin> insert ?t (data_sectors d)" for u
        unfolding c2(4) im c1(4) using that by simp
    qed (use sec free fits s1c c2 in simp_all)
    moreover have "contents (s1\<lparr>buf := c2\<rparr>) ?L ?t = replicate (nat len) 0"
    proof -
      have "inode_bytes (cache_view c2) d = replicate (nat (id_length d)) 0" unfolding c2(4) im by (rule zero_contents) simp
      then show ?thesis by (simp add: contents_def d_def)
    qed
    moreover have "cache_view c2 u = fs_view s u" if "u \<in> owned L" "u \<notin> map_sectors L" for u
      unfolding c2(4) im c1(4) using that free sec(2) s1(3) by (auto simp: map_frame_def)
    moreover have "id_length d = len" "parent_dir_inode d = par" by (simp_all add: d_def)
    ultimately show ?thesis using run s1(3) by (auto simp: map_frame_def)
  qed
qed

subsection \<open>Opening and closing\<close>

lemma inode_open_loop_eq:
  assumes "\<forall>p \<in> set ps. inodes s p \<noteq> None"
  shows "inode_open_loop sec ps s = Some (find (\<lambda>p. map_option i_sector (inodes s p) = Some sec) ps)"
  using assms by (induction ps) auto

lemma opened_set_inode:
  assumes "opened s L q" and "inodes s p = Some i" and "i_sector i' = i_sector i" and "i_data i' = i_data i"
    and "0 < open_cnt i'" and "open_cnt i' < 2 ^ 31"
  shows "opened (set_inode p i' s) L q"
  using assms by (auto simp: opened_def set_inode_def)

lemma fs_inv_set_inode:
  assumes inv: "fs_inv s L" and i: "inodes s p = Some i" "i_sector i' = i_sector i" "i_data i' = i_data i" "0 < open_cnt i'" "open_cnt i' < 2 ^ 31"
  shows "fs_inv (set_inode p i' s) L"
proof -
  have "open_ok (set_inode p i' s) L"
    unfolding open_ok_def
  proof (intro conjI ballI)
    show "opened (set_inode p i' s) L q" if "q \<in> set (open_inodes (set_inode p i' s))" for q
      using inv that by (intro opened_set_inode[OF _ i]) (auto simp: fs_inv_def open_ok_def set_inode_def)
    have "map_option i_sector (inodes (set_inode p i' s) q) = map_option i_sector (inodes s q)" for q
      using i by (auto simp: set_inode_def)
    then show "inj_on (\<lambda>q. map_option i_sector (inodes (set_inode p i' s) q)) (set (open_inodes (set_inode p i' s)))"
      using inv by (simp add: fs_inv_def open_ok_def set_inode_def)
  qed (use inv in \<open>simp add: fs_inv_def open_ok_def set_inode_def\<close>)
  moreover have "map_file_ok (set_inode p i' s) L"
    using inv i by (auto simp: fs_inv_def map_file_ok_def set_inode_def split: option.splits)
  ultimately show ?thesis using inv by (simp add: fs_inv_def map_ok_def set_inode_def)
qed

text \<open>The inode of a file that is not open is read and becomes the first of the open inodes.\<close>

lemma inode_open_new:
  assumes inv: "fs_inv s L" and sec: "L (unat sec) = Some d"
    and no: "\<forall>p \<in> set (open_inodes s). map_option i_sector (inodes s p) \<noteq> Some sec"
  defines "i \<equiv> \<lparr>i_sector = sec, open_cnt = 1, removed = False, deny_write_cnt = 0, i_data = d\<rparr>"
  obtains c where "inode_open sec s = Some ((set_inode (fresh s) i s)\<lparr>buf := c, open_inodes := fresh s # open_inodes s, fresh := fresh s + 1\<rparr>, Some (fresh s))"
    and "fs_inv ((set_inode (fresh s) i s)\<lparr>buf := c, open_inodes := fresh s # open_inodes s, fresh := fresh s + 1\<rparr>) L"
    and "cache_view c = fs_view s" and "fresh s \<notin> set (open_inodes s)"
proof -
  let ?P = "\<lambda>p. map_option i_sector (inodes s p) = Some sec"
  have o: "\<forall>p \<in> set (open_inodes s). opened s L p" using inv by (simp add: fs_inv_def open_ok_def)
  then have loop: "inode_open_loop sec (open_inodes s) s = Some (find ?P (open_inodes s))"
    by (intro inode_open_loop_eq) (auto simp: opened_def)
  have None: "find ?P (open_inodes s) = None" using no by (simp add: find_None_iff)
  have c0: "cache_ok (buf s)" "unat sec < cache_sectors (buf s)" "\<not> malloc_fails (buf s)"
    using inv sec by (auto simp: fs_inv_def layout_ok_def cache_ok_def)
  have si: "sint sec = int (unat sec)" using c0(2) cache_ok_sectors[OF c0(1)] by (subst sint_unat) auto
  obtain c where c: "cache_read (int (unat sec)) 0 BLOCK_SECTOR_SIZE (buf s) = Some (c, fs_view s (unat sec))" "cache_ok c"
    "cache_sectors c = cache_sectors (buf s)" "cache_view c = fs_view s"
    using cached_disk.rd_law[OF c0(1,2), of 0 BLOCK_SECTOR_SIZE] cached_disk.view_length[OF c0(1,2)] by auto
  have b: "bytes_inode_disk (fs_view s (unat sec)) = d" using inv sec by (simp add: fs_inv_def on_disk_def)
  define s' where "s' = (set_inode (fresh s) i s)\<lparr>buf := c, open_inodes := fresh s # open_inodes s, fresh := fresh s + 1\<rparr>"
  have run: "inode_open sec s = Some (s', Some (fresh s))"
    using loop None c0(3) c(1) si b by (simp add: inode_open_def s'_def Let_def i_def)
  have f: "inodes s' = (inodes s)(fresh s \<mapsto> i)" "buf s' = c" "open_inodes s' = fresh s # open_inodes s" "fresh s' = fresh s + 1"
    "files s' = files s" "free_map s' = free_map s" "free_map_file s' = free_map_file s"
    by (simp_all add: s'_def set_inode_def)
  have lt: "q < fresh s" if "q \<in> set (open_inodes s)" for q using o that by (auto simp: opened_def)
  have same: "inodes s' q = inodes s q" if "q \<in> set (open_inodes s)" for q using lt[OF that] by (simp add: f)
  have "opened s' L q" if "q \<in> set (open_inodes s)" for q
    using o that same[OF that] f(4) by (auto simp: opened_def)
  moreover have "opened s' L (fresh s)" using sec by (simp add: opened_def f i_def)
  moreover have nin: "fresh s \<notin> set (open_inodes s)" using lt by blast
  moreover have "inj_on (\<lambda>q. map_option i_sector (inodes s' q)) (set (open_inodes s'))"
  proof -
    have "inj_on (\<lambda>q. map_option i_sector (inodes s' q)) (set (open_inodes s))"
      using inv same by (simp add: fs_inv_def open_ok_def cong: inj_on_cong)
    moreover have "map_option i_sector (inodes s' (fresh s)) = Some sec" by (simp add: f i_def)
    moreover have "map_option i_sector (inodes s' q) \<noteq> Some sec" if "q \<in> set (open_inodes s)" for q
      using None that unfolding same[OF that] find_None_iff by blast
    ultimately show ?thesis unfolding f(3) list.set inj_on_insert by (metis (no_types, lifting) DiffD1 imageE)
  qed
  ultimately have "open_ok s' L" using inv unfolding open_ok_def fs_inv_def f(3) by auto
  moreover have "map_file_ok s' L"
    using inv same unfolding fs_inv_def map_file_ok_def f(3,5,7) by (auto split: option.splits)
  moreover have "map_ok s' L" using inv c(3) by (simp add: fs_inv_def map_ok_def f)
  ultimately have "fs_inv s' L" using inv c by (simp add: fs_inv_def f(2))
  then show thesis using run c(4) nin unfolding s'_def by (intro that)
qed

lemma inode_open_spec:
  assumes inv: "fs_inv s L" and sec: "L (unat sec) = Some d"
    and cnt: "\<forall>p \<in> set (open_inodes s). \<forall>i. inodes s p = Some i \<longrightarrow> open_cnt i + 1 < 2 ^ 31"
  shows "\<exists>s' p i. inode_open sec s = Some (s', Some p) \<and> fs_inv s' L \<and> fs_view s' = fs_view s \<and> p \<in> set (open_inodes s') \<and>
    inodes s' p = Some i \<and> i_sector i = sec \<and> i_data i = d"
proof -
  let ?P = "\<lambda>p. map_option i_sector (inodes s p) = Some sec"
  have o: "\<forall>p \<in> set (open_inodes s). opened s L p" using inv by (simp add: fs_inv_def open_ok_def)
  then have loop: "inode_open_loop sec (open_inodes s) s = Some (find ?P (open_inodes s))"
    by (intro inode_open_loop_eq) (auto simp: opened_def)
  show ?thesis
  proof (cases "find ?P (open_inodes s)")
    case (Some p)
    then have p: "p \<in> set (open_inodes s)" "?P p" by (auto simp: find_Some_iff)
    then obtain i where i: "inodes s p = Some i" "i_sector i = sec" "L (unat (i_sector i)) = Some (i_data i)" "0 < open_cnt i"
      using o by (auto simp: opened_def)
    let ?i = "i\<lparr>open_cnt := open_cnt i + 1\<rparr>"
    have lt: "open_cnt i + 1 < 2 ^ 31" using cnt p(1) i(1) by blast
    have "wrap32 (open_cnt i + 1) = open_cnt i + 1" by (rule wrap32_id) (use lt i(4) in auto)
    then have "inode_open sec s = Some (set_inode p ?i s, Some p)"
      using loop Some i(1) by (simp add: inode_open_def inode_reopen_def)
    moreover have "fs_inv (set_inode p ?i s) L" by (rule fs_inv_set_inode[OF inv i(1)]) (use i(4) lt in auto)
    ultimately show ?thesis using i sec p by (auto simp: set_inode_def)
  next
    case None
    then have no: "\<forall>p \<in> set (open_inodes s). map_option i_sector (inodes s p) \<noteq> Some sec" by (simp add: find_None_iff)
    show ?thesis by (rule inode_open_new[OF inv sec no]) (auto simp: set_inode_def)
  qed
qed

lemma free_map_release_spec:
  assumes inv: "fs_inv s L" and f: "free_map_file s = Some fp" and k: "k + cnt \<le> bit_cnt (free_map s)"
    "\<forall>j \<in> {k ..< k + cnt}. bit_at (free_map s) j" "{k ..< k + cnt} \<inter> owned L = {}"
  shows "\<exists>s'. free_map_release k cnt s = Some s' \<and> fs_inv s' L \<and> map_frame L s s' \<and>
    (\<forall>j < bit_cnt (free_map s). bit_at (free_map s') j = (bit_at (free_map s) j \<and> j \<notin> {k ..< k + cnt}))"
proof -
  let ?m = "free_map s" and ?n = "bit_cnt (free_map s)"
  have m: "bitmap_wf ?m" "?n = cache_sectors (buf s)" using inv by (auto simp: fs_inv_def map_ok_def)
  have n31: "?n \<le> 2 ^ 31" using inv cache_ok_sectors by (simp add: m(2) fs_inv_def)
  have own: "t < ?n" if "t \<in> owned L" for t
    using inv that unfolding fs_inv_def layout_ok_def m(2) owned_def by (auto simp: ran_def dest: inode_fits_sectors)
  have all: "bitmap_all ?m k cnt = Some True" using bitmap_all_abs[OF m(1) k(1)] k(2) by simp
  obtain b where b: "bitmap_set_multiple ?m k cnt False = Some b" "bitmap_wf b" "bit_cnt b = ?n"
    "bitmap_abs b = take k (bitmap_abs ?m) @ replicate cnt False @ drop (k + cnt) (bitmap_abs ?m)"
    by (rule bitmap_set_multiple_abs[OF m(1) k(1)])
  have bits: "bit_at b j = (bit_at ?m j \<and> j \<notin> {k ..< k + cnt})" if "j < ?n" for j
    using bit_at_range[OF b(4) k(1) b(3) that] by auto
  let ?s = "s\<lparr>free_map := b\<rparr>"
  have inv1: "fs_inv ?s L" by (rule fs_inv_map[OF inv b(2,3)]) (use bits own k(3) in auto)
  have fp: "free_map_file ?s = Some fp" "bit_cnt b \<le> 2 ^ 31" using f b(3) n31 by simp_all
  obtain c ok where c: "bitmap_write b (bitmap_file_write (free_map_file ?s)) ?s = Some (?s\<lparr>buf := c\<rparr>, ok)"
    "fs_inv (?s\<lparr>buf := c\<rparr>) L" "\<forall>u. u \<notin> map_sectors L \<longrightarrow> cache_view c u = fs_view ?s u" "cache_sectors c = cache_sectors (buf ?s)"
    by (rule map_write[OF inv1 b(2) fp(2,1)])
  have "free_map_release k cnt s = Some (?s\<lparr>buf := c\<rparr>)" using all b(1) c(1) by (simp add: free_map_release_def Let_def)
  with c bits show ?thesis by (auto simp: map_frame_def)
qed

lemma layout_remove:
  assumes "layout_ok n L" and "L t = Some d"
  shows "layout_ok n (L(t := None))" and "t \<notin> owned (L(t := None))" and "data_sectors d \<inter> owned (L(t := None)) = {}"
    and "owned (L(t := None)) \<subseteq> owned L"
proof -
  show "layout_ok n (L(t := None))" "t \<notin> owned (L(t := None))" "owned (L(t := None)) \<subseteq> owned L"
    using assms unfolding layout_ok_def owned_def by (auto simp: ran_def split: if_splits)
  have "data_sectors d \<inter> data_sectors e = {}" if "e \<in> ran (L(t := None))" for e
    using that layout_disjoint(1)[OF assms(1,2)] by (auto simp: ran_def split: if_splits)
  moreover have "dom L \<inter> data_sectors d = {}" using assms unfolding layout_ok_def by blast
  ultimately show "data_sectors d \<inter> owned (L(t := None)) = {}" by (auto simp: owned_def)
qed

lemma fs_inv_forget:
  assumes inv: "fs_inv s L" and p: "p \<notin> set (open_inodes s)"
  shows "fs_inv (s\<lparr>inodes := (inodes s)(p := x)\<rparr>) L"
proof -
  have "inj_on (\<lambda>q. map_option i_sector (((inodes s)(p := x)) q)) (set (open_inodes s))"
    using inv p unfolding fs_inv_def open_ok_def inj_on_def by auto
  then have "open_ok (s\<lparr>inodes := (inodes s)(p := x)\<rparr>) L"
    using inv p unfolding fs_inv_def open_ok_def opened_def by auto
  then show ?thesis
    using inv p by (auto simp: fs_inv_def map_ok_def map_file_ok_def split: option.splits)
qed

lemma fs_inv_unlink:
  assumes inv: "fs_inv s L" and p: "inodes s p = Some i" "unat (i_sector i) \<noteq> FREE_MAP_SECTOR"
  shows "fs_inv (s\<lparr>open_inodes := remove1 p (open_inodes s)\<rparr>) L"
proof -
  have sub: "set (remove1 p (open_inodes s)) = set (open_inodes s) - {p}" using inv by (simp add: fs_inv_def open_ok_def)
  have "inj_on (\<lambda>q. map_option i_sector (inodes s q)) (set (open_inodes s) - {p})"
    using inv by (auto simp: fs_inv_def open_ok_def intro: inj_on_subset)
  then have "open_ok (s\<lparr>open_inodes := remove1 p (open_inodes s)\<rparr>) L"
    using inv by (simp add: fs_inv_def open_ok_def opened_def sub)
  moreover have "map_file_ok (s\<lparr>open_inodes := remove1 p (open_inodes s)\<rparr>) L"
    using inv p by (auto simp: fs_inv_def map_file_ok_def sub split: option.splits)
  ultimately show ?thesis using inv by (simp add: fs_inv_def map_ok_def)
qed

lemma fs_inv_drop:
  assumes inv: "fs_inv s L" and t: "L t = Some d" and no: "\<forall>q \<in> set (open_inodes s). \<forall>i. inodes s q = Some i \<longrightarrow> unat (i_sector i) \<noteq> t"
  shows "fs_inv s (L(t := None))"
proof -
  have "opened s (L(t := None)) q" if "q \<in> set (open_inodes s)" for q
    using inv no that unfolding fs_inv_def open_ok_def opened_def by fastforce
  then have "open_ok s (L(t := None))" using inv by (simp add: fs_inv_def open_ok_def)
  moreover have "layout_ok (cache_sectors (buf s)) (L(t := None))" "owned (L(t := None)) \<subseteq> owned L"
    using layout_remove(1,4)[where L = L and t = t and d = d] t inv by (auto simp: fs_inv_def)
  moreover have "map_file_ok s (L(t := None))" using inv by (simp add: fs_inv_def map_file_ok_def)
  ultimately show ?thesis using inv by (auto simp: fs_inv_def map_ok_def on_disk_def)
qed

lemma inode_close_keeps:
  assumes inv: "fs_inv s L" and p: "p \<in> set (open_inodes s)" "inodes s p = Some i" "1 < open_cnt i"
  shows "inode_close (Some p) s = Some (set_inode p (i\<lparr>open_cnt := open_cnt i - 1\<rparr>) s) \<and>
    fs_inv (set_inode p (i\<lparr>open_cnt := open_cnt i - 1\<rparr>) s) L"
proof -
  have lt: "open_cnt i < 2 ^ 31" using opened_inode[OF inv p(1)] p(2) by auto
  have "wrap32 (open_cnt i - 1) = open_cnt i - 1" by (rule wrap32_id) (use lt p(3) in auto)
  moreover have "fs_inv (set_inode p (i\<lparr>open_cnt := open_cnt i - 1\<rparr>) s) L"
    by (rule fs_inv_set_inode[OF inv p(2)]) (use lt p(3) in auto)
  ultimately show ?thesis using p by (simp add: inode_close_def Let_def)
qed

text \<open>The state after the last opener is gone and the inode is written, before its sectors are released.\<close>

lemma inode_close_last:
  assumes inv: "fs_inv s L" and p: "p \<in> set (open_inodes s)" "inodes s p = Some i" "open_cnt i = 1"
    and t: "unat (i_sector i) \<noteq> FREE_MAP_SECTOR"
  obtains c where "cache_write (sint (i_sector i)) (inode_disk_bytes (i_data i)) 0 BLOCK_SECTOR_SIZE (buf s) = Some c"
    and "fs_inv ((set_inode p (i\<lparr>open_cnt := 0\<rparr>) s)\<lparr>buf := c, open_inodes := remove1 p (open_inodes s)\<rparr>) L"
    and "\<forall>u. u \<noteq> unat (i_sector i) \<longrightarrow> cache_view c u = fs_view s u" and "cache_sectors c = cache_sectors (buf s)"
proof -
  let ?t = "unat (i_sector i)"
  have i: "L ?t = Some (i_data i)" "inode_fits (cache_sectors (buf s)) (i_data i)" "cache_ok (buf s)"
    using opened_inode[OF inv p(1)] p(2) by auto
  have lt: "?t < cache_sectors (buf s)" using inv i(1) by (auto simp: fs_inv_def layout_ok_def)
  have si: "sint (i_sector i) = int ?t" using lt cache_ok_sectors[OF i(3)] by (subst sint_unat) auto
  have dwf: "inode_disk_wf (i_data i)" using i(2) by (simp add: inode_fits_def)
  obtain c where c: "cache_write (int ?t) (inode_disk_bytes (i_data i)) 0 BLOCK_SECTOR_SIZE (buf s) = Some c" "cache_ok c"
    "cache_sectors c = cache_sectors (buf s)" "cache_view c = (fs_view s)(?t := inode_disk_bytes (i_data i))"
    using cached_disk.wr_law[OF i(3) lt, of 0 BLOCK_SECTOR_SIZE "inode_disk_bytes (i_data i)"]
      cached_disk.view_length[OF i(3) lt] length_inode_disk_bytes[OF dwf] by auto
  have "on_disk (cache_view c) L" using inv i(1) dwf by (auto simp: fs_inv_def on_disk_def c(4))
  then have "fs_inv (s\<lparr>buf := c\<rparr>) L"
    using inv c(2,3) by (simp add: fs_inv_def map_ok_def open_ok_def opened_def map_file_ok_def split: option.splits)
  from fs_inv_unlink[OF this, of p i] p(2) t
  have u: "fs_inv (s\<lparr>buf := c, open_inodes := remove1 p (open_inodes s)\<rparr>) L" by simp
  have "p \<notin> set (remove1 p (open_inodes s))" using inv by (simp add: fs_inv_def open_ok_def)
  moreover have "(set_inode p (i\<lparr>open_cnt := 0\<rparr>) s)\<lparr>buf := c, open_inodes := remove1 p (open_inodes s)\<rparr> =
      s\<lparr>buf := c, open_inodes := remove1 p (open_inodes s), inodes := (inodes s)(p := Some (i\<lparr>open_cnt := 0\<rparr>))\<rparr>"
    by (simp add: set_inode_def)
  ultimately have "fs_inv ((set_inode p (i\<lparr>open_cnt := 0\<rparr>) s)\<lparr>buf := c, open_inodes := remove1 p (open_inodes s)\<rparr>) L"
    using fs_inv_forget[OF u, of p "Some (i\<lparr>open_cnt := 0\<rparr>)"] by simp
  then show thesis using c si by (intro that[of c]) auto
qed

lemma inode_close_unremoved:
  assumes inv: "fs_inv s L" and p: "p \<in> set (open_inodes s)" "inodes s p = Some i" "open_cnt i = 1"
    and t: "unat (i_sector i) \<noteq> FREE_MAP_SECTOR" and r: "\<not> removed i"
  shows "\<exists>s'. inode_close (Some p) s = Some s' \<and> fs_inv s' L \<and> p \<notin> set (open_inodes s') \<and>
    (\<forall>u. u \<noteq> unat (i_sector i) \<longrightarrow> fs_view s' u = fs_view s u)"
proof -
  obtain c where c: "cache_write (sint (i_sector i)) (inode_disk_bytes (i_data i)) 0 BLOCK_SECTOR_SIZE (buf s) = Some c"
    "fs_inv ((set_inode p (i\<lparr>open_cnt := 0\<rparr>) s)\<lparr>buf := c, open_inodes := remove1 p (open_inodes s)\<rparr>) L"
    "\<forall>u. u \<noteq> unat (i_sector i) \<longrightarrow> cache_view c u = fs_view s u" "cache_sectors c = cache_sectors (buf s)"
    by (rule inode_close_last[OF inv p t])
  define s1 where "s1 = (set_inode p (i\<lparr>open_cnt := 0\<rparr>) s)\<lparr>buf := c, open_inodes := remove1 p (open_inodes s)\<rparr>"
  have nin: "p \<notin> set (open_inodes s1)" using inv by (simp add: s1_def fs_inv_def open_ok_def)
  have "inode_close (Some p) s = Some (s1\<lparr>inodes := (inodes s1)(p := None)\<rparr>)"
    using p c(1) r by (simp add: inode_close_def Let_def s1_def set_inode_def)
  moreover have "fs_inv (s1\<lparr>inodes := (inodes s1)(p := None)\<rparr>) L" by (rule fs_inv_forget[OF c(2)[folded s1_def] nin])
  ultimately show ?thesis using c(3) nin by (auto simp: s1_def)
qed

lemma inode_close_removed:
  assumes inv: "fs_inv s L" and p: "p \<in> set (open_inodes s)" "inodes s p = Some i" "open_cnt i = 1"
    and t: "unat (i_sector i) \<noteq> FREE_MAP_SECTOR" and r: "removed i" and fp: "free_map_file s = Some fp"
  defines "t \<equiv> unat (i_sector i)"
  shows "\<exists>s'. inode_close (Some p) s = Some s' \<and> fs_inv s' (L(t := None)) \<and> p \<notin> set (open_inodes s') \<and>
    (\<forall>q. q \<noteq> p \<longrightarrow> inodes s' q = inodes s q \<and> (q \<in> set (open_inodes s') \<longleftrightarrow> q \<in> set (open_inodes s))) \<and>
    (\<forall>j < bit_cnt (free_map s). bit_at (free_map s') j = (bit_at (free_map s) j \<and> j \<notin> insert t (data_sectors (i_data i)))) \<and>
    (\<forall>u. u \<noteq> t \<longrightarrow> u \<notin> map_sectors L \<longrightarrow> fs_view s' u = fs_view s u)"
proof -
  obtain c where c: "cache_write (sint (i_sector i)) (inode_disk_bytes (i_data i)) 0 BLOCK_SECTOR_SIZE (buf s) = Some c"
    "fs_inv ((set_inode p (i\<lparr>open_cnt := 0\<rparr>) s)\<lparr>buf := c, open_inodes := remove1 p (open_inodes s)\<rparr>) L"
    "\<forall>u. u \<noteq> unat (i_sector i) \<longrightarrow> cache_view c u = fs_view s u" "cache_sectors c = cache_sectors (buf s)"
    by (rule inode_close_last[OF inv p t])
  define s1 where "s1 = (set_inode p (i\<lparr>open_cnt := 0\<rparr>) s)\<lparr>buf := c, open_inodes := remove1 p (open_inodes s)\<rparr>"
  note inv1 = c(2)[folded s1_def]
  have s1: "free_map s1 = free_map s" "free_map_file s1 = Some fp" "open_inodes s1 = remove1 p (open_inodes s)" "fs_view s1 = cache_view c"
    using fp by (simp_all add: s1_def set_inode_def)
  have nin: "p \<notin> set (open_inodes s1)" using inv by (simp add: s1_def fs_inv_def open_ok_def)
  have Lt: "L t = Some (i_data i)" and fits: "inode_fits (cache_sectors (buf s)) (i_data i)"
    using opened_inode[OF inv p(1)] p(2) by (auto simp: t_def)
  have lay: "layout_ok (cache_sectors (buf s)) L" using inv by (simp add: fs_inv_def)
  have bits: "bit_cnt (free_map s) = cache_sectors (buf s)" "\<forall>u \<in> owned L. bit_at (free_map s) u" "cache_sectors (buf s) \<le> 2 ^ 31"
    using inv cache_ok_sectors by (auto simp: fs_inv_def map_ok_def)
  have only: "unat (i_sector j) \<noteq> t" if "q \<in> set (open_inodes s1)" "inodes s1 q = Some j" for q j
  proof
    assume "unat (i_sector j) = t"
    then have "i_sector j = i_sector i" by (simp add: t_def word_unat_eq_iff)
    moreover have "q \<noteq> p" "q \<in> set (open_inodes s)" using that(1) nin set_remove1_subset[of p] by (auto simp: s1(3))
    moreover from this have "inodes s q = Some j" using that(2) by (simp add: s1_def set_inode_def)
    ultimately show False using inv p(1,2) unfolding fs_inv_def open_ok_def inj_on_def by fastforce
  qed
  let ?L = "L(t := None)" and ?cnt = "bytes_to_sectors (id_length (i_data i))"
  have inv2: "fs_inv s1 ?L" by (rule fs_inv_drop[OF inv1 Lt]) (use only in blast)
  have ds: "data_sectors (i_data i) = {unat (id_start (i_data i)) ..< unat (id_start (i_data i)) + ?cnt}"
    using fits by (simp add: data_sectors_def bytes_to_sectors_eq inode_fits_def)
  have o: "t < bit_cnt (free_map s)" "t \<in> owned L" "data_sectors (i_data i) \<subseteq> owned L" "\<forall>u \<in> data_sectors (i_data i). u < bit_cnt (free_map s)"
    using Lt lay fits unfolding bits(1) layout_ok_def owned_def by (auto simp: ran_def dest: inode_fits_sectors)
  have td: "t \<notin> data_sectors (i_data i)" using Lt lay unfolding layout_ok_def by blast
  note lr = layout_remove[OF lay Lt]
  obtain s2 where s2: "free_map_release t 1 s1 = Some s2" "fs_inv s2 ?L" "map_frame ?L s1 s2"
    "\<forall>j < bit_cnt (free_map s). bit_at (free_map s2) j = (bit_at (free_map s) j \<and> j \<noteq> t)"
    using free_map_release_spec[OF inv2 s1(2), of t 1] o lr(2) bits(2) unfolding s1(1) by (auto simp: le_less_Suc_eq)
  have c2: "bit_cnt (free_map s2) = bit_cnt (free_map s)" "free_map_file s2 = Some fp" "open_inodes s2 = open_inodes s1"
    using s2(2,3) bits(1) c(4) s1(2) by (simp_all add: fs_inv_def map_ok_def map_frame_def s1_def set_inode_def)
  have le: "unat (id_start (i_data i)) + ?cnt \<le> bit_cnt (free_map s2)"
    using fits by (simp add: c2(1) bits(1) inode_fits_def bytes_to_sectors_eq)
  have marked: "\<forall>j \<in> {unat (id_start (i_data i)) ..< unat (id_start (i_data i)) + ?cnt}. bit_at (free_map s2) j"
    unfolding ds[symmetric]
  proof
    fix j assume j: "j \<in> data_sectors (i_data i)"
    then have "bit_at (free_map s) j" "j \<noteq> t" "j < bit_cnt (free_map s)" using o(3,4) td bits(2) by auto
    then show "bit_at (free_map s2) j" using s2(4) by simp
  qed
  obtain s3 where s3: "free_map_release (unat (id_start (i_data i))) ?cnt s2 = Some s3" "fs_inv s3 ?L" "map_frame ?L s2 s3"
    "\<forall>j < bit_cnt (free_map s). bit_at (free_map s3) j = (bit_at (free_map s2) j \<and> j \<notin> data_sectors (i_data i))"
    using free_map_release_spec[OF s2(2) c2(2) le marked] lr(3) unfolding ds[symmetric] c2(1) by auto
  have "inode_close (Some p) s = Some (s3\<lparr>inodes := (inodes s3)(p := None)\<rparr>)"
    using p c(1) r s2(1) s3(1) by (simp add: inode_close_def Let_def s1_def set_inode_def t_def)
  moreover have "p \<notin> set (open_inodes s3)" using nin s3(3) c2(3) by (simp add: map_frame_def)
  moreover from this have "fs_inv (s3\<lparr>inodes := (inodes s3)(p := None)\<rparr>) ?L" by (rule fs_inv_forget[OF s3(2)])
  moreover have "map_sectors ?L = map_sectors L" using t by (simp add: map_sectors_def t_def)
  then have "fs_view s3 u = fs_view s u" if "u \<noteq> t" "u \<notin> map_sectors L" for u
    using that c(3) s2(3) s3(3) s1(4) by (simp add: map_frame_def t_def)
  moreover have "inodes s3 q = inodes s q \<and> (q \<in> set (open_inodes s3) \<longleftrightarrow> q \<in> set (open_inodes s))" if "q \<noteq> p" for q
    using that s2(3) s3(3) s1(3) by (simp add: map_frame_def s1_def set_inode_def)
  ultimately show ?thesis using s2(4) s3(4) by auto
qed

end
