(* ===== verification/Pintos_Directory.thy ===== *)
theory Pintos_Directory
  imports Pintos_File_Inv Pintos_Path
begin

section \<open>Directories (filesys/directory.c)\<close>

text \<open>
  A directory is a file of entries of 24 bytes: the sector of the inode, the name, the two flags and a byte
  of padding. The variable \<open>e\<close> of the code is such a block of bytes; what it holds before the first read
  is an argument.
\<close>

definition NAME_MAX :: nat where "NAME_MAX = 16"

definition ENTRY_SIZE :: nat where "ENTRY_SIZE = 24"

definition de_sector :: "u8 list \<Rightarrow> u32" where "de_sector e = get32 e 0"
definition de_name :: "u8 list \<Rightarrow> u8 list" where "de_name e = take (NAME_MAX + 1) (drop 4 e)"
definition de_is_directory :: "u8 list \<Rightarrow> bool" where "de_is_directory e = (e ! 21 \<noteq> 0)"
definition de_in_use :: "u8 list \<Rightarrow> bool" where "de_in_use e = (e ! 22 \<noteq> 0)"

subsection \<open>Opening and closing\<close>

definition dir_create :: "u32 \<Rightarrow> nat \<Rightarrow> u32 \<Rightarrow> fs \<Rightarrow> (fs \<times> bool) option" where
  "dir_create sector entry_count parent s = inode_create sector (wrap32 (int (entry_count * ENTRY_SIZE))) parent s"

definition dir_open :: "nat option \<Rightarrow> fs \<Rightarrow> (fs \<times> nat option) option" where
  "dir_open ip s = (case ip of
     Some p \<Rightarrow>
       if malloc_fails (buf s) then do { s \<leftarrow> inode_close (Some p) s; Some (s, None) }
       else do {
         sector \<leftarrow> inode_get_inumber p s;
         (s, q) \<leftarrow> inode_open sector s;
         Some (s\<lparr>dirs := (dirs s)(fresh s \<mapsto> \<lparr>d_inode = q, d_pos = 0\<rparr>), fresh := fresh s + 1\<rparr>, Some (fresh s))
       }
   | None \<Rightarrow> Some (s, None))"

definition dir_init :: "fs \<Rightarrow> fs option" where
  "dir_init s = do {
     (s, ip) \<leftarrow> inode_open (word_of_nat ROOT_DIR_SECTOR) s;
     (s, d) \<leftarrow> dir_open ip s;
     Some (s\<lparr>root_dir := d\<rparr>)
   }"

definition dir_open_root :: "fs \<Rightarrow> (fs \<times> nat option) option" where
  "dir_open_root s = do {
     (s, ip) \<leftarrow> inode_open (word_of_nat ROOT_DIR_SECTOR) s;
     dir_open ip s
   }"

definition dir_reopen :: "nat \<Rightarrow> fs \<Rightarrow> (fs \<times> nat option) option" where
  "dir_reopen dp s = do {
     d \<leftarrow> dirs s dp;
     (s, ip) \<leftarrow> inode_reopen (d_inode d) s;
     dir_open ip s
   }"

text \<open>\<open>dir_close\<close> passes the address of the field \<open>dir->inode\<close>, not its value, to \<open>inode_close\<close>: what is decremented
  and compared with zero is the word of memory 12 bytes behind the start of the directory, \<open>stale\<close>. When it
  becomes zero the memory of the directory is taken for an inode, which has no defined effect.\<close>

definition dir_close :: "int \<Rightarrow> nat option \<Rightarrow> fs \<Rightarrow> fs option" where
  "dir_close stale dp s = (case dp of
     None \<Rightarrow> Some s
   | Some p \<Rightarrow> do {
       ASSERT (dirs s p \<noteq> None);
       ASSERT (wrap32 (stale - 1) \<noteq> 0);
       Some (s\<lparr>dirs := (dirs s)(p := None)\<rparr>)
     })"

definition dir_get_inode :: "nat option \<Rightarrow> fs \<Rightarrow> nat option option" where
  "dir_get_inode dp s = do { p \<leftarrow> dp; d \<leftarrow> dirs s p; Some (d_inode d) }"

subsection \<open>Entries\<close>

definition read_entry :: "nat \<Rightarrow> int \<Rightarrow> u8 list \<Rightarrow> fs \<Rightarrow> (fs \<times> u8 list \<times> bool) option" where
  "read_entry p ofs e s = do {
     (s, bs) \<leftarrow> inode_read_at p (int ENTRY_SIZE) ofs s;
     Some (s, bs @ drop (length bs) e, length bs = ENTRY_SIZE)
   }"

definition entry_matches :: "u8 list \<Rightarrow> u8 list \<Rightarrow> bool option" where
  "entry_matches name e =
     (if de_in_use e then do { c \<leftarrow> strcmp name (de_name e); Some (c = 0) } else Some False)"

partial_function (option) lookup_loop ::
  "nat \<Rightarrow> u8 list \<Rightarrow> nat \<Rightarrow> u8 list \<Rightarrow> fs \<Rightarrow> (fs \<times> (u8 list \<times> nat) option) option" where
  "lookup_loop p name ofs e s = do {
     (s, e, full) \<leftarrow> read_entry p (wrap32 (int ofs)) e s;
     if full then do {
       m \<leftarrow> entry_matches name e;
       if m then Some (s, Some (e, ofs)) else lookup_loop p name (size_add ofs ENTRY_SIZE) e s
     } else Some (s, None)
   }"

definition lookup :: "u8 list \<Rightarrow> nat option \<Rightarrow> u8 list \<Rightarrow> fs \<Rightarrow> (fs \<times> (u8 list \<times> nat) option) option" where
  "lookup junk dp name s = do {
     dp \<leftarrow> dp;
     d \<leftarrow> dirs s dp;
     p \<leftarrow> d_inode d;
     lookup_loop p name 0 junk s
   }"

definition dir_lookup :: "u8 list \<Rightarrow> nat option \<Rightarrow> u8 list \<Rightarrow> fs \<Rightarrow> (fs \<times> nat option) option" where
  "dir_lookup junk dp name s = do {
     (s, r) \<leftarrow> lookup junk dp name s;
     case r of
       Some (e, _) \<Rightarrow> inode_open (de_sector e) s
     | None \<Rightarrow> Some (s, None)
   }"

partial_function (option) free_slot_loop :: "nat \<Rightarrow> int \<Rightarrow> u8 list \<Rightarrow> fs \<Rightarrow> (fs \<times> u8 list \<times> int) option" where
  "free_slot_loop p ofs e s = do {
     (s, e, full) \<leftarrow> read_entry p ofs e s;
     if full \<and> de_in_use e then free_slot_loop p (wrap32 (ofs + int ENTRY_SIZE)) e s
     else Some (s, e, ofs)
   }"

text \<open>The entry that \<open>dir_add\<close> stores, in the memory of the entry read last.\<close>

definition fill_entry :: "u8 list \<Rightarrow> u8 list \<Rightarrow> u32 \<Rightarrow> bool \<Rightarrow> u8 list option" where
  "fill_entry e name inode_sector is_dir = do {
     let e = e[22 := 1];
     let e = e[21 := (if is_dir then 1 else 0)];
     (n, _) \<leftarrow> strlcpy (de_name e) name (NAME_MAX + 1);
     Some (le32 inode_sector @ n @ drop 21 e)
   }"

definition dir_add :: "u8 list \<Rightarrow> nat option \<Rightarrow> u8 list \<Rightarrow> u32 \<Rightarrow> bool \<Rightarrow> fs \<Rightarrow> (fs \<times> bool) option" where
  "dir_add junk dp name inode_sector is_dir s = do {
     dp \<leftarrow> dp;
     d \<leftarrow> dirs s dp;
     c \<leftarrow> byte_at name 0;
     n \<leftarrow> strlen name;
     if c = 0 \<or> n > NAME_MAX then Some (s, False)
     else do {
       (s, r) \<leftarrow> lookup junk (Some dp) name s;
       if r \<noteq> None then Some (s, False)
       else do {
         p \<leftarrow> d_inode d;
         (s, e, ofs) \<leftarrow> free_slot_loop p 0 junk s;
         e \<leftarrow> fill_entry e name inode_sector is_dir;
         (s, n) \<leftarrow> inode_write_at p e (int ENTRY_SIZE) ofs s;
         Some (s, n = int ENTRY_SIZE)
       }
     }
   }"

text \<open>A file that is open elsewhere is not removed, and its inode stays open once more.\<close>

definition dir_remove :: "u8 list \<Rightarrow> nat option \<Rightarrow> u8 list \<Rightarrow> fs \<Rightarrow> (fs \<times> bool) option" where
  "dir_remove junk dp name s = do {
     (s, r) \<leftarrow> lookup junk dp name s;
     case r of
       None \<Rightarrow> Some (s, False)
     | Some (e, ofs) \<Rightarrow> do {
         (s, ip) \<leftarrow> inode_open (de_sector e) s;
         case ip of
           None \<Rightarrow> Some (s, False)
         | Some q \<Rightarrow> do {
             cnt \<leftarrow> inode_open_cnt q s;
             if cnt > 1 then Some (s, False)
             else do {
               dp \<leftarrow> dp;
               d \<leftarrow> dirs s dp;
               p \<leftarrow> d_inode d;
               (s, n) \<leftarrow> inode_write_at p (e[22 := 0]) (int ENTRY_SIZE) (wrap32 (int ofs)) s;
               if n \<noteq> int ENTRY_SIZE then do { s \<leftarrow> inode_close (Some q) s; Some (s, False) }
               else do {
                 s \<leftarrow> inode_remove (Some q) s;
                 s \<leftarrow> inode_close (Some q) s;
                 Some (s, True)
               }
             }
           }
       }
   }"

partial_function (option) readdir_loop :: "nat \<Rightarrow> nat \<Rightarrow> u8 list \<Rightarrow> fs \<Rightarrow> (fs \<times> u8 list option) option" where
  "readdir_loop dp p e s = do {
     d \<leftarrow> dirs s dp;
     (s, e, full) \<leftarrow> read_entry p (d_pos d) e s;
     if full then do {
       let s = s\<lparr>dirs := (dirs s)(dp \<mapsto> d\<lparr>d_pos := wrap32 (d_pos d + int ENTRY_SIZE)\<rparr>)\<rparr>;
       if de_in_use e then Some (s, Some e) else readdir_loop dp p e s
     } else Some (s, None)
   }"

definition dir_readdir :: "u8 list \<Rightarrow> nat \<Rightarrow> u8 list \<Rightarrow> fs \<Rightarrow> (fs \<times> u8 list \<times> bool) option" where
  "dir_readdir junk dp name s = do {
     d \<leftarrow> dirs s dp;
     p \<leftarrow> d_inode d;
     (s, r) \<leftarrow> readdir_loop dp p junk s;
     case r of
       Some e \<Rightarrow> do { (name, _) \<leftarrow> strlcpy name (de_name e) (NAME_MAX + 1); Some (s, name, True) }
     | None \<Rightarrow> Some (s, name, False)
   }"

subsection \<open>Paths\<close>

definition dir_parent :: "nat option \<Rightarrow> fs \<Rightarrow> (fs \<times> nat option) option" where
  "dir_parent dp s =
     (if dp = root_dir s then Some (s, root_dir s)
      else do {
        p \<leftarrow> dp;
        d \<leftarrow> dirs s p;
        i \<leftarrow> d_inode d;
        (s, ip) \<leftarrow> inode_parent i s;
        dir_open ip s
      })"

definition dir_parent_from_inode :: "nat \<Rightarrow> fs \<Rightarrow> (fs \<times> nat option) option" where
  "dir_parent_from_inode p s = do { (s, ip) \<leftarrow> inode_parent p s; dir_open ip s }"

text \<open>\<open>free (old_dir)\<close>: the directory object goes, its inode stays open.\<close>

definition free_dir :: "nat option \<Rightarrow> fs \<Rightarrow> fs" where
  "free_dir dp s = (case dp of None \<Rightarrow> s | Some p \<Rightarrow> s\<lparr>dirs := (dirs s)(p := None)\<rparr>)"

text \<open>The loop gives back the inode and what it stores into \<open>*is_dir\<close>, if anything.\<close>

partial_function (option) walk_path :: "u8 list \<Rightarrow> u8 list \<Rightarrow> nat option \<Rightarrow> u8 list \<Rightarrow> nat \<Rightarrow> fs \<Rightarrow>
    (fs \<times> nat option \<times> bool option) option" where
  "walk_path junk path current_dir entry_name offset s = do {
     c \<leftarrow> byte_at path offset;
     if c \<noteq> 0 then do {
       (entry_name, offset) \<leftarrow> path_next_entry (drop offset path) entry_name (NAME_MAX + 1) offset;
       c \<leftarrow> strcmp entry_name [46, 46, 0];
       if c = 0 then do {
         (s, d) \<leftarrow> dir_parent current_dir s;
         let s = (if current_dir \<noteq> root_dir s then free_dir current_dir s else s);
         walk_path junk path d entry_name offset s
       }
       else do {
         (s, r) \<leftarrow> lookup junk current_dir entry_name s;
         case r of
           None \<Rightarrow> Some (s, None, None)
         | Some (e, _) \<Rightarrow>
             if de_is_directory e then do {
               (s, ip) \<leftarrow> inode_open (de_sector e) s;
               (s, d) \<leftarrow> dir_open ip s;
               walk_path junk path d entry_name offset s
             }
             else do {
               (entry_name, offset) \<leftarrow> path_next_entry (drop offset path) entry_name (NAME_MAX + 1) offset;
               c \<leftarrow> byte_at entry_name 0;
               if c = 0 then do { (s, ip) \<leftarrow> inode_open (de_sector e) s; Some (s, ip, Some False) }
               else walk_path junk path current_dir entry_name offset s
             }
       }
     }
     else do {
       ip \<leftarrow> dir_get_inode current_dir s;
       Some (s, ip, Some True)
     }
   }"

text \<open>\<open>wd\<close> is the working directory of the current process, \<open>buffer\<close> the uninitialised name buffer.\<close>

definition dir_open_from_path :: "u8 list \<Rightarrow> u8 list \<Rightarrow> nat option \<Rightarrow> u8 list \<Rightarrow> fs \<Rightarrow> (fs \<times> nat option \<times> bool option) option" where
  "dir_open_from_path junk buffer wd path s = do {
     r \<leftarrow> strcmp path [47, 0];
     if r = 0 then do { ip \<leftarrow> dir_get_inode (root_dir s) s; Some (s, ip, Some True) }
     else do {
       r \<leftarrow> strcmp path [46, 0];
       if r = 0 then do { ip \<leftarrow> dir_get_inode wd s; Some (s, ip, Some True) }
       else do {
         rel \<leftarrow> path_is_relative path;
         walk_path junk path (if rel then wd else root_dir s) buffer 0 s
       }
     }
   }"

end
