(* ===== verification/Pintos_File_Props.thy ===== *)
theory Pintos_File_Props
  imports Pintos_File_Inv
begin

section \<open>Properties of inodes and files\<close>

lemma contents_frame:
  assumes "layout_ok n L" and "L u = Some e" and "L t = Some d" and "u \<noteq> t"
    and "\<forall>x. x \<notin> data_sectors d \<longrightarrow> fs_view s' x = fs_view s x"
  shows "contents s' L u = contents s L u"
  by (rule contents_cong[where L = L and t = u and d = e, OF assms(2)]) (use assms(5) layout_disjoint(1)[OF assms(1,3,2)] assms(4) in auto)

text \<open>C2. A write stays inside its file. For an open inode that does not deny writes, \<open>inode_write_at\<close>
  returns the number of bytes up to the end of the file, replaces exactly those bytes of the file, keeps
  the invariant of the file system, and leaves the contents of every other file as they are.\<close>

theorem inode_write_isolated:
  assumes "fs_inv s L" and "p \<in> set (open_inodes s)" and "inodes s p = Some i" and "deny_write_cnt i = 0"
    and "0 \<le> off" and "off < 2 ^ 31" and "nat sz \<le> length b"
  shows "\<exists>s' n. inode_write_at p b sz off s = Some (s', int n) \<and> n = min (nat sz) (nat (inode_length i) - nat off) \<and> fs_inv s' L \<and>
    contents s' L (unat (i_sector i)) = take (nat off) (contents s L (unat (i_sector i))) @ take n b @
      drop (nat off + n) (contents s L (unat (i_sector i))) \<and>
    (\<forall>u \<in> dom L. u \<noteq> unat (i_sector i) \<longrightarrow> contents s' L u = contents s L u)"
proof -
  let ?n = "min (nat sz) (nat (inode_length i) - nat off)" and ?t = "unat (i_sector i)"
  obtain c where c: "inode_write_at p b sz off s = Some (s\<lparr>buf := c\<rparr>, int ?n)" "fs_inv (s\<lparr>buf := c\<rparr>) L"
    "contents (s\<lparr>buf := c\<rparr>) L ?t = take (nat off) (contents s L ?t) @ take ?n b @ drop (nat off + ?n) (contents s L ?t)"
    "\<forall>u. u \<notin> data_sectors (i_data i) \<longrightarrow> cache_view c u = fs_view s u"
    by (rule inode_write_at_spec[OF assms])
  have L: "L ?t = Some (i_data i)" "layout_ok (cache_sectors (buf s)) L"
    by (rule open_inode_facts[OF assms(1-3)])+
  have "contents (s\<lparr>buf := c\<rparr>) L u = contents s L u" if "L u = Some e" "u \<noteq> ?t" for u e
    by (rule contents_frame[OF L(2) that(1) L(1) that(2)]) (use c(4) in simp)
  with c show ?thesis by (intro exI[of _ "s\<lparr>buf := c\<rparr>"] exI[of _ ?n]) auto
qed

text \<open>C6. What is written is read back: \<open>file_read_at\<close> after \<open>file_write_at\<close> of the same range inside the
  file returns the bytes that were written, through the buffer cache and its evictions.\<close>

theorem file_write_read:
  assumes "fs_inv s L" and "files s fp = Some f" and "f_inode f \<in> set (open_inodes s)" and "inodes s (f_inode f) = Some i"
    and "deny_write_cnt i = 0" and "0 \<le> off" and "off + int (length b) \<le> inode_length i"
  shows "\<exists>s1 s2. file_write_at fp b (int (length b)) off s = Some (s1, int (length b)) \<and>
    file_read_at fp (int (length b)) off s1 = Some (s2, b)"
proof -
  have len: "inode_length i < 2 ^ 31" "0 \<le> inode_length i"
    using open_inode_facts(2)[OF assms(1,3,4)] by (auto simp: inode_fits_def inode_length_def)
  have le: "off < 2 ^ 31" "nat (int (length b)) \<le> length b"
    using assms(7) len by (auto)
  let ?t = "unat (i_sector i)" and ?k = "nat off"
  have n: "min (nat (int (length b))) (nat (inode_length i) - ?k) = length b" using assms(6,7) by auto
  have lc: "length (contents s L ?t) = nat (inode_length i)"
    using open_inode_facts(1)[OF assms(1,3,4)] by (simp add: contents_def inode_length_def)
  obtain c where c: "inode_write_at (f_inode f) b (int (length b)) off s = Some (s\<lparr>buf := c\<rparr>, int (length b))"
    "fs_inv (s\<lparr>buf := c\<rparr>) L"
    "contents (s\<lparr>buf := c\<rparr>) L ?t = take ?k (contents s L ?t) @ take (length b) b @ drop (?k + length b) (contents s L ?t)"
    by (rule inode_write_at_spec[OF assms(1,3-6) le, unfolded n])
  have p: "f_inode f \<in> set (open_inodes (s\<lparr>buf := c\<rparr>))" "inodes (s\<lparr>buf := c\<rparr>) (f_inode f) = Some i" using assms(3,4) by simp_all
  obtain c2 where "inode_read_at (f_inode f) (int (length b)) off (s\<lparr>buf := c\<rparr>) =
      Some ((s\<lparr>buf := c\<rparr>)\<lparr>buf := c2\<rparr>, take (nat (int (length b))) (drop ?k (contents (s\<lparr>buf := c\<rparr>) L ?t)))"
    by (rule inode_read_at_spec[OF c(2) p assms(6) le(1)])
  moreover have "take (length b) (drop ?k (contents (s\<lparr>buf := c\<rparr>) L ?t)) = b"
    unfolding c(3) using lc assms(6,7) by simp
  ultimately show ?thesis using c(1) assms(2) by (simp add: file_write_at_def file_read_at_def)
qed

text \<open>C7. \<open>inode_create\<close> on a sector that is allocated and not in use either fails and leaves every file
  alone, or makes a new file of zeros of the given length in sectors that no other file uses. The sizes
  for which the rounding in \<open>bytes_to_sectors\<close> overflows are among the failures.\<close>

theorem inode_create_new_file:
  assumes "fs_inv s L" and "unat sec < cache_sectors (buf s)" and "unat sec \<notin> owned L" and "bit_at (free_map s) (unat sec)"
    and "0 \<le> len" and "len < 2 ^ 31"
  shows "\<exists>s' ok L'. inode_create sec len par s = Some (s', ok) \<and> fs_inv s' L' \<and>
    (if ok then \<exists>d. L' = L(unat sec \<mapsto> d) \<and> id_length d = len \<and> parent_dir_inode d = par \<and>
           contents s' L' (unat sec) = replicate (nat len) 0
     else L' = L) \<and>
    (\<forall>u \<in> dom L. u \<noteq> FREE_MAP_SECTOR \<longrightarrow> contents s' L' u = contents s L u)"
proof -
  have lay: "layout_ok (cache_sectors (buf s)) L" using assms(1) by (simp add: fs_inv_def)
  have frame: "contents s' L u = contents s L u"
    if u: "u \<in> dom L" "u \<noteq> FREE_MAP_SECTOR" "\<forall>x \<in> owned L. x \<notin> map_sectors L \<longrightarrow> fs_view s' x = fs_view s x" for s' u
  proof -
    obtain d where d: "L u = Some d" using u(1) by (auto simp: dom_def)
    have "data_sectors d \<inter> map_sectors L = {}" by (rule map_sectors_owned[OF lay d u(2)])
    moreover have "data_sectors d \<subseteq> owned L" using d by (auto simp: owned_def ran_def)
    ultimately show ?thesis using u(3) by (intro contents_cong[where L = L and t = u and d = d, OF d]) auto
  qed
  from inode_create_spec[OF assms, of par] show ?thesis
  proof (elim disjE exE conjE)
    fix s' assume s': "inode_create sec len par s = Some (s', False)" "fs_inv s' L" "map_frame L s s'"
    have "contents s' L u = contents s L u" if "u \<in> dom L" "u \<noteq> FREE_MAP_SECTOR" for u
      by (rule frame[OF that]) (use s'(3) in \<open>simp add: map_frame_def\<close>)
    with s' show ?thesis by (intro exI[of _ s'] exI[of _ False] exI[of _ L]) simp
  next
    fix s' d assume s': "inode_create sec len par s = Some (s', True)" "id_length d = len" "parent_dir_inode d = par"
      "fs_inv s' (L(unat sec \<mapsto> d))" "contents s' (L(unat sec \<mapsto> d)) (unat sec) = replicate (nat len) 0"
      "\<forall>u \<in> owned L. u \<notin> map_sectors L \<longrightarrow> fs_view s' u = fs_view s u"
    have "contents s' (L(unat sec \<mapsto> d)) u = contents s L u" if "u \<in> dom L" "u \<noteq> FREE_MAP_SECTOR" for u
      using frame[OF that s'(6)] that(1) assms(3) by (auto simp: contents_def owned_def)
    with s' show ?thesis by (intro exI[of _ s'] exI[of _ True] exI[of _ "L(unat sec \<mapsto> d)"]) auto
  qed
qed

text \<open>C8. When the last opener of a removed inode closes it, exactly the sector of the inode and the sectors
  of its data become free; the file is gone and the contents of every other file stay.\<close>

theorem inode_close_frees:
  assumes "fs_inv s L" and "p \<in> set (open_inodes s)" and "inodes s p = Some i" and "open_cnt i = 1"
    and "unat (i_sector i) \<noteq> FREE_MAP_SECTOR" and "removed i" and "free_map_file s = Some fp"
  shows "\<exists>s'. inode_close (Some p) s = Some s' \<and> fs_inv s' (L(unat (i_sector i) := None)) \<and>
    (\<forall>j < bit_cnt (free_map s). bit_at (free_map s') j =
       (bit_at (free_map s) j \<and> j \<notin> insert (unat (i_sector i)) (data_sectors (i_data i)))) \<and>
    (\<forall>u \<in> dom L. u \<noteq> FREE_MAP_SECTOR \<longrightarrow> u \<noteq> unat (i_sector i) \<longrightarrow>
       contents s' (L(unat (i_sector i) := None)) u = contents s L u)"
proof -
  let ?t = "unat (i_sector i)"
  obtain s' where s': "inode_close (Some p) s = Some s'" "fs_inv s' (L(?t := None))"
    "\<forall>j < bit_cnt (free_map s). bit_at (free_map s') j = (bit_at (free_map s) j \<and> j \<notin> insert ?t (data_sectors (i_data i)))"
    "\<forall>u. u \<noteq> ?t \<longrightarrow> u \<notin> map_sectors L \<longrightarrow> fs_view s' u = fs_view s u"
    using inode_close_removed[OF assms] by blast
  note Lt = open_inode_facts(1)[OF assms(1-3)] and lay = open_inode_facts(5)[OF assms(1-3)]
  have "contents s' (L(?t := None)) u = contents s L u" if "L u = Some d" "u \<noteq> FREE_MAP_SECTOR" "u \<noteq> ?t" for u d
  proof -
    have "data_sectors d \<inter> map_sectors L = {}" by (rule map_sectors_owned[OF lay that(1,2)])
    moreover have "?t \<notin> data_sectors d" by (rule layout_disjoint(2)[OF lay that(1) Lt that(3)])
    ultimately have "x \<noteq> ?t \<and> x \<notin> map_sectors L" if "x \<in> data_sectors d" for x using that by auto
    then have "contents s' L u = contents s L u"
      by (intro contents_cong[where L = L and t = u and d = d, OF that(1)]) (simp add: s'(4))
    then show ?thesis using that(3) by (simp add: contents_def)
  qed
  then have "\<forall>u \<in> dom L. u \<noteq> FREE_MAP_SECTOR \<longrightarrow> u \<noteq> ?t \<longrightarrow> contents s' (L(?t := None)) u = contents s L u" by auto
  with s'(1-3) show ?thesis by (intro exI[of _ s'] conjI)
qed

subsection \<open>A small file system\<close>

definition ex_inode :: inode_disk where
  "ex_inode = \<lparr>id_start = 2, id_length = 600, id_unused = replicate 496 0, parent_dir_inode = 1, id_magic = INODE_MAGIC\<rparr>"

definition ex_map_inode :: inode_disk where
  "ex_map_inode = \<lparr>id_start = 4, id_length = 4, id_unused = replicate 496 0, parent_dir_inode = 0, id_magic = INODE_MAGIC\<rparr>"

definition ex_layout :: layout where
  "ex_layout = [0 \<mapsto> ex_map_inode, 1 \<mapsto> ex_inode]"

definition ex_fs_disk :: block where
  "ex_fs_disk = \<lparr>b_name = [0x68, 0x64, 0x61, 0], b_type = BLOCK_FILESYS, b_size = 32,
     b_data = (\<lambda>s. if s = 0 then inode_disk_bytes ex_map_inode else if s = 1 then inode_disk_bytes ex_inode
                   else replicate BLOCK_SECTOR_SIZE 0), read_cnt = 0, write_cnt = 0\<rparr>"

definition ex_fs :: "bool \<Rightarrow> fs" where
  "ex_fs r = \<lparr>buf = cache_init ex_fs_disk,
     inodes = [0 \<mapsto> \<lparr>i_sector = 1, open_cnt = 1, removed = r, deny_write_cnt = 0, i_data = ex_inode\<rparr>,
               1 \<mapsto> \<lparr>i_sector = 0, open_cnt = 1, removed = False, deny_write_cnt = 0, i_data = ex_map_inode\<rparr>],
     open_inodes = [0, 1], files = [0 \<mapsto> \<lparr>f_inode = 0, pos = 0, f_deny_write = False\<rparr>, 1 \<mapsto> \<lparr>f_inode = 1, pos = 0, f_deny_write = False\<rparr>],
     fresh = 2, free_map = \<lparr>bit_cnt = 32, bits = [63]\<rparr>, free_map_file = Some 1,
     dirs = (\<lambda>_. None), root_dir = None\<rparr>"

lemma ex_inode_wf: "inode_disk_wf ex_inode" "inode_disk_wf ex_map_inode"
  by (simp_all add: inode_disk_wf_def ex_inode_def ex_map_inode_def)

lemma ex_data_sectors: "data_sectors ex_inode = {2, 3}" "data_sectors ex_map_inode = {4}"
  by (auto simp: data_sectors_def ex_inode_def ex_map_inode_def)

lemma ex_fits: "inode_fits 32 ex_inode" "inode_fits 32 ex_map_inode"
  using ex_inode_wf by (simp_all add: inode_fits_def ex_inode_def ex_map_inode_def)

lemma ex_owned: "owned ex_layout = {0, 1, 2, 3, 4}"
  by (auto simp: owned_def ex_layout_def ran_def ex_data_sectors split: if_splits)

lemma ex_fs_inv: "fs_inv (ex_fs r) ex_layout"
proof -
  have wf: "block_wf ex_fs_disk"
    using ex_inode_wf by (auto simp: block_wf_def ex_fs_disk_def length_inode_disk_bytes)
  have c: "buf (ex_fs r) = cache_init ex_fs_disk" "cache_sectors (cache_init ex_fs_disk) = 32"
    by (simp_all add: ex_fs_def cache_init_fields ex_fs_disk_def)
  have "layout_ok 32 ex_layout"
    unfolding layout_ok_def using ex_fits by (auto simp: ex_layout_def ex_data_sectors split: if_splits)
  moreover have "on_disk (fs_view (ex_fs r)) ex_layout"
    using ex_inode_wf by (simp add: c(1) cache_init_view on_disk_def ex_layout_def ex_fs_disk_def)
  moreover have "map_ok (ex_fs r) ex_layout"
    by (simp add: map_ok_def c ex_owned) (simp add: ex_fs_def bitmap_wf_def ELEM_BITS_def bit_at_def elem_idx_def)
  moreover have "open_ok (ex_fs r) ex_layout" "map_file_ok (ex_fs r) ex_layout"
    by (auto simp: open_ok_def opened_def map_file_ok_def ex_fs_def ex_layout_def FREE_MAP_SECTOR_def)
  ultimately show ?thesis using cache_init_ok[OF wf] by (simp add: fs_inv_def c)
qed

theorem inode_write_isolated_witness:
  "\<exists>s' n. inode_write_at 0 [1, 2, 3] 3 599 (ex_fs False) = Some (s', int n) \<and> n = 1"
  using inode_write_isolated[OF ex_fs_inv[of False], of 0 "the (inodes (ex_fs False) 0)" 599 3 "[1, 2, 3]"]
  by (auto simp: ex_fs_def inode_length_def ex_inode_def)

theorem file_write_read_witness:
  "\<exists>s1 s2. file_write_at 0 [1, 2, 3] 3 510 (ex_fs False) = Some (s1, 3) \<and> file_read_at 0 3 510 s1 = Some (s2, [1, 2, 3])"
  using file_write_read[OF ex_fs_inv[of False], of 0 "the (files (ex_fs False) 0)" "the (inodes (ex_fs False) 0)" 510 "[1, 2, 3]"]
  by (simp add: ex_fs_def inode_length_def ex_inode_def)

theorem inode_create_new_file_witness:
  "\<exists>s' ok L'. inode_create 5 1000 1 (ex_fs False) = Some (s', ok) \<and> fs_inv s' L'"
  using inode_create_new_file[OF ex_fs_inv[of False], of 5 1000 1]
  by (auto simp: ex_owned ex_fs_def cache_init_fields ex_fs_disk_def bit_at_def elem_idx_def ELEM_BITS_def)

theorem inode_close_frees_witness:
  "\<exists>s'. inode_close (Some 0) (ex_fs True) = Some s' \<and> \<not> bit_at (free_map s') 1 \<and> \<not> bit_at (free_map s') 2 \<and> bit_at (free_map s') 4"
  using inode_close_frees[OF ex_fs_inv[of True], of 0 "the (inodes (ex_fs True) 0)" 1]
  by (auto simp: ex_fs_def FREE_MAP_SECTOR_def ex_data_sectors bit_at_def elem_idx_def ELEM_BITS_def)

end
