(* ===== verification/Pintos_Directory_Props.thy ===== *)
theory Pintos_Directory_Props
  imports Pintos_Directory Pintos_File_Props
begin

section \<open>Directories as finite maps\<close>

definition entry_count :: "u8 list \<Rightarrow> nat" where "entry_count bs = length bs div ENTRY_SIZE"

text \<open>The offset of an entry.\<close>

definition entry_ofs :: "nat \<Rightarrow> nat" where "entry_ofs k = ENTRY_SIZE * k"

lemma entry_ofs_Suc: "entry_ofs (Suc k) = entry_ofs k + ENTRY_SIZE"
  by (simp add: entry_ofs_def)

definition entry :: "u8 list \<Rightarrow> nat \<Rightarrow> u8 list" where
  "entry bs k = take ENTRY_SIZE (drop (entry_ofs k) bs)"

definition cname :: "u8 list \<Rightarrow> u8 list" where
  "cname e = takeWhile (\<lambda>c. c \<noteq> 0) (de_name e)"

definition holds :: "u8 list \<Rightarrow> u8 list \<Rightarrow> nat \<Rightarrow> bool" where
  "holds bs nm k \<longleftrightarrow> de_in_use (entry bs k) \<and> cname (entry bs k) = nm"

text \<open>The names of entries in use are terminated and different.\<close>

definition dir_wf :: "u8 list \<Rightarrow> bool" where
  "dir_wf bs \<longleftrightarrow> (\<forall>k < entry_count bs. de_in_use (entry bs k) \<longrightarrow> 0 \<in> set (de_name (entry bs k))) \<and>
     (\<forall>j < entry_count bs. \<forall>k < entry_count bs. \<forall>nm. holds bs nm j \<longrightarrow> holds bs nm k \<longrightarrow> j = k)"

text \<open>The map from names to sectors and flags that the bytes of a directory stand for.\<close>

definition dir_map :: "u8 list \<Rightarrow> u8 list \<Rightarrow> (u32 \<times> bool) option" where
  "dir_map bs nm = map_option (\<lambda>k. (de_sector (entry bs k), de_is_directory (entry bs k)))
     (find (holds bs nm) [0 ..< entry_count bs])"

lemma dir_map_Some:
  assumes "dir_wf bs" and "k < entry_count bs" and "holds bs nm k"
  shows "dir_map bs nm = Some (de_sector (entry bs k), de_is_directory (entry bs k))"
proof -
  have "find (holds bs nm) [0 ..< entry_count bs] = Some k"
    by (rule find_unique[where P = "holds bs nm", OF assms(3,2)]) (use assms in \<open>auto simp: dir_wf_def\<close>)
  then show ?thesis by (simp add: dir_map_def)
qed

lemma dir_map_None: "dir_map bs nm = None \<longleftrightarrow> (\<forall>k < entry_count bs. \<not> holds bs nm k)"
  by (auto simp: dir_map_def find_None_iff)

lemma entry_length: "k < entry_count bs \<Longrightarrow> length (entry bs k) = ENTRY_SIZE"
proof -
  assume "k < entry_count bs"
  then have "24 * k + 24 \<le> length bs" by (simp add: entry_count_def ENTRY_SIZE_def)
  then show ?thesis by (simp add: entry_def entry_ofs_def ENTRY_SIZE_def)
qed

lemma entry_full_iff: "length (entry bs k) = ENTRY_SIZE \<longleftrightarrow> k < entry_count bs"
proof
  assume "length (entry bs k) = ENTRY_SIZE"
  then have "24 * k + 24 \<le> length bs" by (simp add: entry_def entry_ofs_def ENTRY_SIZE_def)
  then show "k < entry_count bs" by (simp add: entry_count_def ENTRY_SIZE_def)
qed (rule entry_length)

subsection \<open>Searching\<close>

lemma lex_same: "\<not> (a :: u8 list) < b \<Longrightarrow> \<not> b < a \<Longrightarrow> a = b"
  by (rule antisym) (simp_all add: not_less)

lemma entry_matches_eq:
  assumes "is_cstr name nm" and "de_in_use e \<longrightarrow> 0 \<in> set (de_name e)"
  shows "entry_matches name e = Some (de_in_use e \<and> cname e = nm)"
proof (cases "de_in_use e")
  case True
  then obtain rest where d: "de_name e = cname e @ 0 # rest"
    using assms(2) unfolding cname_def by (metis (mono_tags, lifting) dropWhile_eq_Cons_conv list.exhaust takeWhile_dropWhile_id takeWhile_eq_all_conv dropWhile_eq_Nil_conv)
  obtain r where n: "name = nm @ 0 # r" "0 \<notin> set nm" using assms(1) by (auto simp: is_cstr_def)
  have c: "chars nm = nm" "chars (cname e) = cname e" using n(2) by (auto simp: chars_def cname_def takeWhile_eq_all_conv dest: set_takeWhileD)
  have "strcmp name (de_name e) = Some (if nm < cname e then - 1 else if cname e < nm then 1 else 0)"
    unfolding n(1) d by (rule strcmp_lex[of nm r "cname e" rest, unfolded c])
  then show ?thesis using True lex_same[of nm "cname e"] by (auto simp: entry_matches_def)
qed (simp add: entry_matches_def)

text \<open>An open inode whose file is a directory.\<close>

definition dir_file :: "fs \<Rightarrow> layout \<Rightarrow> nat \<Rightarrow> inode \<Rightarrow> u8 list \<Rightarrow> bool" where
  "dir_file s L p i bs \<longleftrightarrow> fs_inv s L \<and> p \<in> set (open_inodes s) \<and> inodes s p = Some i \<and>
     contents s L (unat (i_sector i)) = bs \<and> dir_wf bs"

lemma dir_file_length: "dir_file s L p i bs \<Longrightarrow> length bs = nat (inode_length i) \<and> length bs + 511 < 2 ^ 31"
  using open_inode_facts(1,2)[of s L p i]
  by (auto simp: dir_file_def contents_def inode_fits_def inode_length_def)

lemma dir_file_buf:
  assumes "dir_file s L p i bs" and "fs_inv (s\<lparr>buf := c\<rparr>) L" and "cache_view c = fs_view s"
  shows "dir_file (s\<lparr>buf := c\<rparr>) L p i bs"
  using assms by (simp add: dir_file_def contents_def)

lemma read_entry_spec:
  assumes d: "dir_file s L p i bs" and k: "entry_ofs k \<le> length bs" and e: "length e = ENTRY_SIZE"
  obtains c where "read_entry p (int (entry_ofs k)) e s =
      Some (s\<lparr>buf := c\<rparr>, entry bs k @ drop (length (entry bs k)) e, k < entry_count bs)"
    and "dir_file (s\<lparr>buf := c\<rparr>) L p i bs" and "cache_view c = fs_view s" and "fs_inv (s\<lparr>buf := c\<rparr>) L"
proof -
  have o: "0 \<le> int (entry_ofs k)" "int (entry_ofs k) < 2 ^ 31" using k dir_file_length[OF d] by auto
  have f: "fs_inv s L" "p \<in> set (open_inodes s)" "inodes s p = Some i" using d by (simp_all add: dir_file_def)
  obtain c where c: "inode_read_at p (int ENTRY_SIZE) (int (entry_ofs k)) s = Some (s\<lparr>buf := c\<rparr>,
      take (nat (int ENTRY_SIZE)) (drop (nat (int (entry_ofs k))) (contents s L (unat (i_sector i)))))"
    "fs_inv (s\<lparr>buf := c\<rparr>) L" "cache_view c = fs_view s"
    by (rule inode_read_at_spec[OF f o])
  have "take (nat (int ENTRY_SIZE)) (drop (nat (int (entry_ofs k))) (contents s L (unat (i_sector i)))) = entry bs k"
    using d by (simp add: dir_file_def entry_def)
  with c(1) have "read_entry p (int (entry_ofs k)) e s =
      Some (s\<lparr>buf := c\<rparr>, entry bs k @ drop (length (entry bs k)) e, k < entry_count bs)"
    by (simp add: read_entry_def entry_full_iff)
  then show thesis using c(2,3) dir_file_buf[OF d c(2,3)] by (intro that)
qed

lemma lookup_loop_spec:
  assumes "dir_file s L p i bs" and "is_cstr name nm" and "k \<le> entry_count bs" and "length e = ENTRY_SIZE"
  shows "\<exists>c. lookup_loop p name (entry_ofs k) e s = Some (s\<lparr>buf := c\<rparr>,
      map_option (\<lambda>j. (entry bs j, entry_ofs j)) (find (holds bs nm) [k ..< entry_count bs])) \<and>
    dir_file (s\<lparr>buf := c\<rparr>) L p i bs \<and> cache_view c = fs_view s"
  using assms
proof (induction "entry_count bs - k" arbitrary: k e s)
  case 0
  then have k: "k = entry_count bs" by simp
  have le: "entry_ofs k \<le> length bs" unfolding k entry_count_def entry_ofs_def by simp
  obtain c where c: "read_entry p (int (entry_ofs k)) e s =
      Some (s\<lparr>buf := c\<rparr>, entry bs k @ drop (length (entry bs k)) e, k < entry_count bs)"
    "dir_file (s\<lparr>buf := c\<rparr>) L p i bs" "cache_view c = fs_view s"
    by (rule read_entry_spec[OF 0(2) le 0(5)])
  have w: "wrap32 (int (entry_ofs k)) = int (entry_ofs k)" using le dir_file_length[OF 0(2)] by (subst wrap32_id) auto
  have "lookup_loop p name (entry_ofs k) e s = Some (s\<lparr>buf := c\<rparr>, None)"
    by (subst lookup_loop.simps) (simp add: w c(1) k[symmetric])
  with c k show ?case by auto
next
  case (Suc n)
  then have k: "k < entry_count bs" by simp
  have le: "entry_ofs k + ENTRY_SIZE \<le> length bs" using k by (simp add: entry_count_def entry_ofs_def ENTRY_SIZE_def)
  then have le1: "entry_ofs k \<le> length bs" by simp
  obtain c where c: "read_entry p (int (entry_ofs k)) e s =
      Some (s\<lparr>buf := c\<rparr>, entry bs k @ drop (length (entry bs k)) e, k < entry_count bs)"
    "dir_file (s\<lparr>buf := c\<rparr>) L p i bs" "cache_view c = fs_view s"
    by (rule read_entry_spec[OF Suc(3) le1 Suc(6)])
  have e: "entry bs k @ drop (length (entry bs k)) e = entry bs k" using Suc(6) entry_length[OF k] by simp
  have w: "wrap32 (int (entry_ofs k)) = int (entry_ofs k)" using le dir_file_length[OF Suc(3)] by (subst wrap32_id) auto
  have sa: "size_add (entry_ofs k) ENTRY_SIZE = entry_ofs (Suc k)"
    using le dir_file_length[OF Suc(3)] by (simp add: size_add_def entry_ofs_def)
  have m: "entry_matches name (entry bs k) = Some (holds bs nm k)"
    using entry_matches_eq[OF Suc(4)] Suc(3) k by (simp add: holds_def dir_file_def dir_wf_def)
  have upt: "[k ..< entry_count bs] = k # [Suc k ..< entry_count bs]" using k by (rule upt_conv_Cons)
  show ?case
  proof (cases "holds bs nm k")
    case True
    have "lookup_loop p name (entry_ofs k) e s = Some (s\<lparr>buf := c\<rparr>, Some (entry bs k, entry_ofs k))"
      by (subst lookup_loop.simps) (simp add: w c(1) e k m True)
    with c True show ?thesis unfolding upt by auto
  next
    case False
    have "n = entry_count bs - Suc k" using Suc(2) by simp
    from Suc(1)[OF this c(2) Suc(4) _ entry_length[OF k]] k obtain c2 where c2:
      "lookup_loop p name (entry_ofs (Suc k)) (entry bs k) (s\<lparr>buf := c\<rparr>) = Some (s\<lparr>buf := c2\<rparr>,
        map_option (\<lambda>j. (entry bs j, entry_ofs j)) (find (holds bs nm) [Suc k ..< entry_count bs]))"
      "dir_file (s\<lparr>buf := c2\<rparr>) L p i bs" "cache_view c2 = fs_view s" using c(3) by auto
    have "lookup_loop p name (entry_ofs k) e s = lookup_loop p name (entry_ofs (Suc k)) (entry bs k) (s\<lparr>buf := c\<rparr>)"
      by (subst lookup_loop.simps) (simp add: w c(1) e k m False sa)
    with c2 False show ?thesis unfolding upt by auto
  qed
qed

subsection \<open>Adding\<close>

lemma free_slot_loop_spec:
  assumes "dir_file s L p i bs" and "k \<le> entry_count bs" and "length e = ENTRY_SIZE"
  shows "\<exists>c e'. free_slot_loop p (int (entry_ofs k)) e s = Some (s\<lparr>buf := c\<rparr>, e',
      int (entry_ofs (case find (\<lambda>j. \<not> de_in_use (entry bs j)) [k ..< entry_count bs] of Some j \<Rightarrow> j | None \<Rightarrow> entry_count bs))) \<and>
    length e' = ENTRY_SIZE \<and> dir_file (s\<lparr>buf := c\<rparr>) L p i bs \<and> cache_view c = fs_view s"
  using assms
proof (induction "entry_count bs - k" arbitrary: k e s)
  case 0
  then have k: "k = entry_count bs" by simp
  have le: "entry_ofs k \<le> length bs" unfolding k entry_count_def entry_ofs_def by simp
  obtain c where c: "read_entry p (int (entry_ofs k)) e s =
      Some (s\<lparr>buf := c\<rparr>, entry bs k @ drop (length (entry bs k)) e, k < entry_count bs)"
    "dir_file (s\<lparr>buf := c\<rparr>) L p i bs" "cache_view c = fs_view s"
    by (rule read_entry_spec[OF 0(2) le 0(4)])
  have "length (entry bs k) \<le> ENTRY_SIZE" by (simp add: entry_def)
  then have "length (entry bs k @ drop (length (entry bs k)) e) = ENTRY_SIZE" using 0(4) by simp
  moreover have "free_slot_loop p (int (entry_ofs k)) e s = Some (s\<lparr>buf := c\<rparr>, entry bs k @ drop (length (entry bs k)) e, int (entry_ofs k))"
    by (subst free_slot_loop.simps) (simp add: c(1) k[symmetric])
  ultimately show ?case using c k by auto
next
  case (Suc n)
  then have k: "k < entry_count bs" by simp
  have le: "entry_ofs k + ENTRY_SIZE \<le> length bs" using k by (simp add: entry_count_def entry_ofs_def ENTRY_SIZE_def)
  then have le1: "entry_ofs k \<le> length bs" by simp
  obtain c where c: "read_entry p (int (entry_ofs k)) e s =
      Some (s\<lparr>buf := c\<rparr>, entry bs k @ drop (length (entry bs k)) e, k < entry_count bs)"
    "dir_file (s\<lparr>buf := c\<rparr>) L p i bs" "cache_view c = fs_view s"
    by (rule read_entry_spec[OF Suc(3) le1 Suc(5)])
  have e: "entry bs k @ drop (length (entry bs k)) e = entry bs k" using Suc(5) entry_length[OF k] by simp
  have w: "wrap32 (int (entry_ofs k) + int ENTRY_SIZE) = int (entry_ofs (Suc k))"
    using le dir_file_length[OF Suc(3)] by (subst wrap32_id) (auto simp: entry_ofs_Suc)
  have upt: "[k ..< entry_count bs] = k # [Suc k ..< entry_count bs]" using k by (rule upt_conv_Cons)
  show ?case
  proof (cases "de_in_use (entry bs k)")
    case False
    have "free_slot_loop p (int (entry_ofs k)) e s = Some (s\<lparr>buf := c\<rparr>, entry bs k, int (entry_ofs k))"
      by (subst free_slot_loop.simps) (simp add: c(1) e False)
    with c False entry_length[OF k] show ?thesis unfolding upt by auto
  next
    case True
    have "n = entry_count bs - Suc k" using Suc(2) by simp
    from Suc(1)[OF this c(2) _ entry_length[OF k]] k obtain c2 e2 where c2:
      "free_slot_loop p (int (entry_ofs (Suc k))) (entry bs k) (s\<lparr>buf := c\<rparr>) = Some (s\<lparr>buf := c2\<rparr>, e2,
        int (entry_ofs (case find (\<lambda>j. \<not> de_in_use (entry bs j)) [Suc k ..< entry_count bs] of Some j \<Rightarrow> j | None \<Rightarrow> entry_count bs)))"
      "length e2 = ENTRY_SIZE" "dir_file (s\<lparr>buf := c2\<rparr>) L p i bs" "cache_view c2 = fs_view s" using c(3) by auto
    have "free_slot_loop p (int (entry_ofs k)) e s = free_slot_loop p (int (entry_ofs (Suc k))) (entry bs k) (s\<lparr>buf := c\<rparr>)"
      by (subst free_slot_loop.simps) (simp add: c(1) e k True w)
    with c2 True show ?thesis unfolding upt by auto
  qed
qed

lemma fill_entry_spec:
  assumes e: "length e = ENTRY_SIZE" and n: "is_cstr name nm" "length nm \<le> NAME_MAX"
  obtains e' where "fill_entry e name sec isd = Some e'" and "length e' = ENTRY_SIZE" and "de_sector e' = sec"
    and "cname e' = nm" and "0 \<in> set (de_name e')" and "de_in_use e'" and "de_is_directory e' = isd"
proof -
  let ?e = "e[22 := 1, 21 := (if isd then 1 else 0)]"
  have l: "length (de_name ?e) = NAME_MAX + 1" using e by (simp add: de_name_def ENTRY_SIZE_def NAME_MAX_def)
  obtain n' where n': "strlcpy (de_name ?e) name (NAME_MAX + 1) = Some (n', length nm)" "length n' = NAME_MAX + 1" "is_cstr n' nm"
    using strlcpy_correct_lemma[OF n(1), of "NAME_MAX + 1" "de_name ?e"] l n(2) by auto
  let ?r = "le32 sec @ n' @ drop 21 ?e"
  have run: "fill_entry e name sec isd = Some ?r" using n'(1) by (simp add: fill_entry_def Let_def)
  have dn: "de_name ?r = n'" using n'(2) by (simp add: de_name_def NAME_MAX_def)
  have nth: "?r ! 21 = ?e ! 21" "?r ! 22 = ?e ! 22"
    using n'(2) e by (simp_all add: nth_append NAME_MAX_def ENTRY_SIZE_def)
  obtain r where "n' = nm @ 0 # r" "0 \<notin> set nm" using n'(3) by (auto simp: is_cstr_def)
  then have "takeWhile (\<lambda>c. c \<noteq> 0) n' = nm" "0 \<in> set n'" by (auto simp: takeWhile_append takeWhile_eq_all_conv)
  then have "cname ?r = nm" "0 \<in> set (de_name ?r)" unfolding cname_def dn by simp_all
  moreover have "de_sector ?r = sec" using get32_append[of "[]" 0 sec] by (simp add: de_sector_def)
  moreover have "length ?r = ENTRY_SIZE" using n'(2) e by (simp add: NAME_MAX_def ENTRY_SIZE_def)
  moreover have "de_in_use ?r" "de_is_directory ?r = isd"
    using e by (simp_all add: de_in_use_def de_is_directory_def nth ENTRY_SIZE_def)
  ultimately show thesis using run by (intro that)
qed

subsection \<open>Replacing one entry\<close>

lemma entry_replace:
  assumes k: "k < entry_count bs" and e: "length e = ENTRY_SIZE"
  defines "bs' \<equiv> take (entry_ofs k) bs @ e @ drop (entry_ofs k + ENTRY_SIZE) bs"
  shows "entry_count bs' = entry_count bs" and "entry bs' j = (if j = k then e else entry bs j)"
proof -
  have le: "entry_ofs k + ENTRY_SIZE \<le> length bs" using k by (simp add: entry_count_def entry_ofs_def ENTRY_SIZE_def)
  have len: "length bs' = length bs" using le e by (simp add: bs'_def)
  then show "entry_count bs' = entry_count bs" by (simp add: entry_count_def)
  consider "j = k" | "j < k" | "k < j" by linarith
  then show "entry bs' j = (if j = k then e else entry bs j)"
  proof cases
    case 1
    then show ?thesis using le e by (simp add: entry_def bs'_def)
  next
    case 2
    then have "entry_ofs j + ENTRY_SIZE \<le> entry_ofs k" by (simp add: entry_ofs_def ENTRY_SIZE_def)
    then show ?thesis using le 2 by (simp add: entry_def bs'_def drop_take)
  next
    case 3
    then have o: "entry_ofs j = entry_ofs k + ENTRY_SIZE + ENTRY_SIZE * (j - k - 1)" 
      by (simp add: entry_ofs_def ENTRY_SIZE_def)
    show ?thesis unfolding entry_def o bs'_def using le e 3 by (simp add: add.commute)
  qed
qed

lemma holds_replace:
  assumes "k < entry_count bs" and "length e = ENTRY_SIZE"
  shows "holds (take (entry_ofs k) bs @ e @ drop (entry_ofs k + ENTRY_SIZE) bs) nm j \<longleftrightarrow>
    (if j = k then de_in_use e \<and> cname e = nm else holds bs nm j)"
  by (simp add: holds_def entry_replace[OF assms])

lemma dir_map_add:
  assumes wf: "dir_wf bs" and k: "k < entry_count bs" "\<not> de_in_use (entry bs k)" and nm: "dir_map bs nm = None"
    and e: "length e = ENTRY_SIZE" "de_in_use e" "cname e = nm" "0 \<in> set (de_name e)"
  defines "bs' \<equiv> take (entry_ofs k) bs @ e @ drop (entry_ofs k + ENTRY_SIZE) bs"
  shows "dir_wf bs'" and "dir_map bs' = (dir_map bs)(nm \<mapsto> (de_sector e, de_is_directory e))"
proof -
  note r = entry_replace[OF k(1) e(1), folded bs'_def]
  have h: "holds bs' m j \<longleftrightarrow> (if j = k then m = nm else holds bs m j)" for m j
    using holds_replace[OF k(1) e(1), folded bs'_def] e(2,3) by auto
  have free: "\<not> holds bs m k" for m using k(2) by (simp add: holds_def)
  have new: "\<not> holds bs nm j" if "j < entry_count bs" for j using nm that by (simp add: dir_map_None)
  show wf': "dir_wf bs'"
    using wf e new unfolding dir_wf_def r h by (auto split: if_splits)
  show "dir_map bs' = (dir_map bs)(nm \<mapsto> (de_sector e, de_is_directory e))"
  proof
    fix m show "dir_map bs' m = ((dir_map bs)(nm \<mapsto> (de_sector e, de_is_directory e))) m"
    proof (cases "\<exists>j < entry_count bs. holds bs' m j")
      case True
      then obtain j where j: "j < entry_count bs" "holds bs' m j" by blast
      then have "dir_map bs' m = Some (de_sector (entry bs' j), de_is_directory (entry bs' j))"
        using dir_map_Some[OF wf'] r(1) by simp
      then show ?thesis
        using j h[of m j] new[OF j(1)] dir_map_Some[OF wf j(1), of m] r(2) by (cases "j = k") (auto)
    next
      case False
      then have "m \<noteq> nm" using k(1) h[of nm k] by auto
      moreover have "\<not> holds bs m j" if "j < entry_count bs" for j using False that h[of m j] free by (cases "j = k") auto
      ultimately show ?thesis using False r(1) dir_map_None[of bs' m] dir_map_None[of bs m] by auto
    qed
  qed
qed

lemma dir_map_tail:
  assumes "length bs' = length bs" and "take (entry_ofs (entry_count bs)) bs' = take (entry_ofs (entry_count bs)) bs" and "dir_wf bs"
  shows "dir_wf bs'" and "dir_map bs' = dir_map bs"
proof -
  have c: "entry_count bs' = entry_count bs" using assms(1) by (simp add: entry_count_def)
  have e: "entry bs' j = entry bs j" if "j < entry_count bs" for j
  proof -
    have "entry_ofs j + ENTRY_SIZE \<le> entry_ofs (entry_count bs)" using that by (simp add: entry_ofs_def ENTRY_SIZE_def)
    then have "entry cs j = take ENTRY_SIZE (drop (entry_ofs j) (take (entry_ofs (entry_count bs)) cs))" for cs
      by (simp add: entry_def drop_take)
    then show ?thesis using assms(2) by simp
  qed
  then have h: "holds bs' nm j = holds bs nm j" if "j < entry_count bs" for nm j using that by (simp add: holds_def)
  show "dir_wf bs'" using assms(3) unfolding dir_wf_def c using e h by simp
  show "dir_map bs' = dir_map bs"
  proof
    fix nm
    have "find (holds bs' nm) [0 ..< entry_count bs] = find (holds bs nm) [0 ..< entry_count bs]"
      by (rule find_cong) (simp_all add: h)
    moreover have "j < entry_count bs" if "find (holds bs nm) [0 ..< entry_count bs] = Some j" for j
      using that by (auto simp: find_Some_iff)
    ultimately show "dir_map bs' nm = dir_map bs nm"
      unfolding dir_map_def c using e by (auto simp: map_option_case split: option.split)
  qed
qed

lemma lookup_spec:
  assumes "dir_file s L p i bs" and "dirs s dp = Some d" and "d_inode d = Some p" and "is_cstr name nm" and "length junk = ENTRY_SIZE"
  obtains c where "lookup junk (Some dp) name s = Some (s\<lparr>buf := c\<rparr>,
      map_option (\<lambda>j. (entry bs j, entry_ofs j)) (find (holds bs nm) [0 ..< entry_count bs]))"
    and "dir_file (s\<lparr>buf := c\<rparr>) L p i bs" and "cache_view c = fs_view s"
proof -
  have "lookup junk (Some dp) name s = lookup_loop p name (entry_ofs 0) junk s"
    using assms(2,3) by (simp add: lookup_def entry_ofs_def)
  then show thesis using lookup_loop_spec[OF assms(1,4) _ assms(5), of 0] that by auto
qed

text \<open>A write at an entry of a directory.\<close>

lemma write_entry:
  assumes d: "dir_file s L p i bs" and deny: "deny_write_cnt i = 0" and k: "entry_ofs k \<le> length bs" and e: "length e = ENTRY_SIZE"
  defines "n \<equiv> min ENTRY_SIZE (length bs - entry_ofs k)"
  obtains c where "inode_write_at p e (int ENTRY_SIZE) (int (entry_ofs k)) s = Some (s\<lparr>buf := c\<rparr>, int n)" and "fs_inv (s\<lparr>buf := c\<rparr>) L"
    and "contents (s\<lparr>buf := c\<rparr>) L (unat (i_sector i)) = take (entry_ofs k) bs @ take n e @ drop (entry_ofs k + n) bs"
    and "\<forall>u. u \<notin> data_sectors (i_data i) \<longrightarrow> cache_view c u = fs_view s u"
proof -
  have f: "fs_inv s L" "p \<in> set (open_inodes s)" "inodes s p = Some i" "contents s L (unat (i_sector i)) = bs"
    using d by (simp_all add: dir_file_def)
  have o: "0 \<le> int (entry_ofs k)" "int (entry_ofs k) < 2 ^ 31" "nat (int ENTRY_SIZE) \<le> length e"
    using k e dir_file_length[OF d] by auto
  have n: "min (nat (int ENTRY_SIZE)) (nat (inode_length i) - nat (int (entry_ofs k))) = n"
    using dir_file_length[OF d] by (simp add: n_def)
  show thesis
    by (rule inode_write_at_spec[OF f(1-3) deny o, unfolded n f(4)]) (rule that, simp_all)
qed

text \<open>Storing a new entry at the first free slot, or behind the last entry when no slot is free.\<close>

lemma add_entry_at:
  assumes d: "dir_file s L p i bs" and deny: "deny_write_cnt i = 0" and nm: "dir_map bs nm = None"
    and e: "length e = ENTRY_SIZE" "de_in_use e" "cname e = nm" "0 \<in> set (de_name e)"
  defines "k \<equiv> (case find (\<lambda>j. \<not> de_in_use (entry bs j)) [0 ..< entry_count bs] of Some j \<Rightarrow> j | None \<Rightarrow> entry_count bs)"
  shows "\<exists>c n bs'. inode_write_at p e (int ENTRY_SIZE) (int (entry_ofs k)) s = Some (s\<lparr>buf := c\<rparr>, n) \<and>
    dir_file (s\<lparr>buf := c\<rparr>) L p i bs' \<and> (n = int ENTRY_SIZE \<longleftrightarrow> (\<exists>j < entry_count bs. \<not> de_in_use (entry bs j))) \<and>
    dir_map bs' = (if n = int ENTRY_SIZE then (dir_map bs)(nm \<mapsto> (de_sector e, de_is_directory e)) else dir_map bs)"
proof -
  let ?n = "min ENTRY_SIZE (length bs - entry_ofs k)"
  have f: "fs_inv s L" "p \<in> set (open_inodes s)" "inodes s p = Some i" "dir_wf bs" using d by (simp_all add: dir_file_def)
  have kle: "k \<le> entry_count bs" by (auto simp: k_def find_Some_iff split: option.split)
  then have "entry_ofs k \<le> entry_ofs (entry_count bs)" by (simp add: entry_ofs_def)
  also have "\<dots> \<le> length bs" by (simp add: entry_ofs_def entry_count_def)
  finally have ole: "entry_ofs k \<le> length bs" .
  obtain c where c: "inode_write_at p e (int ENTRY_SIZE) (int (entry_ofs k)) s = Some (s\<lparr>buf := c\<rparr>, int ?n)"
    "fs_inv (s\<lparr>buf := c\<rparr>) L"
    "contents (s\<lparr>buf := c\<rparr>) L (unat (i_sector i)) = take (entry_ofs k) bs @ take ?n e @ drop (entry_ofs k + ?n) bs"
    by (rule write_entry[OF d deny ole e(1)])
  let ?bs = "take (entry_ofs k) bs @ take ?n e @ drop (entry_ofs k + ?n) bs"
  have full: "?n = ENTRY_SIZE \<longleftrightarrow> k < entry_count bs"
    using entry_full_iff[of bs k] by (simp add: entry_def min.commute)
  have ex: "k < entry_count bs \<longleftrightarrow> (\<exists>j < entry_count bs. \<not> de_in_use (entry bs j))"
    and free: "k < entry_count bs \<longrightarrow> \<not> de_in_use (entry bs k)"
    by (auto simp: k_def find_Some_iff find_None_iff split: option.split)
  have "dir_wf ?bs \<and> dir_map ?bs = (if ?n = ENTRY_SIZE then (dir_map bs)(nm \<mapsto> (de_sector e, de_is_directory e)) else dir_map bs)"
  proof (cases "k < entry_count bs")
    case True
    then have n: "?n = ENTRY_SIZE" and t: "take ENTRY_SIZE e = e" using full e(1) by simp_all
    show ?thesis unfolding n t using dir_map_add[OF f(4) True free[rule_format, OF True] nm e] by simp
  next
    case False
    then have k: "k = entry_count bs" and n: "?n \<noteq> ENTRY_SIZE" using kle full by auto
    have l: "length ?bs = length bs" using ole e(1) by simp
    have t: "take (entry_ofs (entry_count bs)) ?bs = take (entry_ofs (entry_count bs)) bs" using ole unfolding k[symmetric] by simp
    show ?thesis using dir_map_tail[OF l t f(4)] by (simp only: n if_False simp_thms)
  qed
  then have "dir_file (s\<lparr>buf := c\<rparr>) L p i ?bs"
    "dir_map ?bs = (if ?n = ENTRY_SIZE then (dir_map bs)(nm \<mapsto> (de_sector e, de_is_directory e)) else dir_map bs)"
    using c(2,3) f(2,3) by (simp_all add: dir_file_def)
  with c(1) full ex show ?thesis by (intro exI[of _ c] exI[of _ "int ?n"] exI[of _ ?bs]) simp
qed

text \<open>C9. A directory is a finite map from names to inodes. \<open>dir_add\<close> of a name that is valid and not in use
  puts the name into the map when a slot is free and changes no other name; in all other cases it returns
  false and the map stays as it is. Directories do not grow.\<close>

theorem dir_add_map:
  assumes "dir_file s L p i bs" and "dirs s dp = Some d" and "d_inode d = Some p" and "deny_write_cnt i = 0"
    and "is_cstr name nm" and "length junk = ENTRY_SIZE"
  shows "\<exists>s' ok bs'. dir_add junk (Some dp) name sec isd s = Some (s', ok) \<and> dir_file s' L p i bs' \<and>
    (ok \<longleftrightarrow> nm \<noteq> [] \<and> length nm \<le> NAME_MAX \<and> nm \<notin> dom (dir_map bs) \<and> (\<exists>k < entry_count bs. \<not> de_in_use (entry bs k))) \<and>
    dir_map bs' = (if ok then (dir_map bs)(nm \<mapsto> (sec, isd)) else dir_map bs)"
proof -
  have b0: "byte_at name 0 = Some (if nm = [] then 0 else hd nm)" "nm \<noteq> [] \<Longrightarrow> hd nm \<noteq> 0"
    using assms(5) by (cases nm; auto simp: is_cstr_def byte_at_def)+
  have sl: "strlen name = Some (length nm)" by (rule strlen_cstr[OF assms(5)])
  show ?thesis
  proof (cases "nm = [] \<or> NAME_MAX < length nm")
    case True
    then have "dir_add junk (Some dp) name sec isd s = Some (s, False)"
      using assms(2) b0 sl by (auto simp: dir_add_def)
    with True assms(1) show ?thesis by (intro exI[of _ s] exI[of _ False] exI[of _ bs]) auto
  next
    case valid: False
    obtain c where c: "lookup junk (Some dp) name s = Some (s\<lparr>buf := c\<rparr>,
        map_option (\<lambda>j. (entry bs j, entry_ofs j)) (find (holds bs nm) [0 ..< entry_count bs]))"
      "dir_file (s\<lparr>buf := c\<rparr>) L p i bs" "cache_view c = fs_view s"
      by (rule lookup_spec[OF assms(1-3,5,6)])
    show ?thesis
    proof (cases "dir_map bs nm")
      case (Some v)
      then have "dir_add junk (Some dp) name sec isd s = Some (s\<lparr>buf := c\<rparr>, False)"
        using assms(2) b0 sl c(1) valid by (auto simp: dir_add_def dir_map_def)
      with c(2) Some show ?thesis by (intro exI[of _ "s\<lparr>buf := c\<rparr>"] exI[of _ False] exI[of _ bs]) auto
    next
      case None
      define P where "P = (\<lambda>j. \<not> de_in_use (entry bs j))"
      define k where "k = (case find P [0 ..< entry_count bs] of Some j \<Rightarrow> j | None \<Rightarrow> entry_count bs)"
      obtain c1 e1 where c1: "free_slot_loop p (int (entry_ofs 0)) junk (s\<lparr>buf := c\<rparr>) = Some (s\<lparr>buf := c1\<rparr>, e1, int (entry_ofs k))"
        "length e1 = ENTRY_SIZE" "dir_file (s\<lparr>buf := c1\<rparr>) L p i bs"
        using free_slot_loop_spec[OF c(2) _ assms(6), of 0] unfolding k_def P_def by auto
      obtain e where e: "fill_entry e1 name sec isd = Some e" "length e = ENTRY_SIZE" "de_sector e = sec" "cname e = nm"
        "0 \<in> set (de_name e)" "de_in_use e" "de_is_directory e = isd"
        by (rule fill_entry_spec[OF c1(2) assms(5)]) (use valid in simp)
      have run: "dir_add junk (Some dp) name sec isd s = Some (s\<lparr>buf := c2\<rparr>, n = int ENTRY_SIZE)"
        if "inode_write_at p e (int ENTRY_SIZE) (int (entry_ofs k)) (s\<lparr>buf := c1\<rparr>) = Some (s\<lparr>buf := c2\<rparr>, n)" for c2 n
        using assms(2,3) b0 sl c(1) c1(1) e(1) None valid that by (auto simp: dir_add_def dir_map_def entry_ofs_def)
      show ?thesis using add_entry_at[OF c1(3) assms(4) None e(2,6,4,5), folded P_def, folded k_def] run e(3,7) valid None
        unfolding P_def by fastforce
    qed
  qed
qed

subsection \<open>Removing\<close>

lemma dir_map_remove:
  assumes wf: "dir_wf bs" and k: "k < entry_count bs" "holds bs nm k" and e: "length e = ENTRY_SIZE" "\<not> de_in_use e"
  defines "bs' \<equiv> take (entry_ofs k) bs @ e @ drop (entry_ofs k + ENTRY_SIZE) bs"
  shows "dir_wf bs'" and "dir_map bs' = (dir_map bs)(nm := None)"
proof -
  note r = entry_replace[OF k(1) e(1), folded bs'_def]
  have h: "holds bs' m j \<longleftrightarrow> j \<noteq> k \<and> holds bs m j" for m j
    using holds_replace[OF k(1) e(1), folded bs'_def] e(2) by auto
  show wf': "dir_wf bs'"
    using wf e unfolding dir_wf_def r h by (auto split: if_splits)
  show "dir_map bs' = (dir_map bs)(nm := None)"
  proof
    fix m show "dir_map bs' m = ((dir_map bs)(nm := None)) m"
    proof (cases "\<exists>j < entry_count bs. holds bs' m j")
      case True
      then obtain j where j: "j < entry_count bs" "holds bs' m j" by blast
      then have "m \<noteq> nm" using wf k h[of m j] by (auto simp: dir_wf_def)
      then show ?thesis
        using j dir_map_Some[OF wf' _ j(2)] dir_map_Some[OF wf j(1), of m] h[of m j] r by simp
    next
      case False
      then have "\<not> holds bs m j" if "m \<noteq> nm" "j < entry_count bs" for j
        using that k h[of m j] by (cases "j = k") (auto simp: holds_def)
      then show ?thesis using False r(1) dir_map_None[of bs' m] dir_map_None[of bs m] by auto
    qed
  qed
qed

text \<open>Clearing the flag of an entry.\<close>

lemma clear_entry:
  assumes d: "dir_file s L p i bs" and deny: "deny_write_cnt i = 0" and k: "k < entry_count bs" "holds bs nm k"
  shows "\<exists>c bs'. inode_write_at p ((entry bs k)[22 := 0]) (int ENTRY_SIZE) (wrap32 (int (entry_ofs k))) s =
      Some (s\<lparr>buf := c\<rparr>, int ENTRY_SIZE) \<and> dir_file (s\<lparr>buf := c\<rparr>) L p i bs' \<and> dir_map bs' = (dir_map bs)(nm := None)"
proof -
  let ?e = "(entry bs k)[22 := 0]"
  have f: "fs_inv s L" "p \<in> set (open_inodes s)" "inodes s p = Some i" "dir_wf bs" using d by (simp_all add: dir_file_def)
  have le: "entry_ofs k + ENTRY_SIZE \<le> length bs" using k by (simp add: entry_count_def entry_ofs_def ENTRY_SIZE_def)
  then have ole: "entry_ofs k \<le> length bs" and n: "min ENTRY_SIZE (length bs - entry_ofs k) = ENTRY_SIZE" by simp_all
  have e: "length ?e = ENTRY_SIZE" "\<not> de_in_use ?e" using entry_length[OF k(1)] by (simp_all add: de_in_use_def ENTRY_SIZE_def)
  have w: "wrap32 (int (entry_ofs k)) = int (entry_ofs k)" using ole dir_file_length[OF d] by (subst wrap32_id) auto
  obtain c where c: "inode_write_at p ?e (int ENTRY_SIZE) (int (entry_ofs k)) s = Some (s\<lparr>buf := c\<rparr>, int ENTRY_SIZE)"
    "fs_inv (s\<lparr>buf := c\<rparr>) L"
    "contents (s\<lparr>buf := c\<rparr>) L (unat (i_sector i)) = take (entry_ofs k) bs @ take ENTRY_SIZE ?e @ drop (entry_ofs k + ENTRY_SIZE) bs"
    by (rule write_entry[OF d deny ole e(1), unfolded n])
  then show ?thesis using dir_map_remove[OF f(4) k e] f(2,3) e(1) unfolding w dir_file_def by auto
qed

text \<open>Deleting a file that only \<open>dir_remove\<close> has open.\<close>

lemma delete_file:
  assumes d: "dir_file s L p i bs" "unat (i_sector i) \<noteq> FREE_MAP_SECTOR" and q: "q \<in> set (open_inodes s)" "inodes s q = Some j" "q \<noteq> p"
    "open_cnt j = 1" "unat (i_sector j) \<noteq> FREE_MAP_SECTOR" and fm: "free_map_file s = Some fp"
  defines "t \<equiv> unat (i_sector j)"
  shows "\<exists>s1 s2. inode_remove (Some q) s = Some s1 \<and> inode_close (Some q) s1 = Some s2 \<and> dir_file s2 (L(t := None)) p i bs \<and>
    (\<forall>u < bit_cnt (free_map s). bit_at (free_map s2) u = (bit_at (free_map s) u \<and> u \<notin> insert t (data_sectors (i_data j))))"
proof -
  let ?j = "j\<lparr>removed := True\<rparr>"
  define s1 where "s1 = set_inode q ?j s"
  have f: "fs_inv s L" "p \<in> set (open_inodes s)" "inodes s p = Some i" "dir_wf bs" "contents s L (unat (i_sector i)) = bs"
    using d(1) by (simp_all add: dir_file_def)
  have inv1: "fs_inv s1 L" unfolding s1_def by (rule fs_inv_set_inode[OF f(1) q(2)]) (use q(4) in simp_all)
  have s1: "q \<in> set (open_inodes s1)" "inodes s1 q = Some ?j" "open_cnt ?j = 1" "unat (i_sector ?j) \<noteq> FREE_MAP_SECTOR" "removed ?j"
    "free_map_file s1 = Some fp" "fs_view s1 = fs_view s" "free_map s1 = free_map s" "inodes s1 p = Some i" "p \<in> set (open_inodes s1)"
    using q fm f by (simp_all add: s1_def set_inode_def)
  obtain s2 where s2: "inode_close (Some q) s1 = Some s2" "fs_inv s2 (L(t := None))"
    "\<forall>q'. q' \<noteq> q \<longrightarrow> inodes s2 q' = inodes s1 q' \<and> (q' \<in> set (open_inodes s2) \<longleftrightarrow> q' \<in> set (open_inodes s1))"
    "\<forall>u < bit_cnt (free_map s). bit_at (free_map s2) u = (bit_at (free_map s) u \<and> u \<notin> insert t (data_sectors (i_data j)))"
    "\<forall>u. u \<noteq> t \<longrightarrow> u \<notin> map_sectors L \<longrightarrow> fs_view s2 u = fs_view s u"
    using inode_close_removed[OF inv1 s1(1-6)] unfolding t_def s1(7,8) by auto
  have ne: "unat (i_sector i) \<noteq> t"
  proof
    assume "unat (i_sector i) = t"
    then have "i_sector i = i_sector j" by (simp add: t_def word_unat_eq_iff)
    then show False using f(1-3) q(1-3) unfolding fs_inv_def open_ok_def inj_on_def by fastforce
  qed
  note Lp = open_inode_facts(1,5)[OF f(1-3)] and Lq = open_inode_facts(1)[OF f(1) q(1,2), folded t_def]
  have "data_sectors (i_data i) \<inter> map_sectors L = {}" by (rule map_sectors_owned[OF Lp(2,1) d(2)])
  moreover have "t \<notin> data_sectors (i_data i)" by (rule layout_disjoint(2)[OF Lp(2,1) Lq ne])
  ultimately have "u \<noteq> t \<and> u \<notin> map_sectors L" if "u \<in> data_sectors (i_data i)" for u using that by auto
  then have "contents s2 L (unat (i_sector i)) = contents s L (unat (i_sector i))"
    by (intro contents_cong[where L = L and t = "unat (i_sector i)" and d = "i_data i", OF Lp(1)]) (simp add: s2(5))
  then have "dir_file s2 (L(t := None)) p i bs"
    using s2(2,3) s1(9,10) f(4,5) q(3) ne unfolding dir_file_def by (auto simp: contents_def)
  moreover have "inode_remove (Some q) s = Some s1" using q(2) by (simp add: inode_remove_def s1_def)
  ultimately show ?thesis using s2(1,4) by blast
qed

text \<open>C10. \<open>dir_remove\<close> of a name whose file is not open takes exactly this name out of the map, deletes the file
  and frees exactly its sectors; the directory stays open and well-formed.\<close>

theorem dir_remove_map:
  assumes d: "dir_file s L p i bs" "dirs s dp = Some d" "d_inode d = Some p" "deny_write_cnt i = 0" "unat (i_sector i) \<noteq> FREE_MAP_SECTOR"
    and nm: "is_cstr name nm" "length junk = ENTRY_SIZE" "dir_map bs nm = Some (sec, isd)"
    and t: "L (unat sec) = Some t" "\<forall>q \<in> set (open_inodes s). map_option i_sector (inodes s q) \<noteq> Some sec" "unat sec \<noteq> FREE_MAP_SECTOR"
    and fm: "free_map_file s = Some fp"
  shows "\<exists>s' bs'. dir_remove junk (Some dp) name s = Some (s', True) \<and> dir_file s' (L(unat sec := None)) p i bs' \<and>
    dir_map bs' = (dir_map bs)(nm := None) \<and>
    (\<forall>j < bit_cnt (free_map s). bit_at (free_map s') j = (bit_at (free_map s) j \<and> j \<notin> insert (unat sec) (data_sectors t)))"
proof -
  obtain c where c: "lookup junk (Some dp) name s = Some (s\<lparr>buf := c\<rparr>,
      map_option (\<lambda>j. (entry bs j, entry_ofs j)) (find (holds bs nm) [0 ..< entry_count bs]))"
    "dir_file (s\<lparr>buf := c\<rparr>) L p i bs" "cache_view c = fs_view s"
    by (rule lookup_spec[OF d(1-3) nm(1,2)])
  obtain k where k: "find (holds bs nm) [0 ..< entry_count bs] = Some k" "de_sector (entry bs k) = sec"
    using nm(3) by (auto simp: dir_map_def)
  then have kb: "k < entry_count bs" "holds bs nm k" by (auto simp: find_Some_iff)
  let ?s = "s\<lparr>buf := c\<rparr>"
  have inv: "fs_inv ?s L" "p \<in> set (open_inodes s)" "inodes s p = Some i" "dir_wf bs" "contents ?s L (unat (i_sector i)) = bs"
    using c(2) by (simp_all add: dir_file_def)
  let ?j = "\<lparr>i_sector = sec, open_cnt = 1, removed = False, deny_write_cnt = 0, i_data = t\<rparr>"
  have no: "\<forall>q \<in> set (open_inodes ?s). map_option i_sector (inodes ?s q) \<noteq> Some sec" using t(2) by simp
  obtain c1 where c1: "inode_open sec ?s = Some ((set_inode (fresh ?s) ?j ?s)\<lparr>buf := c1, open_inodes := fresh ?s # open_inodes ?s, fresh := fresh ?s + 1\<rparr>, Some (fresh ?s))"
    "fs_inv ((set_inode (fresh ?s) ?j ?s)\<lparr>buf := c1, open_inodes := fresh ?s # open_inodes ?s, fresh := fresh ?s + 1\<rparr>) L"
    "cache_view c1 = fs_view ?s" "fresh ?s \<notin> set (open_inodes ?s)"
    by (rule inode_open_new[OF inv(1) t(1) no])
  define q s1 where "q = fresh s" and "s1 = (set_inode (fresh ?s) ?j ?s)\<lparr>buf := c1, open_inodes := fresh ?s # open_inodes ?s, fresh := fresh ?s + 1\<rparr>"
  have qp: "q \<noteq> p" using c1(4) inv(2) by (auto simp: q_def)
  have f1: "inodes s1 = (inodes s)(q \<mapsto> ?j)" "open_inodes s1 = q # open_inodes s" "dirs s1 = dirs s" "free_map s1 = free_map s"
    "free_map_file s1 = Some fp" "fs_view s1 = fs_view s"
    using fm c1(3) c(3) by (simp_all add: s1_def q_def set_inode_def)
  have d1: "dir_file s1 L p i bs"
    using c1(2)[folded s1_def] inv qp f1 c(3) by (simp add: dir_file_def contents_def)
  obtain c2 bs' where c2: "inode_write_at p ((entry bs k)[22 := 0]) (int ENTRY_SIZE) (wrap32 (int (entry_ofs k))) s1 =
      Some (s1\<lparr>buf := c2\<rparr>, int ENTRY_SIZE)" "dir_file (s1\<lparr>buf := c2\<rparr>) L p i bs'" "dir_map bs' = (dir_map bs)(nm := None)"
    using clear_entry[OF d1 d(4) kb] by blast
  have q: "q \<in> set (open_inodes (s1\<lparr>buf := c2\<rparr>))" "inodes (s1\<lparr>buf := c2\<rparr>) q = Some ?j" "open_cnt ?j = 1"
    "unat (i_sector ?j) \<noteq> FREE_MAP_SECTOR" "free_map_file (s1\<lparr>buf := c2\<rparr>) = Some fp" using f1 t(3) by simp_all
  obtain s2 s3 where s3: "inode_remove (Some q) (s1\<lparr>buf := c2\<rparr>) = Some s2" "inode_close (Some q) s2 = Some s3"
    "dir_file s3 (L(unat sec := None)) p i bs'"
    "\<forall>u < bit_cnt (free_map s). bit_at (free_map s3) u = (bit_at (free_map s) u \<and> u \<notin> insert (unat sec) (data_sectors t))"
    using delete_file[OF c2(2) d(5) q(1,2) qp q(3-5)] f1(4) by auto
  have "dir_remove junk (Some dp) name s = Some (s3, True)"
    using c(1) c1(1)[folded s1_def] c2(1) s3(1,2) k d(2,3) f1(1,3)
    by (simp add: dir_remove_def inode_open_cnt_def q_def)
  with s3(3,4) c2(3) show ?thesis by blast
qed

text \<open>C40. A file that is open elsewhere is not removed, and the attempt leaves its inode open once more: every
  failed \<open>dir_remove\<close> adds one to the count of openers, which nobody takes back.\<close>

theorem dir_remove_busy_leaks:
  assumes d: "dir_file s L p i bs" "dirs s dp = Some d" "d_inode d = Some p"
    and nm: "is_cstr name nm" "length junk = ENTRY_SIZE" "dir_map bs nm = Some (sec, isd)"
    and q: "q \<in> set (open_inodes s)" "inodes s q = Some j" "i_sector j = sec" "open_cnt j + 1 < 2 ^ 31"
  shows "\<exists>c. dir_remove junk (Some dp) name s = Some ((set_inode q (j\<lparr>open_cnt := open_cnt j + 1\<rparr>) s)\<lparr>buf := c\<rparr>, False)"
proof -
  obtain c where c: "lookup junk (Some dp) name s = Some (s\<lparr>buf := c\<rparr>,
      map_option (\<lambda>j. (entry bs j, entry_ofs j)) (find (holds bs nm) [0 ..< entry_count bs]))"
    "dir_file (s\<lparr>buf := c\<rparr>) L p i bs"
    by (rule lookup_spec[OF d(1-3) nm(1,2)])
  obtain k where k: "find (holds bs nm) [0 ..< entry_count bs] = Some k" "de_sector (entry bs k) = sec"
    using nm(3) by (auto simp: dir_map_def)
  let ?s = "s\<lparr>buf := c\<rparr>" and ?P = "\<lambda>p. map_option i_sector (inodes s p) = Some sec"
  have inv: "open_ok s L" using d(1) by (simp add: dir_file_def fs_inv_def)
  then have loop: "inode_open_loop sec (open_inodes ?s) ?s = Some (find ?P (open_inodes s))"
    by (subst inode_open_loop_eq) (auto simp: open_ok_def opened_def)
  have "find ?P (open_inodes s) = Some q"
  proof -
    obtain r where r: "find ?P (open_inodes s) = Some r" using q(1-3) by (cases "find ?P (open_inodes s)") (auto simp: find_None_iff)
    then have "r \<in> set (open_inodes s)" "?P r" by (auto simp: find_Some_iff)
    moreover have "?P q" using q(2,3) by simp
    ultimately have "r = q" using inv q(1) unfolding open_ok_def inj_on_def by metis
    with r show ?thesis by simp
  qed
  moreover have pos: "0 < open_cnt j" using inv q(1,2) by (auto simp: open_ok_def opened_def)
  moreover have "wrap32 (open_cnt j + 1) = open_cnt j + 1" by (rule wrap32_id) (use pos q(4) in auto)
  ultimately have "inode_open sec ?s = Some (set_inode q (j\<lparr>open_cnt := open_cnt j + 1\<rparr>) ?s, Some q)"
    using loop q(2) by (simp add: inode_open_def inode_reopen_def)
  then have "dir_remove junk (Some dp) name s = Some (set_inode q (j\<lparr>open_cnt := open_cnt j + 1\<rparr>) ?s, False)"
    using c(1) k pos by (simp add: dir_remove_def inode_open_cnt_def set_inode_def)
  then show ?thesis by (intro exI[of _ c]) (simp add: set_inode_def)
qed

subsection \<open>A small directory\<close>

text \<open>The file in sector 1 is a directory with room for 25 entries; its only entry names the file in sector 5.\<close>

definition ex_entry :: "u8 list" where
  "ex_entry = le32 5 @ [97, 0] @ replicate 15 0 @ [0, 1, 0]"

definition ex_empty_inode :: inode_disk where
  "ex_empty_inode = \<lparr>id_start = 6, id_length = 0, id_unused = replicate 496 0, parent_dir_inode = 1, id_magic = INODE_MAGIC\<rparr>"

definition ex_dir_layout :: layout where
  "ex_dir_layout = [0 \<mapsto> ex_map_inode, 1 \<mapsto> ex_inode, 5 \<mapsto> ex_empty_inode]"

definition ex_dir_disk :: block where
  "ex_dir_disk = \<lparr>b_name = [0x68, 0x64, 0x61, 0], b_type = BLOCK_FILESYS, b_size = 32,
     b_data = (\<lambda>s. if s = 0 then inode_disk_bytes ex_map_inode else if s = 1 then inode_disk_bytes ex_inode
                   else if s = 2 then ex_entry @ replicate 488 0 else if s = 5 then inode_disk_bytes ex_empty_inode
                   else replicate BLOCK_SECTOR_SIZE 0), read_cnt = 0, write_cnt = 0\<rparr>"

text \<open>With \<open>b\<close>, the file in sector 5 is open too.\<close>

definition ex_dir_fs :: "bool \<Rightarrow> fs" where
  "ex_dir_fs b = \<lparr>buf = cache_init ex_dir_disk,
     inodes = [0 \<mapsto> \<lparr>i_sector = 1, open_cnt = 1, removed = False, deny_write_cnt = 0, i_data = ex_inode\<rparr>,
               1 \<mapsto> \<lparr>i_sector = 0, open_cnt = 1, removed = False, deny_write_cnt = 0, i_data = ex_map_inode\<rparr>,
               2 \<mapsto> \<lparr>i_sector = 5, open_cnt = 1, removed = False, deny_write_cnt = 0, i_data = ex_empty_inode\<rparr>],
     open_inodes = (if b then [0, 1, 2] else [0, 1]), files = [1 \<mapsto> \<lparr>f_inode = 1, pos = 0, f_deny_write = False\<rparr>],
     fresh = 4, free_map = \<lparr>bit_cnt = 32, bits = [63]\<rparr>, free_map_file = Some 1,
     dirs = [3 \<mapsto> \<lparr>d_inode = Some 0, d_pos = 0\<rparr>], root_dir = Some 3\<rparr>"

lemma ex_empty_facts: "inode_disk_wf ex_empty_inode" "data_sectors ex_empty_inode = {}" "inode_fits 32 ex_empty_inode"
  by (auto simp: inode_disk_wf_def data_sectors_def inode_fits_def ex_empty_inode_def)

lemma ex_dir_owned: "owned ex_dir_layout = {0, 1, 2, 3, 4, 5}"
  by (auto simp: owned_def ex_dir_layout_def ran_def ex_data_sectors ex_empty_facts split: if_splits)

lemma ex_dir_inv: "fs_inv (ex_dir_fs b) ex_dir_layout"
proof -
  have wf: "block_wf ex_dir_disk"
    using ex_inode_wf ex_empty_facts(1) by (auto simp: block_wf_def ex_dir_disk_def length_inode_disk_bytes ex_entry_def BLOCK_SECTOR_SIZE_def)
  have c: "buf (ex_dir_fs b) = cache_init ex_dir_disk" "cache_sectors (cache_init ex_dir_disk) = 32"
    by (simp_all add: ex_dir_fs_def cache_init_fields ex_dir_disk_def)
  have "layout_ok 32 ex_dir_layout"
    unfolding layout_ok_def using ex_fits ex_empty_facts(3) by (auto simp: ex_dir_layout_def ex_data_sectors ex_empty_facts(2) split: if_splits)
  moreover have "on_disk (fs_view (ex_dir_fs b)) ex_dir_layout"
    using ex_inode_wf ex_empty_facts(1) by (simp add: c(1) cache_init_view on_disk_def ex_dir_layout_def ex_dir_disk_def)
  moreover have "map_ok (ex_dir_fs b) ex_dir_layout"
    by (simp add: map_ok_def c ex_dir_owned) (simp add: ex_dir_fs_def bitmap_wf_def ELEM_BITS_def bit_at_def elem_idx_def)
  moreover have "open_ok (ex_dir_fs b) ex_dir_layout" "map_file_ok (ex_dir_fs b) ex_dir_layout"
    by (auto simp: open_ok_def opened_def map_file_ok_def ex_dir_fs_def ex_dir_layout_def FREE_MAP_SECTOR_def)
  ultimately show ?thesis using cache_init_ok[OF wf] by (simp add: fs_inv_def c)
qed

definition ex_dir_bytes :: "u8 list" where "ex_dir_bytes = ex_entry @ replicate 576 0"

lemma ex_dir_contents: "contents (ex_dir_fs b) ex_dir_layout 1 = ex_dir_bytes"
proof (rule nth_equalityI)
  have v: "fs_view (ex_dir_fs b) = b_data ex_dir_disk" by (simp add: ex_dir_fs_def cache_init_view)
  have L: "the (ex_dir_layout (Suc 0)) = ex_inode" by (simp add: ex_dir_layout_def)
  have le: "length ex_entry = 24" by (simp add: ex_entry_def)
  show "length (contents (ex_dir_fs b) ex_dir_layout 1) = length ex_dir_bytes"
    by (simp add: contents_def L ex_dir_bytes_def le) (simp add: ex_inode_def)
  fix k assume "k < length (contents (ex_dir_fs b) ex_dir_layout 1)"
  then have k: "k < 600" by (simp add: contents_def L) (simp add: ex_inode_def)
  have "disk_byte (b_data ex_dir_disk) (1024 + k) = ex_dir_bytes ! k"
  proof (cases "k < 512")
    case True
    then have "(1024 + k) div 512 = 2" "(1024 + k) mod 512 = k" using mod_mult_self3[of 2 512 k] by auto
    then show ?thesis using True k le by (simp add: disk_byte_def BLOCK_SECTOR_SIZE_def ex_dir_disk_def ex_dir_bytes_def nth_append)
  next
    case False
    then have "(1024 + k) div 512 = 3" "(1024 + k) mod 512 = k - 512" using k mod_mult_self3[of 3 512 "k - 512"] by auto
    then show ?thesis using False k le by (simp add: disk_byte_def BLOCK_SECTOR_SIZE_def ex_dir_disk_def ex_dir_bytes_def nth_append)
  qed
  then show "contents (ex_dir_fs b) ex_dir_layout 1 ! k = ex_dir_bytes ! k"
    using k by (simp add: contents_def L v inode_bytes_def inode_first_def BLOCK_SECTOR_SIZE_def) (simp add: ex_inode_def)
qed

lemma ex_dir_entries: "entry_count ex_dir_bytes = 25" "entry ex_dir_bytes 0 = ex_entry" "0 < k \<Longrightarrow> k < 25 \<Longrightarrow> \<not> de_in_use (entry ex_dir_bytes k)"
proof -
  have le: "length ex_entry = 24" by (simp add: ex_entry_def)
  show "entry_count ex_dir_bytes = 25" "entry ex_dir_bytes 0 = ex_entry"
    by (simp_all add: entry_count_def entry_def entry_ofs_def ex_dir_bytes_def le ENTRY_SIZE_def)
  show "\<not> de_in_use (entry ex_dir_bytes k)" if "0 < k" "k < 25"
  proof -
    have "24 * k + 24 \<le> 600" "24 \<le> 24 * k" using that by auto
    then show ?thesis by (simp add: de_in_use_def entry_def entry_ofs_def ex_dir_bytes_def ENTRY_SIZE_def nth_append le)
  qed
qed

lemma ex_entry_facts: "de_in_use ex_entry" "cname ex_entry = [97]" "0 \<in> set (de_name ex_entry)" "de_sector ex_entry = 5" "\<not> de_is_directory ex_entry"
  by code_simp+

lemma ex_dir_wf: "dir_wf ex_dir_bytes"
proof -
  have "holds ex_dir_bytes nm j \<Longrightarrow> j < 25 \<Longrightarrow> j = 0" for nm j using ex_dir_entries(3)[of j] by (cases j) (auto simp: holds_def)
  moreover have "de_in_use (entry ex_dir_bytes k) \<Longrightarrow> k < 25 \<Longrightarrow> k = 0" for k using ex_dir_entries(3)[of k] by (cases k) auto
  ultimately show ?thesis unfolding dir_wf_def ex_dir_entries(1) using ex_dir_entries(2) ex_entry_facts(3) by metis
qed

lemma ex_dir_map: "dir_map ex_dir_bytes [97] = Some (5, False)" "dir_map ex_dir_bytes [98] = None"
proof -
  show "dir_map ex_dir_bytes [97] = Some (5, False)"
    using dir_map_Some[OF ex_dir_wf, of 0 "[97]"] ex_dir_entries ex_entry_facts by (simp add: holds_def)
  have "\<not> holds ex_dir_bytes [98] k" if "k < 25" for k
    using that ex_dir_entries(2,3) ex_entry_facts(2) by (cases "k = 0") (auto simp: holds_def)
  then show "dir_map ex_dir_bytes [98] = None" by (simp add: dir_map_None ex_dir_entries(1))
qed

lemma ex_dir_file: "dir_file (ex_dir_fs b) ex_dir_layout 0 (the (inodes (ex_dir_fs b) 0)) ex_dir_bytes"
  using ex_dir_inv[of b] ex_dir_wf ex_dir_contents[of b] by (simp add: dir_file_def ex_dir_fs_def)

lemma ex_names: "is_cstr [97, 0] [97]" "is_cstr [98, 0] [98]" "length (replicate 24 (0 :: u8)) = ENTRY_SIZE"
  by (simp_all add: is_cstr_def ENTRY_SIZE_def)

lemma ex_dir_fields:
  "dirs (ex_dir_fs b) 3 = Some \<lparr>d_inode = Some 0, d_pos = 0\<rparr>" "d_inode \<lparr>d_inode = Some 0, d_pos = 0\<rparr> = Some 0"
  "deny_write_cnt (the (inodes (ex_dir_fs b) 0)) = 0" "unat (i_sector (the (inodes (ex_dir_fs b) 0))) \<noteq> FREE_MAP_SECTOR"
  "ex_dir_layout (unat (5 :: u32)) = Some ex_empty_inode" "unat (5 :: u32) \<noteq> FREE_MAP_SECTOR" "free_map_file (ex_dir_fs b) = Some 1"
  "free_map (ex_dir_fs b) = \<lparr>bit_cnt = 32, bits = [63]\<rparr>"
  "\<forall>q \<in> set (open_inodes (ex_dir_fs False)). map_option i_sector (inodes (ex_dir_fs False) q) \<noteq> Some 5"
  by (simp_all add: ex_dir_fs_def ex_dir_layout_def FREE_MAP_SECTOR_def)

theorem dir_add_map_witness:
  "\<exists>s' bs'. dir_add (replicate 24 0) (Some 3) [98, 0] 7 True (ex_dir_fs False) = Some (s', True) \<and> dir_map bs' [98] = Some (7, True) \<and>
    dir_map bs' [97] = Some (5, False)"
proof -
  have "\<exists>k < entry_count ex_dir_bytes. \<not> de_in_use (entry ex_dir_bytes k)"
    unfolding ex_dir_entries(1) by (intro exI[of _ 1] conjI ex_dir_entries(3)) simp_all
  moreover have "[98] \<notin> dom (dir_map ex_dir_bytes)" using ex_dir_map(2) by (simp add: dom_def)
  moreover obtain s' ok bs' where "dir_add (replicate 24 0) (Some 3) [98, 0] 7 True (ex_dir_fs False) = Some (s', ok)"
    "ok \<longleftrightarrow> [98] \<noteq> ([] :: u8 list) \<and> length [98 :: u8] \<le> NAME_MAX \<and> [98] \<notin> dom (dir_map ex_dir_bytes) \<and>
       (\<exists>k < entry_count ex_dir_bytes. \<not> de_in_use (entry ex_dir_bytes k))"
    "dir_map bs' = (if ok then (dir_map ex_dir_bytes)([98] \<mapsto> (7, True)) else dir_map ex_dir_bytes)"
    using dir_add_map[OF ex_dir_file[of False] ex_dir_fields(1-3) ex_names(2,3), of 7 True] by blast
  ultimately show ?thesis using ex_dir_map(1) by (intro exI[of _ s'] exI[of _ bs']) (simp add: NAME_MAX_def)
qed

theorem dir_remove_map_witness:
  "\<exists>s' bs'. dir_remove (replicate 24 0) (Some 3) [97, 0] (ex_dir_fs False) = Some (s', True) \<and> dir_map bs' [97] = None \<and>
    \<not> bit_at (free_map s') 5 \<and> bit_at (free_map s') 4"
proof -
  obtain s' bs' where s': "dir_remove (replicate 24 0) (Some 3) [97, 0] (ex_dir_fs False) = Some (s', True)"
    "dir_map bs' = (dir_map ex_dir_bytes)([97] := None)"
    "\<forall>j < bit_cnt (free_map (ex_dir_fs False)). bit_at (free_map s') j =
       (bit_at (free_map (ex_dir_fs False)) j \<and> j \<notin> insert (unat (5 :: u32)) (data_sectors ex_empty_inode))"
    using dir_remove_map[OF ex_dir_file ex_dir_fields(1-4) ex_names(1,3) ex_dir_map(1) ex_dir_fields(5,9,6,7)] by blast
  then have "\<not> bit_at (free_map s') 5" "bit_at (free_map s') 4"
    unfolding ex_dir_fields(8) by (simp_all add: ex_empty_facts(2) bit_at_def elem_idx_def ELEM_BITS_def)
  with s'(1,2) show ?thesis by (intro exI[of _ s'] exI[of _ bs']) simp
qed

theorem dir_remove_busy_leaks_witness:
  "\<exists>s'. dir_remove (replicate 24 0) (Some 3) [97, 0] (ex_dir_fs True) = Some (s', False) \<and> map_option open_cnt (inodes s' 2) = Some 2"
proof -
  let ?j = "\<lparr>i_sector = 5, open_cnt = 1, removed = False, deny_write_cnt = 0, i_data = ex_empty_inode\<rparr>"
  have q: "2 \<in> set (open_inodes (ex_dir_fs True))" "inodes (ex_dir_fs True) 2 = Some ?j" by (simp_all add: ex_dir_fs_def)
  obtain c where c: "dir_remove (replicate 24 0) (Some 3) [97, 0] (ex_dir_fs True) =
      Some ((set_inode 2 (?j\<lparr>open_cnt := open_cnt ?j + 1\<rparr>) (ex_dir_fs True))\<lparr>buf := c\<rparr>, False)"
    using dir_remove_busy_leaks[OF ex_dir_file ex_dir_fields(1,2) ex_names(1,3) ex_dir_map(1) q] by auto
  show ?thesis unfolding c by (simp add: set_inode_def)
qed

end
