(* ===== verification/Pintos_Filesys.thy ===== *)
theory Pintos_Filesys
  imports Pintos_Directory
begin

section \<open>The file system (filesys/filesys.c)\<close>

text \<open>
  What the functions find in memory they have not written: the bytes of a directory entry and of a name
  buffer, a flag, the word behind a directory object, what \<open>malloc\<close> returns, and the working directory of
  the process.
\<close>

record memory =
  junk_entry :: "u8 list"
  junk_name :: "u8 list"
  junk_last :: "u8 list"
  junk_flag :: bool
  junk_word :: int
  heap :: "nat \<Rightarrow> u8 list option"
  working_dir :: "nat option"

text \<open>The inode of a path, and the flag that the caller finds in its variable.\<close>

definition open_path :: "memory \<Rightarrow> u8 list \<Rightarrow> fs \<Rightarrow> (fs \<times> nat option \<times> bool) option" where
  "open_path m path s = do {
     (s, ip, is_dir) \<leftarrow> dir_open_from_path (junk_entry m) (junk_name m) (working_dir m) path s;
     Some (s, ip, case is_dir of Some b \<Rightarrow> b | None \<Rightarrow> junk_flag m)
   }"

definition do_format :: "fs \<Rightarrow> fs option" where
  "do_format s = do {
     s \<leftarrow> free_map_create s;
     (s, ok) \<leftarrow> dir_create (word_of_nat ROOT_DIR_SECTOR) 16 1 s;
     ASSERT ok;
     free_map_close s
   }"

text \<open>The device of the role becomes the device of the buffer cache.\<close>

definition filesys_init :: "bool \<Rightarrow> (nat \<Rightarrow> u32 list option) \<Rightarrow> block_state \<Rightarrow> bool \<Rightarrow> fs \<Rightarrow> fs option" where
  "filesys_init mem alloc bst format s = do {
     r \<leftarrow> block_get_role BLOCK_FILESYS bst;
     b \<leftarrow> r;
     d \<leftarrow> blocks bst b;
     let s = s\<lparr>buf := (buf s)\<lparr>fs_device := d\<rparr>\<rparr>;
     let s = inode_init s;
     s \<leftarrow> free_map_init mem alloc s;
     s \<leftarrow> (if format then do_format s else Some s);
     s \<leftarrow> free_map_open s;
     dir_init s
   }"

definition filesys_done :: "fs \<Rightarrow> fs option" where
  "filesys_done s = do {
     s \<leftarrow> free_map_close s;
     c \<leftarrow> cache_close (buf s);
     Some (s\<lparr>buf := c\<rparr>)
   }"

text \<open>\<open>size\<close> is of type \<open>size_t\<close>; \<open>inode_create\<close> takes it as \<open>off_t\<close>.\<close>

definition create_inode :: "u32 \<Rightarrow> nat \<Rightarrow> u32 \<Rightarrow> bool \<Rightarrow> fs \<Rightarrow> (fs \<times> bool) option" where
  "create_inode sector sz parent is_dir s =
     (if is_dir then dir_create sector sz parent s else inode_create sector (wrap32 (int sz)) parent s)"

text \<open>The part of \<open>filesys_create\<close> behind the lookup of the parent directory.\<close>

definition create_in :: "memory \<Rightarrow> nat option \<Rightarrow> u8 list \<Rightarrow> int \<Rightarrow> bool \<Rightarrow> fs \<Rightarrow> (fs \<times> bool) option" where
  "create_in m parent_dir last_entry initial_size is_dir s = do {
     (s, success, inode_sector) \<leftarrow> (case parent_dir of
         None \<Rightarrow> Some (s, False, 0)
       | Some _ \<Rightarrow> do {
           (s, r) \<leftarrow> free_map_allocate 1 s;
           case r of
             None \<Rightarrow> Some (s, False, 0)
           | Some sector \<Rightarrow> do {
               ip \<leftarrow> dir_get_inode parent_dir s;
               p \<leftarrow> ip;
               parent \<leftarrow> inode_get_inumber p s;
               (s, ok) \<leftarrow> create_inode (word_of_nat sector) (nat (initial_size mod 2 ^ 32)) parent is_dir s;
               if ok then do {
                 (s, ok) \<leftarrow> dir_add (junk_entry m) parent_dir last_entry (word_of_nat sector) is_dir s;
                 Some (s, ok, sector)
               }
               else Some (s, False, sector)
             }
         });
     s \<leftarrow> (if \<not> success \<and> inode_sector \<noteq> 0 then free_map_release inode_sector 1 s else Some s);
     s \<leftarrow> dir_close (junk_word m) parent_dir s;
     Some (s, success)
   }"

definition filesys_create :: "memory \<Rightarrow> u8 list \<Rightarrow> int \<Rightarrow> bool \<Rightarrow> fs \<Rightarrow> (fs \<times> bool) option" where
  "filesys_create m name initial_size is_dir s = do {
     n \<leftarrow> strlen name;
     if n = 0 then Some (s, False)
     else do {
       path_prefix \<leftarrow> heap m n;
       (path_prefix, last_entry) \<leftarrow> path_split_last (heap m) name path_prefix (junk_last m) NAME_MAX;
       c \<leftarrow> byte_at last_entry 0;
       if c = 0 then Some (s, False)
       else do {
         (s, parent_inode, path_is_dir) \<leftarrow> open_path m path_prefix s;
         if parent_inode = None then Some (s, False)
         else do {
           (s, parent_dir) \<leftarrow> dir_open parent_inode s;
           if parent_dir = None \<or> \<not> path_is_dir then Some (s, False)
           else create_in m parent_dir last_entry initial_size is_dir s
         }
       }
     }
   }"

definition filesys_open_file :: "memory \<Rightarrow> u8 list \<Rightarrow> fs \<Rightarrow> (fs \<times> nat option) option" where
  "filesys_open_file m name s = do {
     (s, ip, is_dir) \<leftarrow> open_path m name s;
     if is_dir then Some (s, None) else file_open ip s
   }"

definition filesys_open_dir :: "memory \<Rightarrow> u8 list \<Rightarrow> fs \<Rightarrow> (fs \<times> nat option) option" where
  "filesys_open_dir m path s = do {
     (s, ip, is_dir) \<leftarrow> open_path m path s;
     if is_dir then dir_open ip s else Some (s, None)
   }"

definition filesys_path_exists :: "memory \<Rightarrow> u8 list \<Rightarrow> fs \<Rightarrow> (fs \<times> bool) option" where
  "filesys_path_exists m path s = do {
     (s, ip, _) \<leftarrow> open_path m path s;
     Some (s, ip \<noteq> None)
   }"

definition filesys_path_is_file :: "memory \<Rightarrow> u8 list \<Rightarrow> fs \<Rightarrow> (fs \<times> bool) option" where
  "filesys_path_is_file m path s = do {
     (s, _, is_dir) \<leftarrow> open_path m path s;
     Some (s, \<not> is_dir)
   }"

definition filesys_remove :: "memory \<Rightarrow> u8 list \<Rightarrow> fs \<Rightarrow> (fs \<times> bool) option" where
  "filesys_remove m name s = do {
     (s, dir) \<leftarrow> dir_open_root s;
     (s, success) \<leftarrow> (case dir of None \<Rightarrow> Some (s, False) | Some _ \<Rightarrow> dir_remove (junk_entry m) dir name s);
     s \<leftarrow> dir_close (junk_word m) dir s;
     Some (s, success)
   }"

end
