(* ===== verification/Spec2Isabelle.thy ===== *)
theory Spec2Isabelle
  imports Pintos_List_Sort Pintos_Bitmap Pintos_Hash Pintos_Arith64 Pintos_Path Pintos_Intq Pintos_Random Pintos_Fixed_Point Pintos_Fd
    Pintos_Palloc Pintos_Kernel_Props Pintos_Directory_Props Pintos_Filesys
begin

text \<open>
  \<^bold>\<open>A verification library for the kernel\<close>

  The program is a teaching operating system kernel in C: data structure and string libraries
  (lib, lib/kernel), device support (devices), the thread system with synchronisation and memory
  allocators (threads), user processes and page directories (userprog), virtual memory (vm) and
  a file system with a sector cache (filesys).

  \<^bold>\<open>Conventions.\<close> Every operation is a function that takes the state it reads and returns the
  state it leaves. A failed \<open>ASSERT\<close>, a panic and a null dereference are the value \<open>None\<close>; a loop
  over links that may not end is a partial function into \<open>option\<close>, so that not returning is
  \<open>None\<close> too. Theorems that an operation returns therefore state the value \<open>Some\<close>.

  \<^bold>\<open>Theories.\<close>
  \<^item> \<open>Pintos_Prelude\<close>: assertions, strict weak orders and the reference stable sort.
  \<^item> \<open>Pintos_List\<close>: lib/kernel/list.c on a heap of links; \<open>is_list h l xs\<close> says that the links of
    heap \<open>h\<close> between the headers of \<open>l\<close> are exactly the elements \<open>xs\<close>.
  \<^item> \<open>Pintos_List_Sort\<close>: the natural merge sort of list.c, ordered insertion, extrema, duplicates.
\<close>

end
